(* ===== verification/Prelude.thy ===== *)
theory Prelude
  imports Main "HOL-Library.Word"
begin

text \<open>
  Shared vocabulary of the development: the machine integers of the firmware and the
  servers, the theorem collections that the component theories extend, and the generic
  facts on lists and circular buffers that several components use.
\<close>

unbundle bit_operations_syntax

type_synonym u8 = "8 word"
type_synonym u16 = "16 word"
type_synonym u32 = "32 word"

text \<open>The functions of \<^verbatim>\<open>ctype.h\<close> and \<^verbatim>\<open>string.h\<close> on characters that several components use.\<close>

definition c_tolower :: "char \<Rightarrow> char" where
  "c_tolower c = (let n = of_char c :: nat in if 65 \<le> n \<and> n \<le> 90 then char_of (n + 32) else c)"

named_theorems num_consts \<open>numeric constants of the sources, unfolded for evaluation\<close>
named_theorems refine \<open>how a concrete operation acts on the abstract value it represents\<close>
named_theorems inv_rules \<open>operations preserve the invariant of their component\<close>

lemma unat_of_nat_u8: "n < 256 \<Longrightarrow> unat (of_nat n :: u8) = n"
  by (simp add: unat_of_nat)

lemma unat_of_nat_u16: "n < 65536 \<Longrightarrow> unat (of_nat n :: u16) = n"
  by (simp add: unat_of_nat)

lemma append_eq_prefix:
  assumes "xs @ ys = zs @ us" "length zs \<le> length xs"
  obtains p where "xs = zs @ p" "p @ ys = us"
  using assms by (metis append_eq_append_conv_if append_take_drop_id append_same_eq
      append_assoc append_eq_conv_conj le_add1 same_append_eq that)

text \<open>
  The live part of a circular buffer \<open>buf\<close> of \<open>N\<close> cells, read from index \<open>t\<close> up to
  (and excluding) index \<open>h\<close>.
\<close>

definition ring_slice :: "nat \<Rightarrow> 'a list \<Rightarrow> nat \<Rightarrow> nat \<Rightarrow> 'a list" where
  "ring_slice N buf t h = map (\<lambda>k. buf ! ((t + k) mod N)) [0..<(h + N - t) mod N]"

text \<open>
  The index discipline that the circular buffers of the firmware share: \<open>N\<close> cells, one of
  them kept free so that equal indices mean an empty buffer.
\<close>

locale ring_index =
  fixes N :: nat
  assumes N_gt_1: "1 < N"
begin

lemma ring_next: "i < N \<Longrightarrow> Suc i mod N = (if Suc i = N then 0 else Suc i)"
  by simp

lemma ring_dist:
  assumes "t < N" "h < N"
  shows "(h + N - t) mod N = (if t \<le> h then h - t else h + N - t)"
proof (cases "t \<le> h")
  case True
  then have "(h + N - t) mod N = ((h - t) + N) mod N" by simp
  also have "\<dots> = h - t" using assms by (simp only: mod_add_self2) simp
  finally show ?thesis using True by simp
next
  case False
  then show ?thesis using assms by simp
qed

lemma ring_slice_Nil_iff:
  assumes "t < N" "h < N"
  shows "ring_slice N buf t h = [] \<longleftrightarrow> t = h"
  using assms by (auto simp: ring_slice_def ring_dist)

lemma ring_dist_step:
  assumes "t < N" "h < N" "t \<noteq> h"
  shows "(h + N - t) mod N = Suc ((h + N - Suc t mod N) mod N)"
proof -
  have "Suc t mod N < N" using N_gt_1 by simp
  then show ?thesis
    unfolding ring_dist [OF assms(1,2)] ring_dist [OF \<open>Suc t mod N < N\<close> assms(2)]
    using assms by (auto simp only: ring_next split: if_splits)
qed

text \<open>Reading the cell at the read index and moving it on takes the head of the slice.\<close>

lemma ring_slice_Cons:
  assumes "t < N" "h < N" "t \<noteq> h"
  shows "ring_slice N buf t h = buf ! t # ring_slice N buf (Suc t mod N) h"
proof -
  let ?d = "(h + N - Suc t mod N) mod N"
  have "ring_slice N buf t h = map (\<lambda>k. buf ! ((t + k) mod N)) [0..<Suc ?d]"
    unfolding ring_slice_def by (simp only: ring_dist_step [OF assms])
  also have "\<dots> = buf ! t # map (\<lambda>k. buf ! ((t + k) mod N)) (map Suc [0..<?d])"
    using assms by (simp only: upt_conv_Cons map_Suc_upt zero_less_Suc list.map add_0_right mod_less)
  also have "map (\<lambda>k. buf ! ((t + k) mod N)) (map Suc [0..<?d])
      = map (\<lambda>k. buf ! ((Suc t mod N + k) mod N)) [0..<?d]"
    by (simp add: mod_add_left_eq)
  finally show ?thesis by (simp add: ring_slice_def)
qed

text \<open>Writing the cell at the write index and moving it on appends to the slice.\<close>

lemma ring_slice_snoc:
  assumes "t < N" "h < N" "length buf = N" "length (ring_slice N buf t h) < N - 1"
  shows "ring_slice N (buf[h := x]) t (Suc h mod N) = ring_slice N buf t h @ [x]"
proof -
  let ?d = "(h + N - t) mod N"
  have dlt: "?d < N - 1" using assms(4) by (simp add: ring_slice_def)
  have at_h: "(t + ?d) mod N = h"
  proof -
    have "(t + ?d) mod N = (t + (h + N - t)) mod N" by (simp add: mod_add_right_eq)
    also have "\<dots> = h" using assms by simp
    finally show ?thesis .
  qed
  have d': "(Suc h mod N + N - t) mod N = Suc ?d"
  proof -
    have "Suc h mod N < N" using N_gt_1 by simp
    then show ?thesis
      using dlt assms(1,2)
      unfolding ring_dist [OF assms(1,2)] ring_dist [OF assms(1) \<open>Suc h mod N < N\<close>]
      by (auto simp only: ring_next split: if_splits)
  qed
  have off: "h \<noteq> (t + k) mod N" if "k < ?d" for k
  proof
    assume "h = (t + k) mod N"
    with at_h have e: "(t + k) mod N = (t + ?d) mod N" by simp
    have wrap: "(t + j) mod N = (if t + j < N then t + j else t + j - N)" if "j < N" for j
      using that assms(1) by (simp add: mod_if)
    have "k = ?d"
      using e wrap [of k] wrap [of ?d] that dlt assms(1) by (auto split: if_splits)
    with that dlt show False by simp
  qed
  have "ring_slice N (buf[h := x]) t (Suc h mod N)
      = map (\<lambda>k. buf[h := x] ! ((t + k) mod N)) ([0..<?d] @ [?d])"
    unfolding ring_slice_def d' by simp
  also have "\<dots> = map (\<lambda>k. buf[h := x] ! ((t + k) mod N)) [0..<?d] @ [x]"
    using at_h assms(2,3) by simp
  also have "map (\<lambda>k. buf[h := x] ! ((t + k) mod N)) [0..<?d] = ring_slice N buf t h"
    unfolding ring_slice_def using off by (auto simp: nth_list_update_neq)
  finally show ?thesis .
qed

end

end
