(* ===== verification/Boot_Flash.thy ===== *)
theory Boot_Flash
  imports Prelude
begin

text \<open>
  The self-programming interface of the ATmega328P as \<^verbatim>\<open>boot.h\<close> presents it: the flash
  memory with its 128-byte pages, the temporary page buffer that is filled a word at a
  time, and the read-while-write lock that a page erase or a page write takes and
  \<^verbatim>\<open>boot_rww_enable\<close> releases. The macros wait for completion with
  \<^verbatim>\<open>boot_spm_busy_wait\<close>, so an operation is complete when the next one starts.
\<close>

definition SPM_PAGESIZE :: nat where
  "SPM_PAGESIZE = 128"

record flash =
  flash_mem :: "u16 \<Rightarrow> u8"
  page_buf :: "nat \<Rightarrow> u16"
  rww_busy :: bool

text \<open>Two byte addresses lie in the same page.\<close>

definition same_page :: "u16 \<Rightarrow> u16 \<Rightarrow> bool" where
  "same_page a b \<longleftrightarrow> unat a div SPM_PAGESIZE = unat b div SPM_PAGESIZE"

definition boot_page_erase :: "u16 \<Rightarrow> flash \<Rightarrow> flash" where
  "boot_page_erase a f =
     f\<lparr>flash_mem := (\<lambda>x. if same_page x a then 0xFF else flash_mem f x), rww_busy := True\<rparr>"

text \<open>
  The address of a fill selects the word of the buffer, so that two addresses at the
  same offset of their pages name the same word.
\<close>

definition boot_page_fill :: "u16 \<Rightarrow> u16 \<Rightarrow> flash \<Rightarrow> flash" where
  "boot_page_fill a w f =
     f\<lparr>page_buf := (page_buf f)(unat a mod SPM_PAGESIZE div 2 := w)\<rparr>"

text \<open>
  Programming can only clear bits, so a page write leaves the conjunction of what the
  page held with the buffer: the low byte of a word at its even address, the high byte
  at the odd one.
\<close>

definition page_buf_byte :: "flash \<Rightarrow> u16 \<Rightarrow> u8" where
  "page_buf_byte f x =
     (let w = page_buf f (unat x mod SPM_PAGESIZE div 2)
      in if even (unat x) then ucast w else ucast (drop_bit 8 w))"

definition boot_page_write :: "u16 \<Rightarrow> flash \<Rightarrow> flash" where
  "boot_page_write a f =
     f\<lparr>flash_mem := (\<lambda>x. if same_page x a then flash_mem f x AND page_buf_byte f x
                          else flash_mem f x), rww_busy := True\<rparr>"

definition boot_rww_enable :: "flash \<Rightarrow> flash" where
  "boot_rww_enable f = f\<lparr>rww_busy := False\<rparr>"

definition boot_page_erase_safe :: "u16 \<Rightarrow> flash \<Rightarrow> flash" where
  "boot_page_erase_safe a f = boot_page_erase a f"

text \<open>
  The word that the programming loops build from two bytes of the page,
  \<^verbatim>\<open>lo | (hi << 8)\<close>.
\<close>

definition le_word :: "u8 \<Rightarrow> u8 \<Rightarrow> u16" where
  "le_word lo hi = ucast lo OR push_bit 8 (ucast hi)"

lemma ucast_le_word [simp]:
  "ucast (le_word lo hi) = lo" "ucast (drop_bit 8 (le_word lo hi)) = hi"
  by (rule bit_word_eqI,
      auto simp: le_word_def bit_simps dest: bit_imp_le_length)+

lemma erased_and: "(0xFF :: u8) AND y = y"
proof -
  have "(0xFF :: u8) = - 1" by simp
  then show ?thesis by (simp only: and.left_neutral)
qed

lemma fill_index:
  assumes "unat (a :: u16) mod SPM_PAGESIZE = 0" "i < 64"
  shows "unat (a + 2 * of_nat i) mod SPM_PAGESIZE div 2 = i"
proof -
  have "unat (2 * of_nat i :: u16) = 2 * i"
    using assms(2) by (simp add: unat_word_ariths unat_of_nat)
  then have "unat (a + 2 * of_nat i) mod 128 = (unat a + 2 * i) mod 65536 mod 128"
    by (simp add: unat_word_ariths)
  also have "\<dots> = (unat a + 2 * i) mod 128"
    by (rule mod_mod_cancel) simp
  also have "\<dots> = 2 * i"
  proof -
    obtain q where "unat a = 128 * q" using assms(1) by (auto simp: SPM_PAGESIZE_def)
    then show ?thesis using assms(2) by simp
  qed
  finally show ?thesis by (simp add: SPM_PAGESIZE_def)
qed

text \<open>
  The contract that a client of the interface relies on: what can be read after an erase,
  after fills of the buffer and after a write. A client that erases a page, fills its 64
  words and writes it finds exactly its bytes in the page, and nothing else changed.
\<close>

locale page_programmer =
  fixes rd :: "'f \<Rightarrow> u16 \<Rightarrow> u8"
    and buf :: "'f \<Rightarrow> nat \<Rightarrow> u16"
    and erase :: "u16 \<Rightarrow> 'f \<Rightarrow> 'f"
    and fill :: "u16 \<Rightarrow> u16 \<Rightarrow> 'f \<Rightarrow> 'f"
    and wr :: "u16 \<Rightarrow> 'f \<Rightarrow> 'f"
    and enable :: "'f \<Rightarrow> 'f"
  assumes rd_erase: "rd (erase a f) x = (if same_page x a then 0xFF else rd f x)"
    and buf_fill: "buf (fill a w f) = (buf f)(unat a mod SPM_PAGESIZE div 2 := w)"
    and rd_fill: "rd (fill a w f) = rd f"
    and rd_wr: "rd (wr a f) x =
      (if same_page x a then rd f x AND
         (let w = buf f (unat x mod SPM_PAGESIZE div 2)
          in if even (unat x) then ucast w else ucast (drop_bit 8 w))
       else rd f x)"
    and rd_enable: "rd (enable f) = rd f"
begin

lemma rd_fills: "rd (fold (\<lambda>i. fill (a + 2 * of_nat i) (w i)) is f) = rd f"
  by (induction "is" arbitrary: f) (simp_all add: rd_fill)

lemma buf_fills:
  assumes "unat a mod SPM_PAGESIZE = 0" "n \<le> 64"
  shows "buf (fold (\<lambda>i. fill (a + 2 * of_nat i) (w i)) [0..<n] f) k
    = (if k < n then w k else buf f k)"
  using assms(2)
proof (induction n)
  case 0
  show ?case by simp
next
  case (Suc n)
  then have "unat (a + 2 * of_nat n) mod SPM_PAGESIZE div 2 = n"
    using fill_index [OF assms(1)] by simp
  with Suc show ?case by (auto simp: buf_fill)
qed

lemma program_page_words:
  assumes "unat a mod SPM_PAGESIZE = 0"
  shows "rd (enable (wr a (fold (\<lambda>i. fill (a + 2 * of_nat i) (w i)) [0..<64] (erase a f)))) x
    = (if same_page x a
       then (let v = w (unat x mod SPM_PAGESIZE div 2)
             in if even (unat x) then ucast v else ucast (drop_bit 8 v))
       else rd f x)"
proof -
  have "unat x mod SPM_PAGESIZE div 2 < 64" by (simp add: SPM_PAGESIZE_def)
  then show ?thesis
    by (simp add: rd_enable rd_wr rd_fills rd_erase buf_fills [OF assms] Let_def erased_and)
qed

lemma program_page_bytes:
  assumes "unat a mod SPM_PAGESIZE = 0" "length p = SPM_PAGESIZE"
    and "f' = enable (wr a (fold (\<lambda>i. fill (a + 2 * of_nat i) (le_word (p ! (2 * i)) (p ! (2 * i + 1))))
                       [0..<64] (erase a f)))"
  shows "rd f' x = (if same_page x a then p ! (unat x mod SPM_PAGESIZE) else rd f x)"
proof -
  let ?o = "unat x mod SPM_PAGESIZE"
  have par: "even (unat x) \<longleftrightarrow> even ?o"
    by (simp add: SPM_PAGESIZE_def dvd_mod_iff)
  have "even ?o \<Longrightarrow> 2 * (?o div 2) = ?o" "odd ?o \<Longrightarrow> Suc (2 * (?o div 2)) = ?o"
    by simp_all
  then show ?thesis
    unfolding assms(3) program_page_words [OF assms(1)]
    by (auto simp: Let_def par)
qed

end

lemma same_page_offset:
  assumes "unat (a :: u16) mod SPM_PAGESIZE = 0" "k < SPM_PAGESIZE"
  shows "same_page (a + of_nat k) a" "unat (a + of_nat k) = unat a + k"
proof -
  obtain q where q: "unat a = 128 * q" using assms(1) by (auto simp: SPM_PAGESIZE_def)
  have "unat a < 65536" using unsigned_less [of a, where ?'a = nat] by simp
  with q have "q < 512" by simp
  with assms(2) q have "unat a + k < 65536" by (simp add: SPM_PAGESIZE_def)
  moreover have "unat (of_nat k :: u16) = k"
    using assms(2) by (simp add: SPM_PAGESIZE_def unat_of_nat)
  ultimately show *: "unat (a + of_nat k) = unat a + k"
    by (simp add: unat_word_ariths)
  show "same_page (a + of_nat k) a"
    using assms(2) q by (simp add: same_page_def * SPM_PAGESIZE_def)
qed

interpretation fl: page_programmer flash_mem page_buf boot_page_erase boot_page_fill
    boot_page_write boot_rww_enable
  by unfold_locales
    (simp_all add: boot_page_erase_def boot_page_fill_def boot_page_write_def
      boot_rww_enable_def page_buf_byte_def)

end
