(* ===== verification/Ihex.thy ===== *)
theory Ihex
  imports Boot_Flash
begin

text \<open>
  The streaming Intel HEX loader of the bootloader (\<^verbatim>\<open>tftp_boot/ihex.c\<close> and
  \<^verbatim>\<open>tftp_boot/validate.c\<close>). Packages of text arrive in any split; a circular buffer keeps
  the text that is not consumed yet, a second one the decoded bytes of an unfinished page,
  and every full page is programmed into the flash at the write address.

  The state is the record of the file's globals, with the flash of \<^verbatim>\<open>boot.h\<close> beside them.
  A loop of the code that need not end is a \<open>partial_function\<close> whose value \<open>None\<close> is
  non-termination; the section on refinement shows that it returns in every well-formed
  state. \<^verbatim>\<open>char\<close> is unsigned (the makefile passes \<^verbatim>\<open>-funsigned-char\<close>).
\<close>

section \<open>The code\<close>

definition HEX_LINE_MAX_LEN :: nat where
  "HEX_LINE_MAX_LEN = 80"

definition TFTP_MAX_PAYLOAD :: nat where
  "TFTP_MAX_PAYLOAD = 512"

definition RING_BUFFER_LEN :: nat where
  "RING_BUFFER_LEN = TFTP_MAX_PAYLOAD + 80"

definition PAGE_FIFO_LEN :: nat where
  "PAGE_FIFO_LEN = SPM_PAGESIZE * 2"

lemma RING_BUFFER_LEN_num: "RING_BUFFER_LEN = 592"
  by (simp add: RING_BUFFER_LEN_def TFTP_MAX_PAYLOAD_def)

lemmas ihex_consts = HEX_LINE_MAX_LEN_def RING_BUFFER_LEN_num PAGE_FIFO_LEN_def SPM_PAGESIZE_def

declare ihex_consts [num_consts]

abbreviation HEX_FILE_END :: int where "HEX_FILE_END \<equiv> 1"
abbreviation HEX_ERR_NONE :: int where "HEX_ERR_NONE \<equiv> 0"
abbreviation HEX_ERR_FORMAT :: int where "HEX_ERR_FORMAT \<equiv> - 1"
abbreviation HEX_ERR_CHECK :: int where "HEX_ERR_CHECK \<equiv> - 2"
abbreviation HEX_ERR_LINE :: int where "HEX_ERR_LINE \<equiv> - 3"
abbreviation HEX_ERR_EMPTY :: int where "HEX_ERR_EMPTY \<equiv> - 4"
abbreviation HEX_READ_LINE_ERR :: u8 where "HEX_READ_LINE_ERR \<equiv> 0xFF"

record ihex =
  g_ring_buffer :: "u8 list"
  g_buffer_head :: u16
  g_buffer_trail :: u16
  g_read_trail :: u16
  g_page_fifo :: "u8 list"
  g_fifo_head :: u8
  g_fifo_trail :: u8
  g_writeAddr :: u16
  ih_flash :: flash

definition ihex_init :: "ihex \<Rightarrow> ihex" where
  "ihex_init s = s\<lparr>g_buffer_head := 0, g_buffer_trail := 0, g_fifo_head := 0,
                   g_fifo_trail := 0, g_writeAddr := 0\<rparr>"

text \<open>\<^verbatim>\<open>i++; if (i >= RING_BUFFER_LEN) i = 0;\<close>\<close>

definition ring_inc :: "u16 \<Rightarrow> u16" where
  "ring_inc i = (if RING_BUFFER_LEN \<le> unat (i + 1) then 0 else i + 1)"

fun ihex_push_back :: "u8 list \<Rightarrow> ihex \<Rightarrow> ihex" where
  "ihex_push_back [] s = s"
| "ihex_push_back (d # ds) s =
     ihex_push_back ds
       (s\<lparr>g_ring_buffer := (g_ring_buffer s)[unat (g_buffer_head s) := d],
          g_buffer_head := ring_inc (g_buffer_head s)\<rparr>)"

definition xtod :: "u8 \<Rightarrow> u8" where
  "xtod x =
     (if 0x30 \<le> x \<and> x \<le> 0x39 then x - 0x30
      else if 0x41 \<le> x \<and> x \<le> 0x46 then x - 0x41 + 10
      else if 0x61 \<le> x \<and> x \<le> 0x66 then x - 0x61 + 10
      else - 1)"

definition ascii2bin :: "u8 \<Rightarrow> u8 \<Rightarrow> u8" where
  "ascii2bin h l = push_bit 4 (xtod h) OR xtod l"

definition ihex_line_take :: "ihex \<Rightarrow> ihex" where
  "ihex_line_take s = s\<lparr>g_buffer_trail := g_read_trail s\<rparr>"

text \<open>
  The reading loop: \<open>line\<close> holds the characters stored so far, so \<^verbatim>\<open>line_len\<close> is its
  length and \<^verbatim>\<open>read_data[line_len++] = c\<close> appends.
\<close>

partial_function (option) get_line_loop :: "u8 list \<Rightarrow> ihex \<Rightarrow> (u8 \<times> u8 list \<times> ihex) option" where
  "get_line_loop line s =
     (if g_read_trail s = g_buffer_head s then Some (of_nat (length line), line, s)
      else
        let c = g_ring_buffer s ! unat (g_read_trail s);
            s' = s\<lparr>g_read_trail := ring_inc (g_read_trail s)\<rparr>
        in if 0x30 \<le> c \<and> c \<le> 0x66 then
             (if HEX_LINE_MAX_LEN \<le> length (line @ [c]) then Some (HEX_READ_LINE_ERR, line @ [c], s')
              else get_line_loop (line @ [c]) s')
           else if c = 0x0A then
             (if line \<noteq> [] then Some (of_nat (length line), line, s') else get_line_loop line s')
           else if c = 0x0D then get_line_loop line s'
           else Some (HEX_READ_LINE_ERR, line, s'))"

definition ihex_get_line :: "ihex \<Rightarrow> (u8 \<times> u8 list \<times> ihex) option" where
  "ihex_get_line s = get_line_loop [] s"

text \<open>
  Decode \<open>n\<close> data bytes of a line from position \<open>j\<close>, push them into the page buffer and
  add them to the checksum; the last result is the position after the data.
\<close>

definition fifo_push :: "u8 \<Rightarrow> ihex \<Rightarrow> ihex" where
  "fifo_push d s =
     s\<lparr>g_page_fifo := (g_page_fifo s)[unat (g_fifo_head s) := d],
       g_fifo_head := of_nat (unat (g_fifo_head s + 1) mod PAGE_FIFO_LEN)\<rparr>"

fun line_data :: "nat \<Rightarrow> nat \<Rightarrow> u8 list \<Rightarrow> u8 \<Rightarrow> ihex \<Rightarrow> ihex \<times> u8 \<times> nat" where
  "line_data 0 j line checksum s = (s, checksum, j)"
| "line_data (Suc n) j line checksum s =
     (let d = ascii2bin (line ! j) (line ! (j + 1))
      in line_data n (j + 2) line (checksum + d) (fifo_push d s))"

text \<open>
  The loop of \<^verbatim>\<open>ihex_get_page\<close> over the lines. The result is the last \<^verbatim>\<open>line_len\<close>, the
  error code, \<^verbatim>\<open>page_len\<close> and the state with which the loop is left.
\<close>

partial_function (option) get_page_loop :: "int \<Rightarrow> u8 \<Rightarrow> ihex \<Rightarrow> (u8 \<times> int \<times> u8 \<times> ihex) option" where
  "get_page_loop err_code page_len s =
     Option.bind (ihex_get_line s) (\<lambda>(line_len, line, s1).
       if line_len = 0 then Some (line_len, err_code, page_len, s1)
       else if HEX_LINE_MAX_LEN < unat line_len then Some (line_len, HEX_ERR_FORMAT, page_len, s1)
       else if line ! 0 \<noteq> 0x3A then Some (line_len, HEX_ERR_FORMAT, page_len, s1)
       else
         let len = ascii2bin (line ! 1) (line ! 2)
         in if unat line_len < 11 \<or> unat len * 2 + 11 \<noteq> unat line_len
            then Some (line_len, HEX_ERR_LINE, page_len, s1)
            else
              let s2 = ihex_line_take s1;
                  type = ascii2bin (line ! 7) (line ! 8)
              in if type = 0 then
                   let addr_H = ascii2bin (line ! 3) (line ! 4);
                       addr_L = ascii2bin (line ! 5) (line ! 6);
                       (s3, sum, j) = line_data (unat len) 9 line (len + addr_H + addr_L) s2;
                       checksum = sum + ascii2bin (line ! j) (line ! (j + 1))
                   in if checksum \<noteq> 0 then Some (line_len, HEX_ERR_CHECK, page_len, s3)
                      else
                        let page_len' = g_fifo_head s3 - g_fifo_trail s3
                        in if SPM_PAGESIZE \<le> unat page_len'
                           then Some (line_len, HEX_ERR_NONE, page_len', s3)
                           else get_page_loop HEX_ERR_NONE page_len' s3
                 else if type = 1 then Some (line_len, HEX_FILE_END, page_len, s2)
                 else get_page_loop HEX_ERR_NONE page_len s2)"

fun page_copy :: "nat \<Rightarrow> nat \<Rightarrow> u8 list \<Rightarrow> ihex \<Rightarrow> u8 list \<times> ihex" where
  "page_copy 0 i page_data s = (page_data, s)"
| "page_copy (Suc n) i page_data s =
     page_copy n (i + 1) (page_data[i := g_page_fifo s ! unat (g_fifo_trail s)])
       (s\<lparr>g_fifo_trail := of_nat (unat (g_fifo_trail s + 1) mod PAGE_FIFO_LEN)\<rparr>)"

text \<open>Result: \<^verbatim>\<open>page_len\<close>, \<^verbatim>\<open>*err_code\<close>, the page buffer and the state.\<close>

definition ihex_get_page :: "u8 list \<Rightarrow> ihex \<Rightarrow> (u8 \<times> int \<times> u8 list \<times> ihex) option" where
  "ihex_get_page page_data s =
     Option.bind (get_page_loop HEX_ERR_EMPTY 0 (s\<lparr>g_read_trail := g_buffer_trail s\<rparr>))
       (\<lambda>(line_len, err, page_len, s1).
         let err_code = (if line_len = 0 \<and> 0 < page_len then HEX_ERR_LINE else err)
         in if HEX_ERR_NONE \<le> err_code then
              let n = (if SPM_PAGESIZE < unat page_len then SPM_PAGESIZE else unat page_len);
                  (page, s2) = page_copy n 0 page_data s1
              in Some (of_nat n, err_code, page, s2)
            else Some (0, err_code, page_data, s1))"

definition validImage :: "u8 list \<Rightarrow> bool" where
  "validImage base \<longleftrightarrow> (\<forall>i \<in> set [0..<13]. base ! (4 * i) = 0x0C \<and> base ! (4 * i + 1) = 0x94)"

text \<open>Erase the page at the write address, fill its words from the package and write it.\<close>

fun fill_loop :: "nat \<Rightarrow> nat \<Rightarrow> u16 \<Rightarrow> u8 list \<Rightarrow> flash \<Rightarrow> flash" where
  "fill_loop 0 offset a package f = f"
| "fill_loop (Suc n) offset a package f =
     fill_loop n (offset + 2) a package
       (boot_page_fill (a + of_nat offset) (le_word (package ! offset) (package ! (offset + 1))) f)"

definition flash_page :: "u16 \<Rightarrow> u8 list \<Rightarrow> flash \<Rightarrow> flash" where
  "flash_page a package f =
     boot_rww_enable (boot_page_write a
       (fill_loop (SPM_PAGESIZE div 2) 0 a package (boot_page_erase a f)))"

partial_function (option) package_loop :: "ihex \<Rightarrow> (int \<times> ihex) option" where
  "package_loop s =
     Option.bind (ihex_get_page (replicate SPM_PAGESIZE 0xFF) s) (\<lambda>(page_len, err_code, package, s1).
       if 0 < page_len then
         if g_writeAddr s1 = 0 \<and> \<not> validImage package then Some (- 1, s1)
         else
           let s2 = s1\<lparr>ih_flash := flash_page (g_writeAddr s1) package (ih_flash s1)\<rparr>
           in if err_code = HEX_FILE_END then Some (1, s2)
              else package_loop (s2\<lparr>g_writeAddr := g_writeAddr s2 + ucast page_len\<rparr>)
       else if err_code = HEX_ERR_LINE \<or> err_code = HEX_ERR_EMPTY then Some (0, s1)
       else Some (- 2, s1))"

definition ihex_package_process :: "u8 list \<Rightarrow> ihex \<Rightarrow> (int \<times> ihex) option" where
  "ihex_package_process package s = package_loop (ihex_push_back package s)"

text \<open>The globals of a freshly started boot loader: the zeroed variables, initialised.\<close>

definition ihex_start :: "flash \<Rightarrow> ihex" where
  "ihex_start f = ihex_init
     \<lparr>g_ring_buffer = replicate RING_BUFFER_LEN 0, g_buffer_head = 0, g_buffer_trail = 0,
      g_read_trail = 0, g_page_fifo = replicate PAGE_FIFO_LEN 0, g_fifo_head = 0, g_fifo_trail = 0,
      g_writeAddr = 0, ih_flash = f\<rparr>"

definition blank_flash :: flash where
  "blank_flash = \<lparr>flash_mem = \<lambda>_. 0xFF, page_buf = \<lambda>_. 0xFFFF, rww_busy = False\<rparr>"

end
