(* ===== verification/Ihex_Spec.thy ===== *)
theory Ihex_Spec
  imports Ihex
begin

text \<open>
  What the loader of \<^verbatim>\<open>ihex.c\<close> promises, with the two circular buffers replaced by lists:
  the text not consumed yet, the decoded bytes of the unfinished page, the write address
  and the flash. The functions are total; \<^verbatim>\<open>Ihex_Refine\<close> shows that the code computes them.
\<close>

section \<open>Lines\<close>

text \<open>The next line of a text: its length or the error mark, its characters, what follows.\<close>

fun scan_line :: "u8 list \<Rightarrow> u8 list \<Rightarrow> u8 \<times> u8 list \<times> u8 list" where
  "scan_line line [] = (of_nat (length line), line, [])"
| "scan_line line (c # cs) =
     (if 0x30 \<le> c \<and> c \<le> 0x66 then
        (if HEX_LINE_MAX_LEN \<le> length line + 1 then (HEX_READ_LINE_ERR, line @ [c], cs)
         else scan_line (line @ [c]) cs)
      else if c = 0x0A then
        (if line \<noteq> [] then (of_nat (length line), line, cs) else scan_line line cs)
      else if c = 0x0D then scan_line line cs
      else (HEX_READ_LINE_ERR, line, cs))"

datatype hex_line =
    Malformed                    \<comment> \<open>no colon in front\<close>
  | Incomplete                   \<comment> \<open>shorter or longer than its length field says\<close>
  | Data_Line bool "u8 list"     \<comment> \<open>type 0: does the checksum fit, and the bytes\<close>
  | End_Line                     \<comment> \<open>type 1\<close>
  | Other_Line                   \<comment> \<open>any other type\<close>

definition line_bytes :: "nat \<Rightarrow> u8 list \<Rightarrow> u8 list" where
  "line_bytes n line = map (\<lambda>i. ascii2bin (line ! (9 + 2 * i)) (line ! (10 + 2 * i))) [0..<n]"

definition decode_line :: "u8 list \<Rightarrow> hex_line" where
  "decode_line line =
     (let len = ascii2bin (line ! 1) (line ! 2);
          type = ascii2bin (line ! 7) (line ! 8);
          bytes = line_bytes (unat len) line;
          sum = len + ascii2bin (line ! 3) (line ! 4) + ascii2bin (line ! 5) (line ! 6)
                + sum_list bytes
                + ascii2bin (line ! (9 + 2 * unat len)) (line ! (10 + 2 * unat len))
      in if line ! 0 \<noteq> 0x3A then Malformed
         else if length line < 11 \<or> unat len * 2 + 11 \<noteq> length line then Incomplete
         else if type = 0 then Data_Line (sum = 0) bytes
         else if type = 1 then End_Line
         else Other_Line)"

lemma scan_line_length:
  "scan_line line cs = (n, l, rest) \<Longrightarrow> length rest \<le> length cs"
  by (induction line cs arbitrary: n l rest rule: scan_line.induct) (fastforce split: if_splits)+

lemma scan_line_line:
  "scan_line line cs = (n, l, rest) \<Longrightarrow> length line < HEX_LINE_MAX_LEN
   \<Longrightarrow> n = HEX_READ_LINE_ERR \<or> n = of_nat (length l) \<and> length l < HEX_LINE_MAX_LEN"
  by (induction line cs arbitrary: n l rest rule: scan_line.induct) (fastforce split: if_splits)+

lemma scan_line_progress:
  "scan_line line cs = (n, l, rest) \<Longrightarrow> line = [] \<Longrightarrow> n \<noteq> 0 \<Longrightarrow> length rest < length cs"
proof (induction line cs arbitrary: n l rest rule: scan_line.induct)
  case (1 line)
  then show ?case by simp
next
  case (2 line c cs)
  then show ?case
    by (auto split: if_splits dest: scan_line_length simp: less_Suc_eq_le)
qed

section \<open>Pages and packages\<close>

record loader =
  pend :: "u8 list"
  fif :: "u8 list"
  waddr :: u16
  lflash :: flash

text \<open>
  Collect lines until a page is full, the text ends or a line stops the loop. The result
  is whether the text ended, the error code, the number of bytes for the page and the
  remaining text and bytes. A line that is refused before it is taken stays in the text.
\<close>

function collect :: "int \<Rightarrow> nat \<Rightarrow> u8 list \<Rightarrow> u8 list \<Rightarrow> bool \<times> int \<times> nat \<times> u8 list \<times> u8 list" where
  "collect err plen P F =
     (case scan_line [] P of (n, line, rest) \<Rightarrow>
        if n = 0 then (True, err, plen, P, F)
        else if n = HEX_READ_LINE_ERR then (False, HEX_ERR_FORMAT, plen, P, F)
        else
          (case decode_line line of
             Malformed \<Rightarrow> (False, HEX_ERR_FORMAT, plen, P, F)
           | Incomplete \<Rightarrow> (False, HEX_ERR_LINE, plen, P, F)
           | Data_Line ok bytes \<Rightarrow>
               if \<not> ok then (False, HEX_ERR_CHECK, plen, rest, F @ bytes)
               else if SPM_PAGESIZE \<le> length (F @ bytes)
                    then (False, HEX_ERR_NONE, length (F @ bytes), rest, F @ bytes)
                    else collect HEX_ERR_NONE (length (F @ bytes)) rest (F @ bytes)
           | End_Line \<Rightarrow> (False, HEX_FILE_END, plen, rest, F)
           | Other_Line \<Rightarrow> collect HEX_ERR_NONE plen rest F))"
  by pat_completeness auto
termination
  by (relation "measure (\<lambda>(err, plen, P, F). length P)")
    (auto dest: scan_line_progress [OF sym])

declare collect.simps [simp del]

definition load_page :: "loader \<Rightarrow> nat \<times> int \<times> u8 list \<times> loader" where
  "load_page L =
     (case collect HEX_ERR_EMPTY 0 (pend L) (fif L) of (at_end, err, plen, P, F) \<Rightarrow>
        let err_code = (if at_end \<and> 0 < plen then HEX_ERR_LINE else err)
        in if HEX_ERR_NONE \<le> err_code then
             let n = min SPM_PAGESIZE plen
             in (n, err_code, take n F @ replicate (SPM_PAGESIZE - n) 0xFF,
                 L\<lparr>pend := P, fif := drop n F\<rparr>)
           else (0, err_code, replicate SPM_PAGESIZE 0xFF, L\<lparr>pend := P, fif := F\<rparr>))"

lemma collect_progress:
  "collect err plen P F = (at_end, e, plen', P', F') \<Longrightarrow>
   length P' \<le> length P \<and> (plen' \<noteq> plen \<longrightarrow> length P' < length P)"
proof (induction err plen P F arbitrary: at_end e plen' P' F' rule: collect.induct)
  case (1 err plen P F)
  obtain n line rest where sc: "scan_line [] P = (n, line, rest)"
    by (cases "scan_line [] P") auto
  show ?case
  proof (cases "n = 0")
    case True
    with 1(3) sc show ?thesis by (auto simp: collect.simps [of err plen P F])
  next
    case False
    then have less: "length rest < length P" using sc by (auto dest: scan_line_progress)
    show ?thesis
      using 1(3) False sc less 1(1) [OF sc [symmetric]] 1(2) [OF sc [symmetric]]
      by (fastforce simp: collect.simps [of err plen P F] split: if_splits hex_line.splits)
  qed
qed

lemma load_page_progress:
  "load_page L = (n, e, page, L') \<Longrightarrow> 0 < n \<Longrightarrow> length (pend L') < length (pend L)"
  by (auto simp: load_page_def Let_def split: prod.splits if_splits dest: collect_progress)

function load_loop :: "loader \<Rightarrow> int \<times> loader" where
  "load_loop L =
     (case load_page L of (n, err_code, page, L1) \<Rightarrow>
        if 0 < n then
          if waddr L1 = 0 \<and> \<not> validImage page then (- 1, L1)
          else
            let L2 = L1\<lparr>lflash := flash_page (waddr L1) page (lflash L1)\<rparr>
            in if err_code = HEX_FILE_END then (1, L2)
               else load_loop (L2\<lparr>waddr := waddr L2 + of_nat n\<rparr>)
        else if err_code = HEX_ERR_LINE \<or> err_code = HEX_ERR_EMPTY then (0, L1)
        else (- 2, L1))"
  by pat_completeness auto
termination
  by (relation "measure (\<lambda>L. length (pend L))") (auto dest: load_page_progress [OF sym])

declare load_loop.simps [simp del]

definition load_package :: "u8 list \<Rightarrow> loader \<Rightarrow> int \<times> loader" where
  "load_package package L = load_loop (L\<lparr>pend := pend L @ package\<rparr>)"

end
