(* ===== verification/Ihex_Refine.thy ===== *)
theory Ihex_Refine
  imports Ihex_Spec
begin

text \<open>
  The code of \<^verbatim>\<open>ihex.c\<close> implements the abstract loader: every operation on the circular
  buffers acts on the lists they represent as the specification says, the loops return,
  and the whole package processing computes \<^verbatim>\<open>load_package\<close>.
\<close>

section \<open>Representation\<close>

interpretation rb: ring_index RING_BUFFER_LEN
  by unfold_locales (simp add: RING_BUFFER_LEN_num)

interpretation pf: ring_index PAGE_FIFO_LEN
  by unfold_locales (simp add: PAGE_FIFO_LEN_def SPM_PAGESIZE_def)

definition ihex_wf :: "ihex \<Rightarrow> bool" where
  "ihex_wf s \<longleftrightarrow> length (g_ring_buffer s) = RING_BUFFER_LEN
     \<and> unat (g_buffer_head s) < RING_BUFFER_LEN \<and> unat (g_buffer_trail s) < RING_BUFFER_LEN
     \<and> length (g_page_fifo s) = PAGE_FIFO_LEN"

definition unread :: "ihex \<Rightarrow> u8 list" where
  "unread s = ring_slice RING_BUFFER_LEN (g_ring_buffer s) (unat (g_read_trail s)) (unat (g_buffer_head s))"

definition pending :: "ihex \<Rightarrow> u8 list" where
  "pending s = ring_slice RING_BUFFER_LEN (g_ring_buffer s) (unat (g_buffer_trail s)) (unat (g_buffer_head s))"

definition fifo :: "ihex \<Rightarrow> u8 list" where
  "fifo s = ring_slice PAGE_FIFO_LEN (g_page_fifo s) (unat (g_fifo_trail s)) (unat (g_fifo_head s))"

definition loader_of :: "ihex \<Rightarrow> loader" where
  "loader_of s = \<lparr>pend = pending s, fif = fifo s, waddr = g_writeAddr s, lflash = ih_flash s\<rparr>"

lemmas repr_defs = unread_def pending_def fifo_def

lemma unat_ring_inc:
  "unat i < RING_BUFFER_LEN \<Longrightarrow> unat (ring_inc i) = Suc (unat i) mod RING_BUFFER_LEN"
proof -
  assume a: "unat i < RING_BUFFER_LEN"
  then have "unat (i + 1) = unat i + 1"
    by (simp add: unat_word_ariths RING_BUFFER_LEN_num)
  with a rb.ring_next [OF a] show ?thesis by (auto simp: ring_inc_def)
qed

lemma unat_ring_inc_less [simp]: "unat (ring_inc i) < RING_BUFFER_LEN"
  by (auto simp: ring_inc_def RING_BUFFER_LEN_num not_le)

lemma fifo_index_less [simp]: "unat (i :: u8) < PAGE_FIFO_LEN"
  using unsigned_less [of i, where ?'a = nat] by (simp add: PAGE_FIFO_LEN_def SPM_PAGESIZE_def)

lemma unat_fifo_inc:
  "unat (i + 1 :: u8) = Suc (unat i) mod PAGE_FIFO_LEN"
  "unat (of_nat (Suc (unat i) mod PAGE_FIFO_LEN) :: u8) = Suc (unat i) mod PAGE_FIFO_LEN"
  by (simp_all add: PAGE_FIFO_LEN_def SPM_PAGESIZE_def unat_word_ariths unat_of_nat)

section \<open>The text buffer\<close>

lemma push_back_refine [refine]:
  assumes "ihex_wf s" "length (pending s) + length ds < RING_BUFFER_LEN"
  shows "ihex_wf (ihex_push_back ds s) \<and> pending (ihex_push_back ds s) = pending s @ ds
     \<and> fifo (ihex_push_back ds s) = fifo s
     \<and> g_writeAddr (ihex_push_back ds s) = g_writeAddr s
     \<and> ih_flash (ihex_push_back ds s) = ih_flash s"
  using assms
proof (induction ds arbitrary: s)
  case Nil
  then show ?case by simp
next
  case (Cons d ds)
  let ?s = "s\<lparr>g_ring_buffer := (g_ring_buffer s)[unat (g_buffer_head s) := d],
              g_buffer_head := ring_inc (g_buffer_head s)\<rparr>"
  have wf: "ihex_wf ?s" using Cons.prems(1) by (simp add: ihex_wf_def)
  have pend: "pending ?s = pending s @ [d]"
    using Cons.prems unfolding ihex_wf_def pending_def
    by (simp add: unat_ring_inc rb.ring_slice_snoc)
  have "length (pending ?s) + length ds < RING_BUFFER_LEN"
    using Cons.prems(2) pend by simp
  from Cons.IH [OF wf this] pend show ?case by (simp add: fifo_def)
qed

lemma unread_step:
  assumes "ihex_wf s" "unat (g_read_trail s) < RING_BUFFER_LEN" "g_read_trail s \<noteq> g_buffer_head s"
  shows "unread s = g_ring_buffer s ! unat (g_read_trail s)
           # unread (s\<lparr>g_read_trail := ring_inc (g_read_trail s)\<rparr>)"
proof -
  have "unat (g_read_trail s) \<noteq> unat (g_buffer_head s)" using assms(3) by (simp add: word_unat_eq_iff)
  then show ?thesis
    using assms unfolding unread_def ihex_wf_def
    by (simp add: unat_ring_inc rb.ring_slice_Cons)
qed

lemma unread_Nil_iff:
  assumes "ihex_wf s" "unat (g_read_trail s) < RING_BUFFER_LEN"
  shows "unread s = [] \<longleftrightarrow> g_read_trail s = g_buffer_head s"
  using assms by (simp add: unread_def ihex_wf_def rb.ring_slice_Nil_iff word_unat_eq_iff)

text \<open>The reading loop returns, and finds the line that the list of unread bytes starts with.\<close>

lemma get_line_loop_refine:
  assumes "unread s = cs" "ihex_wf s" "unat (g_read_trail s) < RING_BUFFER_LEN"
  shows "\<exists>r. get_line_loop line s =
       Some (fst (scan_line line cs), fst (snd (scan_line line cs)), s\<lparr>g_read_trail := r\<rparr>)
     \<and> unat r < RING_BUFFER_LEN \<and> unread (s\<lparr>g_read_trail := r\<rparr>) = snd (snd (scan_line line cs))"
  using assms
proof (induction cs arbitrary: line s)
  case Nil
  then have "g_read_trail s = g_buffer_head s" using unread_Nil_iff [of s] by simp
  then have "get_line_loop line s = Some (of_nat (length line), line, s)"
    by (simp add: get_line_loop.simps [of line s])
  with Nil show ?case by (intro exI [of _ "g_read_trail s"]) simp
next
  case (Cons c cs)
  let ?r = "ring_inc (g_read_trail s)"
  let ?s = "s\<lparr>g_read_trail := ?r\<rparr>"
  have ne: "g_read_trail s \<noteq> g_buffer_head s"
    using Cons.prems unread_Nil_iff [of s] by auto
  then have c: "g_ring_buffer s ! unat (g_read_trail s) = c" and cs: "unread ?s = cs"
    using Cons.prems unread_step [of s] by auto
  have wf: "ihex_wf ?s" "unat (g_read_trail ?s) < RING_BUFFER_LEN"
    using Cons.prems by (simp_all add: ihex_wf_def)
  have unf: "get_line_loop line s =
      (if 0x30 \<le> c \<and> c \<le> 0x66 then
         (if HEX_LINE_MAX_LEN \<le> length line + 1 then Some (HEX_READ_LINE_ERR, line @ [c], ?s)
          else get_line_loop (line @ [c]) ?s)
       else if c = 0x0A then
         (if line \<noteq> [] then Some (of_nat (length line), line, ?s) else get_line_loop line ?s)
       else if c = 0x0D then get_line_loop line ?s
       else Some (HEX_READ_LINE_ERR, line, ?s))"
    using ne c by (simp add: get_line_loop.simps [of line s] Let_def)
  have "(\<exists>m l'. scan_line line (c # cs) = (m, l', cs) \<and> get_line_loop line s = Some (m, l', ?s))
     \<or> (\<exists>line'. scan_line line (c # cs) = scan_line line' cs
             \<and> get_line_loop line s = get_line_loop line' ?s)"
    unfolding unf
    by (cases "0x30 \<le> c \<and> c \<le> 0x66"; cases "HEX_LINE_MAX_LEN \<le> length line + 1"; cases "c = 0x0A";
        cases "c = 0x0D"; cases "line = []") auto
  then show ?case
  proof (elim disjE exE conjE)
    fix m l' assume "scan_line line (c # cs) = (m, l', cs)" "get_line_loop line s = Some (m, l', ?s)"
    with cs show ?thesis by (intro exI [of _ ?r]) simp
  next
    fix line' assume "scan_line line (c # cs) = scan_line line' cs" "get_line_loop line s = get_line_loop line' ?s"
    with Cons.IH [OF cs wf, of line'] show ?thesis by simp
  qed
qed

lemma ihex_get_line_refine [refine]:
  assumes "scan_line [] (unread s) = (n, l, rest)" "ihex_wf s" "unat (g_read_trail s) < RING_BUFFER_LEN"
  obtains r where "ihex_get_line s = Some (n, l, s\<lparr>g_read_trail := r\<rparr>)"
    "unat r < RING_BUFFER_LEN" "unread (s\<lparr>g_read_trail := r\<rparr>) = rest"
  using get_line_loop_refine [OF refl assms(2,3), of "[]"] assms(1)
  unfolding ihex_get_line_def by auto

section \<open>The page buffer\<close>

lemma fifo_push_refine:
  assumes "ihex_wf s" "length (fifo s) < PAGE_FIFO_LEN - 1"
  shows "fifo (fifo_push d s) = fifo s @ [d]"
  using assms unfolding ihex_wf_def fifo_def fifo_push_def
  by (simp add: unat_fifo_inc pf.ring_slice_snoc)

lemma fifo_push_frame [simp]:
  "pending (fifo_push d s) = pending s" "unread (fifo_push d s) = unread s"
  "ihex_wf (fifo_push d s) = ihex_wf s"
  "g_writeAddr (fifo_push d s) = g_writeAddr s" "ih_flash (fifo_push d s) = ih_flash s"
  "g_read_trail (fifo_push d s) = g_read_trail s" "g_buffer_trail (fifo_push d s) = g_buffer_trail s"
  by (simp_all add: fifo_push_def pending_def unread_def ihex_wf_def)

lemma fold_push_frame [simp]:
  "pending (fold fifo_push ds s) = pending s" "unread (fold fifo_push ds s) = unread s"
  "ihex_wf (fold fifo_push ds s) = ihex_wf s"
  "g_writeAddr (fold fifo_push ds s) = g_writeAddr s" "ih_flash (fold fifo_push ds s) = ih_flash s"
  "g_read_trail (fold fifo_push ds s) = g_read_trail s"
  "g_buffer_trail (fold fifo_push ds s) = g_buffer_trail s"
  by (induction ds arbitrary: s) simp_all

lemma fold_push_refine [refine]:
  assumes "ihex_wf s" "length (fifo s) + length ds < PAGE_FIFO_LEN"
  shows "fifo (fold fifo_push ds s) = fifo s @ ds"
  using assms by (induction ds arbitrary: s) (simp_all add: fifo_push_refine)

lemma line_data_fold:
  "line_data n j line c s =
     (let ds = map (\<lambda>i. ascii2bin (line ! (j + 2 * i)) (line ! (j + 2 * i + 1))) [0..<n]
      in (fold fifo_push ds s, c + sum_list ds, j + 2 * n))"
proof (induction n arbitrary: j c s)
  case 0
  show ?case by simp
next
  case (Suc n)
  show ?case
    unfolding upt_conv_Cons [OF zero_less_Suc] map_Suc_upt [symmetric]
    by (simp add: Suc Let_def comp_def add.assoc del: upt_Suc map_Suc_upt)
qed

lemma length_fifo: "length (fifo s) = unat (g_fifo_head s - g_fifo_trail s)"
proof -
  have "(unat (g_fifo_head s) + PAGE_FIFO_LEN - unat (g_fifo_trail s)) mod PAGE_FIFO_LEN
      = unat (g_fifo_head s - g_fifo_trail s)"
    unfolding pf.ring_dist [OF fifo_index_less fifo_index_less]
    by (simp add: unat_sub_if' PAGE_FIFO_LEN_def SPM_PAGESIZE_def)
  then show ?thesis by (simp add: fifo_def ring_slice_def)
qed

lemma page_copy_refine [refine]:
  assumes "ihex_wf s" "n \<le> length (fifo s)" "i + n \<le> length page"
  obtains t where "page_copy n i page s
      = (take i page @ take n (fifo s) @ drop (i + n) page, s\<lparr>g_fifo_trail := t\<rparr>)"
    "fifo (s\<lparr>g_fifo_trail := t\<rparr>) = drop n (fifo s)"
proof -
  have "\<exists>t. page_copy n i page s
      = (take i page @ take n (fifo s) @ drop (i + n) page, s\<lparr>g_fifo_trail := t\<rparr>)
    \<and> fifo (s\<lparr>g_fifo_trail := t\<rparr>) = drop n (fifo s)"
    using assms
  proof (induction n arbitrary: i page s)
    case 0
    then show ?case by (intro exI [of _ "g_fifo_trail s"]) simp
  next
    case (Suc n)
    let ?s = "s\<lparr>g_fifo_trail := of_nat (unat (g_fifo_trail s + 1) mod PAGE_FIFO_LEN)\<rparr>"
    let ?x = "g_page_fifo s ! unat (g_fifo_trail s)"
    from Suc.prems have "fifo s \<noteq> []" by auto
    then have step: "fifo s = ?x # fifo ?s"
      unfolding fifo_def
      by (simp add: unat_fifo_inc pf.ring_slice_Nil_iff pf.ring_slice_Cons)
    have "ihex_wf ?s" using Suc.prems by (simp add: ihex_wf_def)
    moreover have "n \<le> length (fifo ?s)" using Suc.prems step by (metis Suc_le_mono length_Cons)
    moreover have "i + 1 + n \<le> length (page[i := ?x])" using Suc.prems by simp
    ultimately obtain t where
      t: "page_copy n (i + 1) (page[i := ?x]) ?s
         = (take (i + 1) (page[i := ?x]) @ take n (fifo ?s) @ drop (i + 1 + n) (page[i := ?x]),
            ?s\<lparr>g_fifo_trail := t\<rparr>)"
      "fifo (?s\<lparr>g_fifo_trail := t\<rparr>) = drop n (fifo ?s)"
      using Suc.IH by blast
    have "take (i + 1) (page[i := ?x]) = take i page @ [?x]"
      using Suc.prems by (simp add: take_Suc_conv_app_nth)
    with t show ?case
      by (intro exI [of _ t]) (subst (1 2) step, simp)
  qed
  then show ?thesis using that by blast
qed

section \<open>Pages\<close>

lemma get_page_loop_stop:
  assumes "ihex_get_line s = Some (n, line, s1)"
  shows "n = 0 \<Longrightarrow> get_page_loop err pl s = Some (n, err, pl, s1)"
    and "n = HEX_READ_LINE_ERR \<Longrightarrow> get_page_loop err pl s = Some (n, HEX_ERR_FORMAT, pl, s1)"
  by (simp_all add: get_page_loop.simps [of err pl s] assms HEX_LINE_MAX_LEN_def)

lemma get_page_loop_step:
  assumes "ihex_get_line s = Some (n, line, s1)" "n = of_nat (length line)"
    and "line \<noteq> []" "length line < HEX_LINE_MAX_LEN"
  shows "get_page_loop err pl s =
    (let s2 = ihex_line_take s1 in
     case decode_line line of
       Malformed \<Rightarrow> Some (n, HEX_ERR_FORMAT, pl, s1)
     | Incomplete \<Rightarrow> Some (n, HEX_ERR_LINE, pl, s1)
     | Data_Line ok bytes \<Rightarrow>
         let s3 = fold fifo_push bytes s2; pl' = g_fifo_head s3 - g_fifo_trail s3
         in if \<not> ok then Some (n, HEX_ERR_CHECK, pl, s3)
            else if SPM_PAGESIZE \<le> unat pl' then Some (n, HEX_ERR_NONE, pl', s3)
            else get_page_loop HEX_ERR_NONE pl' s3
     | End_Line \<Rightarrow> Some (n, HEX_FILE_END, pl, s2)
     | Other_Line \<Rightarrow> get_page_loop HEX_ERR_NONE pl s2)"
proof -
  have n: "unat n = length line"
    using assms by (simp add: unat_of_nat HEX_LINE_MAX_LEN_def)
  with assms(3) have "n \<noteq> 0" by auto
  with n assms show ?thesis
    by (simp add: get_page_loop.simps [of err pl s] decode_line_def line_data_fold line_bytes_def
        Let_def add.assoc [symmetric])
qed

lemma decode_line_bytes:
  "decode_line line = Data_Line ok bytes \<Longrightarrow> length line = 2 * length bytes + 11"
  by (auto simp: decode_line_def line_bytes_def Let_def split: if_splits)

lemma take_refine:
  assumes "ihex_wf s" "unat (g_read_trail s) < RING_BUFFER_LEN"
  shows "ihex_wf (ihex_line_take s)" "pending (ihex_line_take s) = unread s"
    "fifo (ihex_line_take s) = fifo s"
    "g_read_trail (ihex_line_take s) = g_buffer_trail (ihex_line_take s)"
    "g_writeAddr (ihex_line_take s) = g_writeAddr s" "ih_flash (ihex_line_take s) = ih_flash s"
  using assms by (simp_all add: ihex_line_take_def ihex_wf_def pending_def unread_def fifo_def)

text \<open>
  What the loop over the lines leaves: \<open>(at_end, e, plen, P, F)\<close> is the abstract result that
  the concrete one represents.
\<close>

definition page_result :: "ihex \<Rightarrow> bool \<times> int \<times> nat \<times> u8 list \<times> u8 list
    \<Rightarrow> (u8 \<times> int \<times> u8 \<times> ihex) option \<Rightarrow> bool" where
  "page_result s a c \<longleftrightarrow> (case a of (at_end, e, plen, P, F) \<Rightarrow>
     \<exists>n pl s'. c = Some (n, e, pl, s') \<and> (n = 0 \<longleftrightarrow> at_end) \<and> unat pl = plen \<and> ihex_wf s'
       \<and> pending s' = P \<and> fifo s' = F \<and> g_writeAddr s' = g_writeAddr s \<and> ih_flash s' = ih_flash s)"

lemma page_resultI:
  "ihex_wf s' \<Longrightarrow> (n = 0 \<longleftrightarrow> at_end) \<Longrightarrow> g_writeAddr s' = g_writeAddr s \<Longrightarrow> ih_flash s' = ih_flash s
   \<Longrightarrow> page_result s (at_end, e, unat pl, pending s', fifo s') (Some (n, e, pl, s'))"
  by (auto simp: page_result_def)

lemma page_result_trans:
  "page_result s' a c \<Longrightarrow> g_writeAddr s' = g_writeAddr s \<Longrightarrow> ih_flash s' = ih_flash s \<Longrightarrow> page_result s a c"
  by (auto simp: page_result_def)

lemma get_page_loop_refine:
  assumes "ihex_wf s" "g_read_trail s = g_buffer_trail s" "length (fifo s) < SPM_PAGESIZE" "unat pl = plen"
  shows "page_result s (collect err plen (pending s) (fifo s)) (get_page_loop err pl s)"
  using assms
proof (induction "length (pending s)" arbitrary: s err pl plen rule: less_induct)
  case less
  have un: "unread s = pending s" using less.prems by (simp add: unread_def pending_def)
  have tr: "unat (g_read_trail s) < RING_BUFFER_LEN" using less.prems by (simp add: ihex_wf_def)
  obtain n line rest where sc: "scan_line [] (pending s) = (n, line, rest)"
    by (cases "scan_line [] (pending s)") auto
  obtain r where g: "ihex_get_line s = Some (n, line, s\<lparr>g_read_trail := r\<rparr>)"
    and r: "unat r < RING_BUFFER_LEN" "unread (s\<lparr>g_read_trail := r\<rparr>) = rest"
    using ihex_get_line_refine [of s, unfolded un, OF sc less.prems(1) tr] by blast
  let ?s1 = "s\<lparr>g_read_trail := r\<rparr>"
  let ?s2 = "ihex_line_take ?s1"
  have s1: "ihex_wf ?s1" "pending ?s1 = pending s" "fifo ?s1 = fifo s"
    using less.prems by (simp_all add: ihex_wf_def pending_def fifo_def)
  note s2 = take_refine [of ?s1, simplified, OF s1(1) r(1), unfolded r(2) s1(3)]
  note stop1 = page_resultI [OF s1(1), of n _ s _ pl, unfolded s1(2,3), simplified]
  consider (zero) "n = 0" | (bad) "n = HEX_READ_LINE_ERR"
    | (line) "n \<noteq> 0" "n \<noteq> HEX_READ_LINE_ERR" "n = of_nat (length line)" "length line < HEX_LINE_MAX_LEN"
    using scan_line_line [OF sc] by (auto simp: HEX_LINE_MAX_LEN_def)
  then show ?case
  proof cases
    case zero
    with stop1 [of True err] get_page_loop_stop(1) [OF g] less.prems(4) show ?thesis
      by (simp add: collect.simps [of err plen] sc)
  next
    case bad
    with stop1 [of False HEX_ERR_FORMAT] get_page_loop_stop(2) [OF g] less.prems(4) show ?thesis
      by (simp add: collect.simps [of err plen] sc)
  next
    case line
    then have ne: "line \<noteq> []" by auto
    have shorter: "length rest < length (pending s)" using scan_line_progress [OF sc refl line(1)] .
    note step = get_page_loop_step [OF g line(3) ne line(4), of err pl]
    show ?thesis
    proof (cases "decode_line line")
      case Malformed
      with stop1 [of False HEX_ERR_FORMAT] line less.prems(4) show ?thesis
        by (simp add: step collect.simps [of err plen] sc)
    next
      case Incomplete
      with stop1 [of False HEX_ERR_LINE] line less.prems(4) show ?thesis
        by (simp add: step collect.simps [of err plen] sc)
    next
      case (Data_Line ok bytes)
      let ?s3 = "fold fifo_push bytes ?s2"
      have "length bytes \<le> 34"
        using decode_line_bytes [OF Data_Line] line(4) by (simp add: HEX_LINE_MAX_LEN_def)
      then have f3: "fifo ?s3 = fifo s @ bytes"
        using fold_push_refine [OF s2(1), of bytes] s2(3) less.prems(3) by (simp add: ihex_consts)
      have pl3: "unat (g_fifo_head ?s3 - g_fifo_trail ?s3) = length (fifo s @ bytes)"
        by (metis f3 length_fifo)
      have fr: "g_writeAddr ?s3 = g_writeAddr s" "ih_flash ?s3 = ih_flash s" "ihex_wf ?s3"
        "pending ?s3 = rest" "g_read_trail ?s3 = g_buffer_trail ?s3"
        using s2 by simp_all
      show ?thesis
      proof (cases "ok \<and> \<not> SPM_PAGESIZE \<le> length (fifo s @ bytes)")
        case True
        have "page_result ?s3 (collect HEX_ERR_NONE (length (fifo s @ bytes)) rest (fifo s @ bytes))
            (get_page_loop HEX_ERR_NONE (g_fifo_head ?s3 - g_fifo_trail ?s3) ?s3)"
          using less.hyps [of ?s3 _ _ HEX_ERR_NONE, OF _ fr(3,5) _ pl3] shorter True
          unfolding fr(4) f3 by simp
        from page_result_trans [OF this fr(1,2)] True Data_Line line pl3 show ?thesis
          by (simp add: step collect.simps [of err plen] sc Let_def)
      next
        case False
        then show ?thesis
          using Data_Line line less.prems(4) f3 pl3 fr
          by (auto simp: step collect.simps [of err plen] sc Let_def page_result_def)
      qed
    next
      case End_Line
      with page_resultI [of ?s2 n False s HEX_FILE_END pl] s2 line less.prems(4) show ?thesis
        by (simp add: step collect.simps [of err plen] sc)
    next
      case Other_Line
      have "page_result ?s2 (collect HEX_ERR_NONE plen rest (fifo s)) (get_page_loop HEX_ERR_NONE pl ?s2)"
        using less.hyps [of ?s2 pl plen HEX_ERR_NONE] shorter s2 less.prems(3,4) by simp
      then have "page_result s (collect HEX_ERR_NONE plen rest (fifo s)) (get_page_loop HEX_ERR_NONE pl ?s2)"
        using s2 by (auto elim: page_result_trans)
      with Other_Line line show ?thesis
        by (simp add: step collect.simps [of err plen] sc)
    qed
  qed
qed

text \<open>
  The bytes announced for the page are in the buffer, and the buffer never holds a full
  page when a page is asked for: only a refused checksum can leave more behind.
\<close>

lemma collect_fifo:
  "collect err plen P F = (at_end, e, plen', P', F') \<Longrightarrow> plen \<le> length F \<Longrightarrow> length F < SPM_PAGESIZE \<Longrightarrow>
   plen' \<le> length F' \<and>
   (length F' < SPM_PAGESIZE \<or> e = HEX_ERR_CHECK \<and> \<not> at_end
     \<or> e = HEX_ERR_NONE \<and> \<not> at_end \<and> plen' = length F' \<and> length F' < 2 * SPM_PAGESIZE)"
proof (induction err plen P F arbitrary: at_end e plen' P' F' rule: collect.induct)
  case (1 err plen P F)
  obtain n line rest where sc: "scan_line [] P = (n, line, rest)"
    by (cases "scan_line [] P") auto
  show ?case
  proof (cases "n = 0 \<or> n = HEX_READ_LINE_ERR")
    case True
    with 1(3-) sc show ?thesis by (auto simp: collect.simps [of err plen P F] split: if_splits)
  next
    case False
    then have len: "length line < HEX_LINE_MAX_LEN"
      using scan_line_line [OF sc] by (auto simp: HEX_LINE_MAX_LEN_def)
    show ?thesis
    proof (cases "decode_line line")
      case (Data_Line ok bytes)
      have "length bytes \<le> 34"
        using decode_line_bytes [OF Data_Line] len by (simp add: HEX_LINE_MAX_LEN_def)
      then show ?thesis
        using 1(1) [OF sc [symmetric] refl, of ok bytes] 1(3-) False Data_Line
        by (auto simp: collect.simps [of err plen P F] sc SPM_PAGESIZE_def split: if_splits)
    next
      case Other_Line
      then show ?thesis
        using 1(2) [OF sc [symmetric] refl] 1(3-) False
        by (simp add: collect.simps [of err plen P F] sc)
    qed (use 1(3-) False sc in \<open>simp_all add: collect.simps [of err plen P F]\<close>)
  qed
qed

lemma load_page_fif [inv_rules]:
  assumes "load_page L = (n, e, page, L')" "length (fif L) < SPM_PAGESIZE" "e \<noteq> HEX_ERR_CHECK"
  shows "length (fif L') < SPM_PAGESIZE"
proof -
  obtain at_end e1 plen P F where c: "collect HEX_ERR_EMPTY 0 (pend L) (fif L) = (at_end, e1, plen, P, F)"
    by (cases "collect HEX_ERR_EMPTY 0 (pend L) (fif L)") auto
  from collect_fifo [OF c] assms show ?thesis
    by (auto simp: load_page_def c Let_def min_def split: if_splits)
qed

lemma ihex_get_page_refine [refine]:
  assumes "ihex_wf s" "length (fifo s) < SPM_PAGESIZE"
    and "load_page (loader_of s) = (n, e, page, L')"
  obtains s' where "ihex_get_page (replicate SPM_PAGESIZE 0xFF) s = Some (of_nat n, e, page, s')"
    "ihex_wf s'" "loader_of s' = L'" "n \<le> SPM_PAGESIZE"
proof -
  let ?s0 = "s\<lparr>g_read_trail := g_buffer_trail s\<rparr>"
  have s0: "ihex_wf ?s0" "pending ?s0 = pending s" "fifo ?s0 = fifo s"
    using assms(1) by (simp_all add: ihex_wf_def pending_def fifo_def)
  obtain at_end e1 plen P F where c: "collect HEX_ERR_EMPTY 0 (pending s) (fifo s) = (at_end, e1, plen, P, F)"
    by (cases "collect HEX_ERR_EMPTY 0 (pending s) (fifo s)") auto
  have le: "plen \<le> length F" using collect_fifo [OF c] assms(2) by simp
  have "page_result ?s0 (at_end, e1, plen, P, F) (get_page_loop HEX_ERR_EMPTY 0 ?s0)"
    using get_page_loop_refine [of ?s0 0 0 HEX_ERR_EMPTY] s0 assms(2) c by simp
  then obtain m pl s1 where g: "get_page_loop HEX_ERR_EMPTY 0 ?s0 = Some (m, e1, pl, s1)"
    and m: "m = 0 \<longleftrightarrow> at_end" and pl: "unat pl = plen" and s1: "ihex_wf s1"
    "pending s1 = P" "fifo s1 = F" "g_writeAddr s1 = g_writeAddr s" "ih_flash s1 = ih_flash s"
    by (auto simp: page_result_def)
  have pos: "0 < pl \<longleftrightarrow> 0 < plen" using pl by (metis word_gt_0 unat_eq_0 neq0_conv)
  let ?n = "min SPM_PAGESIZE plen"
  obtain t where t: "page_copy ?n 0 (replicate SPM_PAGESIZE 0xFF) s1
      = (take ?n F @ replicate (SPM_PAGESIZE - ?n) 0xFF, s1\<lparr>g_fifo_trail := t\<rparr>)"
    "fifo (s1\<lparr>g_fifo_trail := t\<rparr>) = drop ?n F"
    using page_copy_refine [of s1 ?n 0 "replicate SPM_PAGESIZE 0xFF"] s1 le
    by (auto simp: min_le_iff_disj)
  have n: "(if SPM_PAGESIZE < unat pl then SPM_PAGESIZE else unat pl) = ?n"
    using pl by (simp add: min_def)
  have s2: "ihex_wf (s1\<lparr>g_fifo_trail := t\<rparr>)" "pending (s1\<lparr>g_fifo_trail := t\<rparr>) = P"
    using s1 by (simp_all add: ihex_wf_def pending_def)
  let ?e = "if at_end \<and> 0 < plen then HEX_ERR_LINE else e1"
  have call: "ihex_get_page (replicate SPM_PAGESIZE 0xFF) s
     = (if HEX_ERR_NONE \<le> ?e then Some (of_nat ?n, ?e, take ?n F @ replicate (SPM_PAGESIZE - ?n) 0xFF,
          s1\<lparr>g_fifo_trail := t\<rparr>)
        else Some (0, ?e, replicate SPM_PAGESIZE 0xFF, s1))"
    by (simp only: ihex_get_page_def g bind.bind_lunit split_conv m pos n t(1) Let_def)
  have lp: "load_page (loader_of s) =
     (if HEX_ERR_NONE \<le> ?e then (?n, ?e, take ?n F @ replicate (SPM_PAGESIZE - ?n) 0xFF,
          loader_of (s1\<lparr>g_fifo_trail := t\<rparr>))
      else (0, ?e, replicate SPM_PAGESIZE 0xFF, loader_of s1))"
    using c s1 s2(2) t(2) by (simp add: load_page_def loader_of_def Let_def)
  show ?thesis
  proof (cases "HEX_ERR_NONE \<le> ?e")
    case True
    with call lp assms(3) s2(1) show ?thesis by (intro that) auto
  next
    case False
    with call lp assms(3) s1(1) show ?thesis by (intro that) auto
  qed
qed

section \<open>Packages\<close>

lemma package_loop_refine:
  assumes "ihex_wf s" "length (fifo s) < SPM_PAGESIZE"
  shows "\<exists>s'. package_loop s = Some (fst (load_loop (loader_of s)), s')
     \<and> ihex_wf s' \<and> loader_of s' = snd (load_loop (loader_of s))"
  using assms
proof (induction "length (pending s)" arbitrary: s rule: less_induct)
  case less
  obtain n e page L' where lp: "load_page (loader_of s) = (n, e, page, L')"
    by (cases "load_page (loader_of s)") auto
  obtain s1 where g: "ihex_get_page (replicate SPM_PAGESIZE 0xFF) s = Some (of_nat n, e, page, s1)"
    and s1: "ihex_wf s1" "loader_of s1 = L'" and n: "n \<le> SPM_PAGESIZE"
    using ihex_get_page_refine [OF less.prems lp] by blast
  have L': "waddr L' = g_writeAddr s1" "lflash L' = ih_flash s1" "pend L' = pending s1" "fif L' = fifo s1"
    using s1(2) by (auto simp: loader_of_def)
  have un: "unat (of_nat n :: u8) = n" using n by (simp add: unat_of_nat SPM_PAGESIZE_def)
  then have pos: "0 < (of_nat n :: u8) \<longleftrightarrow> 0 < n" by (simp add: word_less_nat_alt)
  have uc: "ucast (of_nat n :: u8) = (of_nat n :: u16)"
    using n by (simp add: word_unat_eq_iff unsigned_ucast_eq un unat_of_nat take_bit_eq_mod SPM_PAGESIZE_def)
  let ?s3 = "s1\<lparr>ih_flash := flash_page (g_writeAddr s1) page (ih_flash s1),
                 g_writeAddr := g_writeAddr s1 + of_nat n\<rparr>"
  have s3: "ihex_wf ?s3" "pending ?s3 = pending s1" "fifo ?s3 = fifo s1"
    "loader_of ?s3 = L'\<lparr>lflash := flash_page (waddr L') page (lflash L'), waddr := waddr L' + of_nat n\<rparr>"
    using s1 by (auto simp: ihex_wf_def pending_def fifo_def loader_of_def)
  show ?case
  proof (cases "0 < n \<and> \<not> (waddr L' = 0 \<and> \<not> validImage page) \<and> e \<noteq> HEX_FILE_END")
    case True
    have "e \<noteq> HEX_ERR_CHECK" using lp True by (auto simp: load_page_def Let_def split: prod.splits if_splits)
    then have "length (fifo ?s3) < SPM_PAGESIZE"
      using load_page_fif [OF lp] less.prems L' s3 by (simp add: loader_of_def)
    moreover have "length (pending ?s3) < length (pending s)"
      using load_page_progress [OF lp] True L' s3 by (simp add: loader_of_def)
    moreover have "package_loop s = package_loop ?s3"
      using True g pos uc L' by (auto simp: package_loop.simps [of s])
    moreover have "load_loop (loader_of s) = load_loop (loader_of ?s3)"
      using True lp by (auto simp: load_loop.simps [of "loader_of s"] s3(4))
    ultimately show ?thesis using less.hyps [OF _ s3(1)] by simp
  next
    case False
    then consider (none) "n = 0" | (invalid) "0 < n" "waddr L' = 0" "\<not> validImage page"
      | (final) "0 < n" "\<not> (waddr L' = 0 \<and> \<not> validImage page)" "e = HEX_FILE_END"
      by blast
    then show ?thesis
    proof cases
      case none
      then have "package_loop s = Some (if e = HEX_ERR_LINE \<or> e = HEX_ERR_EMPTY then 0 else - 2, s1)"
        using g pos by (simp add: package_loop.simps [of s])
      with none s1 lp show ?thesis by (simp add: load_loop.simps [of "loader_of s"])
    next
      case invalid
      then have "package_loop s = Some (- 1, s1)" using g pos L' by (simp add: package_loop.simps [of s])
      with invalid s1 lp show ?thesis by (simp add: load_loop.simps [of "loader_of s"])
    next
      case final
      let ?s2 = "s1\<lparr>ih_flash := flash_page (g_writeAddr s1) page (ih_flash s1)\<rparr>"
      have "package_loop s = Some (1, ?s2)"
        using final g pos L' by (auto simp: package_loop.simps [of s])
      moreover have "load_loop (loader_of s) = (1, L'\<lparr>lflash := flash_page (waddr L') page (lflash L')\<rparr>)"
        using final lp by (auto simp: load_loop.simps [of "loader_of s"])
      moreover have "loader_of ?s2 = L'\<lparr>lflash := flash_page (waddr L') page (lflash L')\<rparr>" "ihex_wf ?s2"
        using s1 by (auto simp: loader_of_def pending_def fifo_def ihex_wf_def)
      ultimately show ?thesis by simp
    qed
  qed
qed

lemma loader_push:
  assumes "ihex_wf s" "length (pending s) + length package < RING_BUFFER_LEN"
  shows "loader_of (ihex_push_back package s) = (loader_of s)\<lparr>pend := pend (loader_of s) @ package\<rparr>"
  using push_back_refine [OF assms] by (simp add: loader_of_def)

lemma package_process_refine:
  assumes "ihex_wf s" "length (fifo s) < SPM_PAGESIZE"
    and "length (pending s) + length package < RING_BUFFER_LEN"
  shows "\<exists>s'. ihex_package_process package s = Some (fst (load_package package (loader_of s)), s')
     \<and> ihex_wf s' \<and> loader_of s' = snd (load_package package (loader_of s))"
  using package_loop_refine [of "ihex_push_back package s"] push_back_refine [OF assms(1,3)] assms(2)
  by (simp add: ihex_package_process_def load_package_def loader_push [OF assms(1,3)])

text \<open>
  C1. Refinement of the whole loader. In a well-formed state whose page buffer holds less
  than a page, and when the package fits into the text buffer, the code returns, its status
  is the one of the abstract loader, and the state it leaves is well-formed and represents
  the abstract result: text, pending bytes, write address and flash.
\<close>

theorem ihex_package_process_refines:
  assumes "ihex_wf s" "length (fifo s) < SPM_PAGESIZE"
    and "length (pending s) + length package < RING_BUFFER_LEN"
  shows "\<exists>s'. ihex_package_process package s = Some (fst (load_package package (loader_of s)), s')
     \<and> ihex_wf s' \<and> loader_of s' = snd (load_package package (loader_of s))"
  using assms by (rule package_process_refine)

lemma ihex_start_refine:
  "ihex_wf (ihex_start f)" "fifo (ihex_start f) = []" "pending (ihex_start f) = []"
  "loader_of (ihex_start f) = \<lparr>pend = [], fif = [], waddr = 0, lflash = f\<rparr>"
  by (simp_all add: ihex_wf_def loader_of_def fifo_def pending_def ihex_start_def ihex_init_def
      ring_slice_def RING_BUFFER_LEN_num)

theorem ihex_package_process_refines_witness:
  "\<exists>s'. ihex_package_process [0x3A] (ihex_start blank_flash)
      = Some (fst (load_package [0x3A] \<lparr>pend = [], fif = [], waddr = 0, lflash = blank_flash\<rparr>), s')
    \<and> ihex_wf s' \<and> pending s' = [0x3A]"
proof -
  let ?L = "\<lparr>pend = [], fif = [], waddr = 0, lflash = blank_flash\<rparr>"
  have "pend (snd (load_package [0x3A] ?L)) = [0x3A]"
    by (simp add: load_package_def load_loop.simps load_page_def collect.simps decode_line_def Let_def)
  moreover have "pending s' = pend (loader_of s')" for s' by (simp add: loader_of_def)
  ultimately show ?thesis
    using ihex_package_process_refines [of "ihex_start blank_flash" "[0x3A]"]
    by (auto simp: ihex_start_refine SPM_PAGESIZE_def RING_BUFFER_LEN_num)
qed

end
