(* ===== verification/Ihex_File.thy ===== *)
theory Ihex_File
  imports Ihex_Refine
begin

text \<open>
  Intel HEX files and what the loader makes of them: how a file is written, that a record
  is read back as it was written, and that a file that arrives in packages of any split
  ends up in the flash byte for byte.
\<close>

section \<open>Writing records\<close>

definition hex_digit :: "u8 \<Rightarrow> u8" where
  "hex_digit d = (if d < 10 then d + 0x30 else d - 10 + 0x41)"

definition hex_byte :: "u8 \<Rightarrow> u8 list" where
  "hex_byte b = [hex_digit (drop_bit 4 b), hex_digit (b AND 0x0F)]"

definition record_fields :: "u8 \<Rightarrow> u16 \<Rightarrow> u8 list \<Rightarrow> u8 list" where
  "record_fields type addr bytes =
     (let fs = [of_nat (length bytes), ucast (drop_bit 8 addr), ucast addr, type] @ bytes
      in fs @ [- sum_list fs])"

definition hex_record :: "u8 \<Rightarrow> u16 \<Rightarrow> u8 list \<Rightarrow> u8 list" where
  "hex_record type addr bytes = 0x3A # concat (map hex_byte (record_fields type addr bytes))"

abbreviation crlf :: "u8 list" where "crlf \<equiv> [0x0D, 0x0A]"

text \<open>A file: its data records (address and bytes), then the end record.\<close>

definition data_lines :: "(u16 \<times> u8 list) list \<Rightarrow> u8 list" where
  "data_lines recs = concat (map (\<lambda>(a, bytes). hex_record 0 a bytes @ crlf) recs)"

definition end_record :: "u8 list" where
  "end_record = hex_record 1 0 []"

definition hex_file :: "(u16 \<times> u8 list) list \<Rightarrow> u8 list" where
  "hex_file recs = data_lines recs @ end_record @ crlf"

section \<open>Reading them back\<close>

lemma xtod_hex_digit:
  assumes "d < 16"
  shows "xtod (hex_digit d) = d \<and> 0x30 \<le> hex_digit d \<and> hex_digit d \<le> 0x66"
proof -
  have "unat d < 16" using assms by (simp add: word_less_nat_alt)
  then have "d \<in> of_nat ` {0..<16}" by (intro image_eqI [of _ _ "unat d"]) simp_all
  then have "d \<in> set (map of_nat [0..<16])" by simp
  moreover have "\<forall>d \<in> set (map of_nat [0..<16]).
      xtod (hex_digit d) = d \<and> 0x30 \<le> hex_digit d \<and> hex_digit d \<le> 0x66"
    by code_simp
  ultimately show ?thesis by blast
qed

lemma nibbles:
  "drop_bit 4 (b :: u8) < 16" "b AND 0x0F < 16" "push_bit 4 (drop_bit 4 b) OR (b AND 0x0F) = b"
proof -
  have "unat (drop_bit 4 b) < 16"
    using unsigned_less [of b, where ?'a = nat] by (simp add: drop_bit_eq_div unat_div)
  then show "drop_bit 4 b < 16" by (simp add: word_less_nat_alt)
  have "b AND 0x0F \<le> 0x0F" by (rule word_and_le1)
  then show "b AND 0x0F < 16" by (rule order_le_less_trans) simp
  have m: "(0x0F :: u8) = mask 4" by (simp add: mask_eq_exp_minus_1)
  show "push_bit 4 (drop_bit 4 b) OR (b AND 0x0F) = b"
    unfolding m by (rule bit_word_eqI) (auto simp: bit_simps)
qed

lemma ascii2bin_hex_byte:
  "ascii2bin (hex_digit (drop_bit 4 b)) (hex_digit (b AND 0x0F)) = b"
  by (simp add: ascii2bin_def xtod_hex_digit nibbles)

lemma hex_byte_chars: "c \<in> set (hex_byte b) \<Longrightarrow> 0x30 \<le> c \<and> c \<le> 0x66"
  using nibbles(1,2) [of b] by (auto simp: hex_byte_def xtod_hex_digit)

lemma hex_record_chars: "c \<in> set (hex_record t a bs) \<Longrightarrow> 0x30 \<le> c \<and> c \<le> 0x66"
  by (auto simp: hex_record_def dest: hex_byte_chars)

lemma length_hex_bytes: "length (concat (map hex_byte fs)) = 2 * length fs"
  by (induction fs) (simp_all add: hex_byte_def)

lemma length_hex_record: "length (hex_record t a bs) = 2 * length bs + 11"
  by (simp add: hex_record_def length_hex_bytes record_fields_def Let_def hex_byte_def)

lemma nth_hex_bytes:
  "i < length fs \<Longrightarrow> ascii2bin (concat (map hex_byte fs) ! (2 * i)) (concat (map hex_byte fs) ! Suc (2 * i)) = fs ! i"
proof (induction fs arbitrary: i)
  case Nil
  then show ?case by simp
next
  case (Cons f fs)
  then show ?case
    by (cases i) (simp_all add: hex_byte_def ascii2bin_hex_byte)
qed

text \<open>The \<open>i\<close>-th two-digit field of a record.\<close>

lemma hex_record_field:
  assumes "i < length bs + 5" "j = Suc (2 * i)" "k = Suc j"
  shows "ascii2bin (hex_record t a bs ! j) (hex_record t a bs ! k) = record_fields t a bs ! i"
proof -
  have "i < length (record_fields t a bs)" using assms by (simp add: record_fields_def Let_def)
  from nth_hex_bytes [OF this] show ?thesis by (simp add: hex_record_def assms(2,3))
qed

lemma record_fields_nth:
  "record_fields t a bs ! 0 = of_nat (length bs)" "record_fields t a bs ! 1 = ucast (drop_bit 8 a)"
  "record_fields t a bs ! 2 = ucast a" "record_fields t a bs ! 3 = t"
  "i < length bs \<Longrightarrow> record_fields t a bs ! (4 + i) = bs ! i"
  "record_fields t a bs ! (4 + length bs)
     = - (of_nat (length bs) + ucast (drop_bit 8 a) + ucast a + t + sum_list bs)"
  by (simp_all add: record_fields_def Let_def nth_append numeral_2_eq_2 numeral_3_eq_3 add.assoc)

lemma line_bytes_hex_record:
  "line_bytes (length bs) (hex_record t a bs) = bs"
proof (rule nth_equalityI)
  fix i assume "i < length (line_bytes (length bs) (hex_record t a bs))"
  then have i: "i < length bs" by (simp add: line_bytes_def)
  then show "line_bytes (length bs) (hex_record t a bs) ! i = bs ! i"
    using hex_record_field [of "4 + i" bs "9 + 2 * i" "10 + 2 * i" t a]
    by (simp add: line_bytes_def record_fields_nth)
qed (simp add: line_bytes_def)

lemma checksum_cancel: "x + y + z + s + - (x + y + z + t + s) = - (t :: u8)"
  by (simp add: algebra_simps)

text \<open>
  A record is read back as it was written, whatever address it carries: the bytes of a data
  record with a fitting checksum, or the end of the file.
\<close>

lemma decode_hex_record:
  assumes "length bs < 256"
  shows "decode_line (hex_record t a bs) =
    (if t = 0 then Data_Line True bs else if t = 1 then End_Line else Other_Line)"
proof -
  let ?r = "hex_record t a bs"
  have len: "unat (of_nat (length bs) :: u8) = length bs" using assms by (simp add: unat_of_nat)
  have f: "ascii2bin (?r ! Suc 0) (?r ! 2) = of_nat (length bs)"
    "ascii2bin (?r ! 3) (?r ! 4) = ucast (drop_bit 8 a)" "ascii2bin (?r ! 5) (?r ! 6) = ucast a"
    "ascii2bin (?r ! 7) (?r ! 8) = t"
    "ascii2bin (?r ! (9 + 2 * length bs)) (?r ! (10 + 2 * length bs))
       = - (of_nat (length bs) + ucast (drop_bit 8 a) + ucast a + t + sum_list bs)"
    by (rule trans [OF hex_record_field [where i = 0] record_fields_nth(1)]
        trans [OF hex_record_field [where i = 1] record_fields_nth(2)]
        trans [OF hex_record_field [where i = 2] record_fields_nth(3)]
        trans [OF hex_record_field [where i = 3] record_fields_nth(4)]
        trans [OF hex_record_field [where i = "4 + length bs"] record_fields_nth(6)]; simp)+
  have colon: "?r ! 0 = 0x3A" by (simp add: hex_record_def)
  have sum: "of_nat (length bs) + ucast (drop_bit 8 a) + ucast a + sum_list bs
      + - (of_nat (length bs) + ucast (drop_bit 8 a) + ucast a + t + sum_list bs) = - t"
    by (rule checksum_cancel)
  show ?thesis
    unfolding decode_line_def Let_def One_nat_def f len line_bytes_hex_record colon sum length_hex_record
    by simp
qed

text \<open>The proper prefixes of a record are recognised as incomplete.\<close>

lemma decode_prefix:
  assumes "length bs < 256" "hex_record t a bs = p @ q" "p \<noteq> []" "q \<noteq> []"
  shows "decode_line p = Incomplete"
proof -
  let ?r = "hex_record t a bs"
  have nth: "?r ! i = p ! i" if "i < length p" for i using assms(2) that by (simp add: nth_append)
  have colon: "p ! 0 = 0x3A" using nth [of 0] assms(3) by (simp add: hex_record_def)
  have "length ?r = length p + length q" by (simp add: assms(2))
  then have shorter: "length p < 2 * length bs + 11" using assms(4) by (simp add: length_hex_record)
  have "unat (ascii2bin (p ! 1) (p ! 2)) = length bs" if "11 \<le> length p"
    using trans [OF hex_record_field [of 0 bs 1 2 t a] record_fields_nth(1)] that nth [of 1] nth [of 2] assms(1)
    by (simp add: unat_of_nat)
  then show ?thesis
    using shorter colon by (auto simp: decode_line_def Let_def)
qed

lemma scan_line_chars:
  assumes "\<forall>c \<in> set cs. 0x30 \<le> c \<and> c \<le> 0x66" "length line + length cs < HEX_LINE_MAX_LEN"
  shows "scan_line line (cs @ rest) = scan_line (line @ cs) rest"
  using assms by (induction cs arbitrary: line) simp_all

lemma scan_line_record:
  assumes "length bs \<le> 34" "hex_record t a bs = p @ q"
  shows "scan_line [] (p @ rest) = scan_line p rest"
proof -
  have "\<forall>c \<in> set p. 0x30 \<le> c \<and> c \<le> 0x66"
    using hex_record_chars [of _ t a bs] assms(2) by auto
  moreover have "length p < HEX_LINE_MAX_LEN"
    using length_hex_record [of t a bs] assms by (simp add: HEX_LINE_MAX_LEN_def)
  ultimately show ?thesis by (simp add: scan_line_chars)
qed

section \<open>A text that arrives in pieces\<close>

text \<open>
  The loader stands behind the characters of a record; of the line end that follows it, any
  part may still be to come.
\<close>

definition newline_rest :: "u8 list \<Rightarrow> bool" where
  "newline_rest nl \<longleftrightarrow> nl = [] \<or> nl = [0x0A] \<or> nl = crlf"

lemma scan_newlines:
  assumes "newline_rest nl"
  shows "scan_line [] (nl @ x) = scan_line [] x"
  using assms by (auto simp: newline_rest_def)

lemma scan_newline_prefix:
  assumes "newline_rest nl" "nl = p @ q"
  shows "scan_line [] p = (0, [], [])"
  using assms by (auto simp: newline_rest_def append_eq_Cons_conv eq_commute [of _ "p @ q"])

text \<open>The text so far ends inside the next record: nothing is consumed.\<close>

lemma collect_short:
  assumes "P @ fut = nl @ hex_record t a bs @ T" "newline_rest nl" "length bs \<le> 34"
    and "length P < length nl + length (hex_record t a bs)"
  shows "collect err plen P F = (True, err, plen, P, F)
       \<or> collect err plen P F = (False, HEX_ERR_LINE, plen, P, F)"
proof (cases "length P \<le> length nl")
  case True
  then obtain q where "nl = P @ q"
    using assms(1) by (auto simp: append_eq_append_conv2)
  from scan_newline_prefix [OF assms(2) this] show ?thesis
    by (simp add: collect.simps [of err plen P F])
next
  case False
  then obtain p where P: "P = nl @ p" and pf: "p @ fut = hex_record t a bs @ T"
    using append_eq_prefix [OF assms(1)] by auto
  from False P have pne: "p \<noteq> []" by auto
  from assms(4) P have "length p < length (hex_record t a bs)" by simp
  then obtain q where q: "hex_record t a bs = p @ q" "q \<noteq> []"
    using append_eq_prefix [OF pf [symmetric]] by (metis append_Nil2 less_imp_le nat_neq_iff)
  have "length p < HEX_LINE_MAX_LEN"
    using \<open>length p < length (hex_record t a bs)\<close> assms(3)
    by (simp add: length_hex_record HEX_LINE_MAX_LEN_def)
  then have "unat (of_nat (length p) :: u8) = length p" "length p \<noteq> 255"
    by (simp_all add: unat_of_nat HEX_LINE_MAX_LEN_def)
  then have "(of_nat (length p) :: u8) \<noteq> 0" "(of_nat (length p) :: u8) \<noteq> 0xFF"
    using pne by (auto simp: word_unat_eq_iff)
  moreover have "scan_line [] P = (of_nat (length p), p, [])"
    using scan_line_record [OF assms(3) q(1), of "[]"] by (simp add: P scan_newlines [OF assms(2)])
  moreover have "decode_line p = Incomplete"
    using decode_prefix [OF _ q(1) pne q(2)] assms(3) by simp
  ultimately show ?thesis by (simp add: collect.simps [of err plen P F])
qed

text \<open>The next record is complete: it is the next line, and the text goes on behind it.\<close>

lemma scan_record:
  assumes "P @ fut = nl @ hex_record t a bs @ crlf @ T" "newline_rest nl" "length bs \<le> 34"
    and "length nl + length (hex_record t a bs) \<le> length P"
  obtains P' nl' where "newline_rest nl'" "P' @ fut = nl' @ T" "length P' < length P"
    "scan_line [] P = (of_nat (length (hex_record t a bs)), hex_record t a bs, P')"
proof -
  let ?r = "hex_record t a bs"
  have rne: "?r \<noteq> []" by (simp add: hex_record_def)
  obtain p where P: "P = nl @ ?r @ p" and pf: "p @ fut = crlf @ T"
    using append_eq_prefix [of P fut "nl @ ?r" "crlf @ T"] assms(1,4) by auto
  have sc: "scan_line [] P = scan_line ?r p"
    unfolding P scan_newlines [OF assms(2)] using scan_line_record [OF assms(3), of t a ?r "[]" p] by simp
  have "(p = [] \<and> fut = crlf @ T) \<or> (p = [0x0D] \<and> fut = 0x0A # T) \<or> (\<exists>x. p = crlf @ x \<and> x @ fut = T)"
    using pf by (auto simp: append_eq_Cons_conv Cons_eq_append_conv)
  then show ?thesis
  proof (elim disjE exE conjE)
    assume "p = []" "fut = crlf @ T"
    with sc P rne show ?thesis by (intro that [of crlf "[]"]) (auto simp: newline_rest_def)
  next
    assume "p = [0x0D]" "fut = 0x0A # T"
    with sc P rne show ?thesis by (intro that [of "[0x0A]" "[]"]) (auto simp: newline_rest_def)
  next
    fix x assume "p = crlf @ x" "x @ fut = T"
    with sc P rne show ?thesis by (intro that [of "[]" x]) (auto simp: newline_rest_def)
  qed
qed

lemma hex_record_length_word:
  assumes "length bs \<le> 34"
  shows "(of_nat (length (hex_record t a bs)) :: u8) \<noteq> 0"
    "(of_nat (length (hex_record t a bs)) :: u8) \<noteq> 0xFF"
proof -
  from assms have "unat (of_nat (length (hex_record t a bs)) :: u8) = length (hex_record t a bs)"
    unfolding length_hex_record by (intro unat_of_nat_u8) simp
  with assms show "(of_nat (length (hex_record t a bs)) :: u8) \<noteq> 0"
    "(of_nat (length (hex_record t a bs)) :: u8) \<noteq> 0xFF"
    by (auto simp: word_unat_eq_iff length_hex_record)
qed

end
