(* ===== verification/Ihex_Stream.thy ===== *)
theory Ihex_Stream
  imports Ihex_File Ihex_Refine
begin

text \<open>
  The loader on a whole hex file that arrives cut into packages.
\<close>

section \<open>Programming the pages\<close>

text \<open>
  What the loader does with the decoded bytes: every full page goes to the flash, the rest
  waits. The result is the next write address, the waiting bytes and the flash.
\<close>

function burn :: "u16 \<Rightarrow> u8 list \<Rightarrow> flash \<Rightarrow> u16 \<times> u8 list \<times> flash" where
  "burn a bs f =
     (if SPM_PAGESIZE \<le> length bs
      then burn (a + of_nat SPM_PAGESIZE) (drop SPM_PAGESIZE bs) (flash_page a (take SPM_PAGESIZE bs) f)
      else (a, bs, f))"
  by pat_completeness auto
termination
  by (relation "measure (\<lambda>(a, bs, f). length bs)") (auto simp: SPM_PAGESIZE_def)

declare burn.simps [simp del]

lemma burn_short: "length bs < SPM_PAGESIZE \<Longrightarrow> burn a bs f = (a, bs, f)"
  by (simp add: burn.simps)

lemma burn_full:
  "SPM_PAGESIZE \<le> length bs \<Longrightarrow> burn a bs f =
   burn (a + of_nat SPM_PAGESIZE) (drop SPM_PAGESIZE bs) (flash_page a (take SPM_PAGESIZE bs) f)"
  by (simp add: burn.simps)

lemma burn_append:
  "burn a (bs @ cs) f = (case burn a bs f of (a', r, f') \<Rightarrow> burn a' (r @ cs) f')"
proof (induction a bs f rule: burn.induct)
  case (1 a bs f)
  show ?case
  proof (cases "SPM_PAGESIZE \<le> length bs")
    case True
    then have "burn a (bs @ cs) f =
        burn (a + of_nat SPM_PAGESIZE) (drop SPM_PAGESIZE bs @ cs) (flash_page a (take SPM_PAGESIZE bs) f)"
      by (subst burn_full) simp_all
    then show ?thesis using 1 [OF True] by (simp only: burn_full [OF True])
  next
    case False
    then show ?thesis by (simp add: burn_short)
  qed
qed

text \<open>
  The rest of the loop of \<^verbatim>\<open>load_loop\<close> when the lines read so far have left the error code
  \<open>err\<close> and \<open>plen\<close> bytes for the page.
\<close>

definition resume :: "int \<Rightarrow> nat \<Rightarrow> u8 list \<Rightarrow> u8 list \<Rightarrow> u16 \<Rightarrow> flash \<Rightarrow> int \<times> loader" where
  "resume err plen P F a f =
     (case collect err plen P F of (at_end, e, plen', P', F') \<Rightarrow>
        let err_code = (if at_end \<and> 0 < plen' then HEX_ERR_LINE else e);
            n = (if HEX_ERR_NONE \<le> err_code then min SPM_PAGESIZE plen' else 0);
            page = take n F' @ replicate (SPM_PAGESIZE - n) 0xFF
        in if 0 < n then
             if a = 0 \<and> \<not> validImage page then (- 1, \<lparr>pend = P', fif = drop n F', waddr = a, lflash = f\<rparr>)
             else if err_code = HEX_FILE_END
                  then (1, \<lparr>pend = P', fif = drop n F', waddr = a, lflash = flash_page a page f\<rparr>)
                  else load_loop \<lparr>pend = P', fif = drop n F', waddr = a + of_nat n, lflash = flash_page a page f\<rparr>
           else if err_code = HEX_ERR_LINE \<or> err_code = HEX_ERR_EMPTY
                then (0, \<lparr>pend = P', fif = F', waddr = a, lflash = f\<rparr>)
                else (- 2, \<lparr>pend = P', fif = F', waddr = a, lflash = f\<rparr>))"

lemma load_loop_resume:
  "load_loop \<lparr>pend = P, fif = F, waddr = a, lflash = f\<rparr> = resume HEX_ERR_EMPTY 0 P F a f"
proof -
  obtain at_end e n P' F' where "collect HEX_ERR_EMPTY 0 P F = (at_end, e, n, P', F')"
    by (cases "collect HEX_ERR_EMPTY 0 P F") auto
  then show ?thesis
    by (simp add: load_loop.simps [of "\<lparr>pend = P, fif = F, waddr = a, lflash = f\<rparr>"]
        load_page_def resume_def Let_def)
qed

text \<open>The values of \<open>err\<close> and \<open>plen\<close> between two lines.\<close>

definition between_lines :: "int \<Rightarrow> nat \<Rightarrow> u8 list \<Rightarrow> bool" where
  "between_lines err plen F \<longleftrightarrow>
     err = HEX_ERR_EMPTY \<and> plen = 0 \<or> err = HEX_ERR_NONE \<and> plen = length F \<and> F \<noteq> []"

lemma between_lines_start: "between_lines HEX_ERR_EMPTY 0 F"
  by (simp add: between_lines_def)

lemma resume_short:
  assumes "P @ fut = nl @ hex_record t b bs @ T" "newline_rest nl" "length bs \<le> 34"
    and "length P < length nl + length (hex_record t b bs)" "between_lines err plen F"
  shows "resume err plen P F a f = (0, \<lparr>pend = P, fif = F, waddr = a, lflash = f\<rparr>)"
  using collect_short [OF assms(1-4), of err plen F] assms(5)
  by (auto simp: resume_def between_lines_def)

lemma resume_data:
  assumes "P @ fut = nl @ hex_record 0 b bs @ crlf @ T" "newline_rest nl" "length bs \<le> 34"
    and "length nl + length (hex_record 0 b bs) \<le> length P" "length F < SPM_PAGESIZE"
    and "SPM_PAGESIZE \<le> length (F @ bs) \<Longrightarrow> a = 0 \<Longrightarrow> validImage (take SPM_PAGESIZE (F @ bs))"
  obtains P' nl' where "newline_rest nl'" "P' @ fut = nl' @ T"
    "resume err plen P F a f =
       (if SPM_PAGESIZE \<le> length (F @ bs)
        then resume HEX_ERR_EMPTY 0 P' (drop SPM_PAGESIZE (F @ bs)) (a + of_nat SPM_PAGESIZE)
               (flash_page a (take SPM_PAGESIZE (F @ bs)) f)
        else resume HEX_ERR_NONE (length (F @ bs)) P' (F @ bs) a f)"
proof -
  obtain P' nl' where nl': "newline_rest nl'" "P' @ fut = nl' @ T"
    and sc: "scan_line [] P = (of_nat (length (hex_record 0 b bs)), hex_record 0 b bs, P')"
    using scan_record [OF assms(1-4)] by blast
  have dec: "decode_line (hex_record 0 b bs) = Data_Line True bs"
    using decode_hex_record [of bs 0 b] assms(3) by simp
  have c: "collect err plen P F =
     (if SPM_PAGESIZE \<le> length (F @ bs) then (False, HEX_ERR_NONE, length (F @ bs), P', F @ bs)
      else collect HEX_ERR_NONE (length (F @ bs)) P' (F @ bs))"
    using hex_record_length_word [OF assms(3), of 0 b]
    by (simp add: collect.simps [of err plen P F] sc dec)
  have "resume err plen P F a f =
       (if SPM_PAGESIZE \<le> length (F @ bs)
        then resume HEX_ERR_EMPTY 0 P' (drop SPM_PAGESIZE (F @ bs)) (a + of_nat SPM_PAGESIZE)
               (flash_page a (take SPM_PAGESIZE (F @ bs)) f)
        else resume HEX_ERR_NONE (length (F @ bs)) P' (F @ bs) a f)"
  proof (cases "SPM_PAGESIZE \<le> length (F @ bs)")
    case True
    then have m: "min SPM_PAGESIZE (length (F @ bs)) = SPM_PAGESIZE" "0 < SPM_PAGESIZE"
      by (simp_all add: min_def SPM_PAGESIZE_def)
    show ?thesis
      unfolding resume_def [of err] c
      using True assms(6) [OF True] m by (auto simp: Let_def load_loop_resume)
  next
    case False
    then show ?thesis unfolding resume_def c by simp
  qed
  then show ?thesis using nl' that by blast
qed

text \<open>The end record closes the file; what waits for a page is padded and programmed.\<close>

lemma resume_end:
  assumes "P @ fut = nl @ end_record @ crlf @ T" "newline_rest nl"
    and "length nl + length end_record \<le> length P" "length F < SPM_PAGESIZE"
  shows "F \<noteq> [] \<Longrightarrow> plen = length F \<Longrightarrow>
      a = 0 \<longrightarrow> validImage (F @ replicate (SPM_PAGESIZE - length F) 0xFF) \<Longrightarrow>
      \<exists>L'. resume err plen P F a f = (1, L')
        \<and> lflash L' = flash_page a (F @ replicate (SPM_PAGESIZE - length F) 0xFF) f"
    and "plen = 0 \<Longrightarrow> \<exists>L'. resume err plen P F a f = (- 2, L') \<and> lflash L' = f"
proof -
  obtain P' where sc: "scan_line [] P = (of_nat (length end_record), end_record, P')"
    using scan_record [OF assms(1) [unfolded end_record_def] assms(2)] assms(3)
    by (auto simp: end_record_def)
  have dec: "decode_line end_record = End_Line"
    using decode_hex_record [of "[]" 1 0] by (simp add: end_record_def)
  have c: "collect err plen P F = (False, HEX_FILE_END, plen, P', F)" for plen
    using hex_record_length_word [of "[]" 1 0]
    by (simp add: collect.simps [of err plen P F] sc dec end_record_def [symmetric])
  show "plen = 0 \<Longrightarrow> \<exists>L'. resume err plen P F a f = (- 2, L') \<and> lflash L' = f"
    unfolding resume_def c by simp
  show "F \<noteq> [] \<Longrightarrow> plen = length F \<Longrightarrow>
      a = 0 \<longrightarrow> validImage (F @ replicate (SPM_PAGESIZE - length F) 0xFF) \<Longrightarrow>
      \<exists>L'. resume err plen P F a f = (1, L')
        \<and> lflash L' = flash_page a (F @ replicate (SPM_PAGESIZE - length F) 0xFF) f"
    using assms(4) unfolding resume_def c by (auto simp: Let_def)
qed

abbreviation record_bytes :: "(u16 \<times> u8 list) list \<Rightarrow> u8 list" where
  "record_bytes recs \<equiv> concat (map snd recs)"

lemma page_step:
  assumes "unat (a :: u16) + n < 65536" "SPM_PAGESIZE \<le> n"
  shows "unat (a + of_nat SPM_PAGESIZE) = unat a + SPM_PAGESIZE" "a + of_nat SPM_PAGESIZE \<noteq> 0"
proof -
  show *: "unat (a + of_nat SPM_PAGESIZE) = unat a + SPM_PAGESIZE"
    using assms by (simp add: unat_word_ariths SPM_PAGESIZE_def)
  then show "a + of_nat SPM_PAGESIZE \<noteq> 0"
    by (metis SPM_PAGESIZE_def add_is_0 unat_0 zero_neq_numeral)
qed

text \<open>
  The loop over the records of which the text is there. It stops behind the last complete
  one, with all pages of the bytes it has read programmed.
\<close>

definition takes_records :: "u8 list \<Rightarrow> u8 list \<Rightarrow> (u16 \<times> u8 list) list \<Rightarrow> int \<Rightarrow> nat \<Rightarrow> u8 list \<Rightarrow> u8 list \<Rightarrow> u16 \<Rightarrow> flash \<Rightarrow> bool" where
  "takes_records fut T recs err plen P F a f \<longleftrightarrow> (\<exists>taken rest nl' P' a' F' f' err' plen'. recs = taken @ rest
     \<and> burn a (F @ record_bytes taken) f = (a', F', f') \<and> newline_rest nl'
     \<and> P' @ fut = nl' @ data_lines rest @ T \<and> between_lines err' plen' F'
     \<and> resume err plen P F a f = resume err' plen' P' F' a' f'
     \<and> (rest \<noteq> [] \<longrightarrow> length P' < length nl' + length (hex_record 0 (fst (hd rest)) (snd (hd rest)))))"

lemma takes_nothing:
  assumes "P @ fut = nl @ data_lines recs @ T" "newline_rest nl" "between_lines err plen F" "length F < SPM_PAGESIZE"
    and "recs \<noteq> [] \<longrightarrow> length P < length nl + length (hex_record 0 (fst (hd recs)) (snd (hd recs)))"
  shows "takes_records fut T recs err plen P F a f"
  using assms unfolding takes_records_def
  by (intro exI [of _ "[]"] exI [of _ recs] exI [of _ nl] exI [of _ P] exI [of _ a]
      exI [of _ F] exI [of _ f] exI [of _ err] exI [of _ plen]) (simp add: burn_short)

text \<open>One more record, which completes a page or does not.\<close>

lemma takes_page:
  assumes "takes_records fut T recs HEX_ERR_EMPTY 0 P' (drop SPM_PAGESIZE (F @ bs)) (a + of_nat SPM_PAGESIZE)
      (flash_page a (take SPM_PAGESIZE (F @ bs)) f)"
    and "SPM_PAGESIZE \<le> length (F @ bs)"
    and "resume err plen P F a f = resume HEX_ERR_EMPTY 0 P' (drop SPM_PAGESIZE (F @ bs)) (a + of_nat SPM_PAGESIZE)
      (flash_page a (take SPM_PAGESIZE (F @ bs)) f)"
  shows "takes_records fut T ((b, bs) # recs) err plen P F a f"
proof -
  obtain taken rest nl2 P2 a2 F2 f2 err2 plen2 where
    ih: "recs = taken @ rest"
      "burn (a + of_nat SPM_PAGESIZE) (drop SPM_PAGESIZE (F @ bs) @ record_bytes taken)
         (flash_page a (take SPM_PAGESIZE (F @ bs)) f) = (a2, F2, f2)"
      "newline_rest nl2" "P2 @ fut = nl2 @ data_lines rest @ T" "between_lines err2 plen2 F2"
      "resume err plen P F a f = resume err2 plen2 P2 F2 a2 f2"
      "rest \<noteq> [] \<longrightarrow> length P2 < length nl2 + length (hex_record 0 (fst (hd rest)) (snd (hd rest)))"
    using assms(1) unfolding takes_records_def assms(3) by metis
  have "burn a (F @ record_bytes ((b, bs) # taken)) f = (a2, F2, f2)"
    using ih(2) assms(2) by (subst burn_full) simp_all
  with ih show ?thesis unfolding takes_records_def
    by (intro exI [of _ "(b, bs) # taken"] exI [of _ rest] exI [of _ nl2] exI [of _ P2] exI [of _ a2]
        exI [of _ F2] exI [of _ f2] exI [of _ err2] exI [of _ plen2]) simp
qed

lemma takes_more:
  assumes "takes_records fut T recs err' plen' P' (F @ bs) a f" "resume err plen P F a f = resume err' plen' P' (F @ bs) a f"
  shows "takes_records fut T ((b, bs) # recs) err plen P F a f"
proof -
  obtain taken rest nl2 P2 a2 F2 f2 err2 plen2 where
    ih: "recs = taken @ rest" "burn a ((F @ bs) @ record_bytes taken) f = (a2, F2, f2)"
      "newline_rest nl2" "P2 @ fut = nl2 @ data_lines rest @ T" "between_lines err2 plen2 F2"
      "resume err plen P F a f = resume err2 plen2 P2 F2 a2 f2"
      "rest \<noteq> [] \<longrightarrow> length P2 < length nl2 + length (hex_record 0 (fst (hd rest)) (snd (hd rest)))"
    using assms(1) unfolding takes_records_def assms(2) by metis
  then show ?thesis unfolding takes_records_def
    by (intro exI [of _ "(b, bs) # taken"] exI [of _ rest] exI [of _ nl2] exI [of _ P2] exI [of _ a2]
        exI [of _ F2] exI [of _ f2] exI [of _ err2] exI [of _ plen2]) simp
qed

lemma resume_records:
  assumes "P @ fut = nl @ data_lines recs @ T" "newline_rest nl"
    and "\<forall>(b, bs) \<in> set recs. bs \<noteq> [] \<and> length bs \<le> 34"
    and "between_lines err plen F" "length F < SPM_PAGESIZE"
    and "unat a + length (F @ record_bytes recs) < 65536"
    and "SPM_PAGESIZE \<le> length (F @ record_bytes recs) \<longrightarrow> a = 0 \<longrightarrow>
         validImage (take SPM_PAGESIZE (F @ record_bytes recs))"
  shows "takes_records fut T recs err plen P F a f"
  using assms
proof (induction recs arbitrary: P nl err plen F a f)
  case Nil
  then show ?case by (intro takes_nothing) simp_all
next
  case (Cons r recs P nl err plen F a f)
  obtain b bs where r: "r = (b, bs)" by (cases r)
  show ?case
  proof (cases "length P < length nl + length (hex_record 0 b bs)")
    case True
    then show ?thesis using Cons.prems r by (intro takes_nothing) simp_all
  next
    case False
    have line: "P @ fut = nl @ hex_record 0 b bs @ crlf @ data_lines recs @ T"
      using Cons.prems(1) by (simp add: r data_lines_def)
    have size: "length bs \<le> 34" "length nl + length (hex_record 0 b bs) \<le> length P"
      using Cons.prems(3) False r by auto
    have recs: "\<forall>(b, bs) \<in> set recs. bs \<noteq> [] \<and> length bs \<le> 34" using Cons.prems(3) by simp
    have image: "validImage (take SPM_PAGESIZE (F @ bs))" if "SPM_PAGESIZE \<le> length (F @ bs)" "a = 0"
      using Cons.prems(7) that r by simp
    obtain P' nl' where P': "newline_rest nl'" "P' @ fut = nl' @ data_lines recs @ T"
      and step: "resume err plen P F a f =
       (if SPM_PAGESIZE \<le> length (F @ bs)
        then resume HEX_ERR_EMPTY 0 P' (drop SPM_PAGESIZE (F @ bs)) (a + of_nat SPM_PAGESIZE)
               (flash_page a (take SPM_PAGESIZE (F @ bs)) f)
        else resume HEX_ERR_NONE (length (F @ bs)) P' (F @ bs) a f)"
      by (rule resume_data [where err = err and plen = plen and f = f,
            OF line Cons.prems(2) size Cons.prems(5) image])
    show ?thesis
    proof (cases "SPM_PAGESIZE \<le> length (F @ bs)")
      case True
      have a': "unat (a + of_nat SPM_PAGESIZE) = unat a + SPM_PAGESIZE" "a + of_nat SPM_PAGESIZE \<noteq> 0"
        using page_step [of a "length (F @ record_bytes (r # recs))"] Cons.prems(6) True by (simp_all add: r)
      have l: "length (drop SPM_PAGESIZE (F @ bs)) < SPM_PAGESIZE" using Cons.prems(5) size(1) by (simp add: SPM_PAGESIZE_def)
      show ?thesis unfolding r
      proof (rule takes_page [where f = f, OF Cons.IH [OF P'(2,1) recs _ l] True])
        show "unat (a + of_nat SPM_PAGESIZE) + length (drop SPM_PAGESIZE (F @ bs) @ record_bytes recs) < 65536"
          using Cons.prems(6) a'(1) True by (simp add: r)
      qed (use step True a'(2) in \<open>simp_all add: between_lines_def\<close>)
    next
      case False
      then have l: "length (F @ bs) < SPM_PAGESIZE" by simp
      show ?thesis unfolding r
        by (rule takes_more [OF Cons.IH [OF P'(2,1) recs _ l]])
           (use step False Cons.prems(3,6,7) r in \<open>auto simp: between_lines_def\<close>)
    qed
  qed
qed

section \<open>What the flash holds\<close>

lemma fill_loop_fold:
  "fill_loop n (2 * k) a p f =
   fold (\<lambda>i. boot_page_fill (a + 2 * of_nat i) (le_word (p ! (2 * i)) (p ! (2 * i + 1)))) [k..<k + n] f"
proof (induction n arbitrary: k f)
  case 0
  show ?case by simp
next
  case (Suc n)
  have "fill_loop (Suc n) (2 * k) a p f =
      fill_loop n (2 * Suc k) a p (boot_page_fill (a + 2 * of_nat k) (le_word (p ! (2 * k)) (p ! (2 * k + 1))) f)"
    by (simp add: algebra_simps)
  also have "\<dots> = fold (\<lambda>i. boot_page_fill (a + 2 * of_nat i) (le_word (p ! (2 * i)) (p ! (2 * i + 1))))
      [k..<k + Suc n] f"
    using upt_conv_Cons [of k "k + Suc n"] unfolding Suc.IH by (simp del: upt_Suc)
  finally show ?case .
qed

lemma flash_page_mem:
  assumes "unat a mod SPM_PAGESIZE = 0" "length p = SPM_PAGESIZE"
  shows "flash_mem (flash_page a p f) x = (if same_page x a then p ! (unat x mod SPM_PAGESIZE) else flash_mem f x)"
  by (rule fl.program_page_bytes [OF assms])
    (use fill_loop_fold [of 64 0] in \<open>simp add: flash_page_def SPM_PAGESIZE_def\<close>)

lemma flash_page_ready [simp]: "\<not> rww_busy (flash_page a p f)"
  by (simp add: flash_page_def boot_rww_enable_def)

lemma burn_bounds:
  "burn a bs f = (a', r, f') \<Longrightarrow> unat a + length bs < 65536 \<Longrightarrow>
   length r < SPM_PAGESIZE \<and> unat a \<le> unat a' \<and> unat a' + length r = unat a + length bs
   \<and> r = drop (unat a' - unat a) bs \<and> (unat a' - unat a) mod SPM_PAGESIZE = 0"
proof (induction a bs f rule: burn.induct)
  case (1 a bs f)
  show ?case
  proof (cases "SPM_PAGESIZE \<le> length bs")
    case True
    note a1 = page_step(1) [OF 1(3) True]
    from 1(2) True have "burn (a + of_nat SPM_PAGESIZE) (drop SPM_PAGESIZE bs) (flash_page a (take SPM_PAGESIZE bs) f)
        = (a', r, f')" by (simp only: burn_full)
    from 1(1) [OF True this] a1 True 1(3)
    have *: "length r < SPM_PAGESIZE" "unat a + SPM_PAGESIZE \<le> unat a'"
      "unat a' + length r = unat a + length bs"
      "r = drop (unat a' - (unat a + SPM_PAGESIZE)) (drop SPM_PAGESIZE bs)"
      "(unat a' - (unat a + SPM_PAGESIZE)) mod SPM_PAGESIZE = 0"
      by auto
    from *(2) have d: "unat a' - unat a = unat a' - (unat a + SPM_PAGESIZE) + SPM_PAGESIZE" by simp
    have "(unat a' - unat a) mod SPM_PAGESIZE = 0" unfolding d using *(5) by simp
    moreover have "r = drop (unat a' - unat a) bs" using *(4) d by (simp add: add.commute)
    ultimately show ?thesis using * by simp
  next
    case False
    with 1(2) show ?thesis by (simp add: burn_short)
  qed
qed

lemma same_page_range:
  assumes "unat a mod SPM_PAGESIZE = 0"
  shows "same_page x a \<longleftrightarrow> unat a \<le> unat x \<and> unat x < unat a + SPM_PAGESIZE"
proof -
  obtain q where q: "unat a = 128 * q" using assms by (auto simp: SPM_PAGESIZE_def)
  show ?thesis unfolding same_page_def SPM_PAGESIZE_def q by auto
qed

lemma page_offset:
  assumes "unat a mod SPM_PAGESIZE = 0" "same_page x a"
  shows "unat x mod SPM_PAGESIZE = unat x - unat a"
proof -
  obtain q where q: "unat a = 128 * q" using assms by (auto simp: SPM_PAGESIZE_def)
  then have "unat x div 128 = q" using assms(2) by (simp add: same_page_def SPM_PAGESIZE_def)
  then show ?thesis unfolding q SPM_PAGESIZE_def by (simp add: minus_mult_div_eq_mod [symmetric])
qed

lemma burn_mem:
  "burn a bs f = (a', r, f') \<Longrightarrow> unat a + length bs < 65536 \<Longrightarrow> unat a mod SPM_PAGESIZE = 0 \<Longrightarrow>
   flash_mem f' x = (if unat a \<le> unat x \<and> unat x < unat a' then bs ! (unat x - unat a) else flash_mem f x)"
proof (induction a bs f rule: burn.induct)
  case (1 a bs f)
  show ?case
  proof (cases "SPM_PAGESIZE \<le> length bs")
    case True
    let ?p = "take SPM_PAGESIZE bs" and ?a = "a + of_nat SPM_PAGESIZE"
    note a1 = page_step(1) [OF 1(3) True]
    from 1(2) True have b: "burn ?a (drop SPM_PAGESIZE bs) (flash_page a ?p f) = (a', r, f')"
      by (simp only: burn_full)
    have bound: "unat ?a + length (drop SPM_PAGESIZE bs) < 65536" using a1 1(3) True by simp
    have lo: "unat a + SPM_PAGESIZE \<le> unat a'" using burn_bounds [OF b bound] a1 by simp
    have "flash_mem f' x = (if unat a + SPM_PAGESIZE \<le> unat x \<and> unat x < unat a'
        then drop SPM_PAGESIZE bs ! (unat x - (unat a + SPM_PAGESIZE)) else flash_mem (flash_page a ?p f) x)"
      using 1(1) [OF True b bound] 1(4) a1 by simp
    moreover have "flash_mem (flash_page a ?p f) x =
        (if unat a \<le> unat x \<and> unat x < unat a + SPM_PAGESIZE then bs ! (unat x - unat a) else flash_mem f x)"
      using True page_offset [OF 1(4), of x]
      by (auto simp: flash_page_mem [OF 1(4)] same_page_range [OF 1(4)])
    ultimately show ?thesis using lo True by auto
  next
    case False
    with 1(2) show ?thesis by (auto simp: burn_short)
  qed
qed

section \<open>A file in packages\<close>

text \<open>
  The loader in the middle of a file: the complete records are in the flash or wait for
  their page, the rest of the text is pending or still to come.
\<close>

definition midway :: "(u16 \<times> u8 list) list \<Rightarrow> u8 list \<Rightarrow> u8 list \<Rightarrow> flash \<Rightarrow> loader \<Rightarrow> bool" where
  "midway recs junk fut f L \<longleftrightarrow> (\<exists>taken rest nl. recs = taken @ rest \<and> newline_rest nl
     \<and> pend L @ fut = nl @ data_lines rest @ end_record @ crlf @ junk
     \<and> burn 0 (record_bytes taken) f = (waddr L, fif L, lflash L))"

definition loadable :: "(u16 \<times> u8 list) list \<Rightarrow> bool" where
  "loadable recs \<longleftrightarrow> (\<forall>(b, bs) \<in> set recs. bs \<noteq> [] \<and> length bs \<le> 33)
     \<and> length (record_bytes recs) < 65536
     \<and> validImage (take SPM_PAGESIZE (record_bytes recs @ replicate SPM_PAGESIZE 0xFF))"

lemma load_package_resume:
  "load_package p L = resume HEX_ERR_EMPTY 0 (pend L @ p) (fif L) (waddr L) (lflash L)"
proof -
  have "L\<lparr>pend := pend L @ p\<rparr> = \<lparr>pend = pend L @ p, fif = fif L, waddr = waddr L, lflash = lflash L\<rparr>"
    by simp
  then show ?thesis unfolding load_package_def by (simp only: load_loop_resume)
qed

lemma burn_page_valid:
  assumes "burn 0 (record_bytes taken) f = (a, F, f')" "loadable (taken @ rest)"
  shows "length F < SPM_PAGESIZE" "unat a + length (F @ record_bytes rest) < 65536"
    and "a = 0 \<Longrightarrow> F = record_bytes taken"
    and "SPM_PAGESIZE \<le> length (F @ record_bytes rest) \<longrightarrow> a = 0 \<longrightarrow>
         validImage (take SPM_PAGESIZE (F @ record_bytes rest))"
proof -
  have *: "length F < SPM_PAGESIZE" "unat a + length F = length (record_bytes taken)"
    "F = drop (unat a) (record_bytes taken)"
    using burn_bounds [OF assms(1)] assms(2) by (auto simp: loadable_def)
  show "length F < SPM_PAGESIZE" by (rule *)
  show "unat a + length (F @ record_bytes rest) < 65536" using *(2) assms(2) by (simp add: loadable_def)
  show F: "a = 0 \<Longrightarrow> F = record_bytes taken" using *(3) by simp
  show "SPM_PAGESIZE \<le> length (F @ record_bytes rest) \<longrightarrow> a = 0 \<longrightarrow>
         validImage (take SPM_PAGESIZE (F @ record_bytes rest))"
    using F assms(2) by (auto simp: loadable_def)
qed

lemma length_end_record_crlf: "length (end_record @ crlf) = 13"
  by (simp add: end_record_def length_hex_record)

lemma newline_rest_length: "newline_rest nl \<Longrightarrow> length nl \<le> 2"
  by (auto simp: newline_rest_def)

lemma loadable_short: "loadable recs \<Longrightarrow> \<forall>(b, bs) \<in> set recs. bs \<noteq> [] \<and> length bs \<le> 34"
  by (fastforce simp: loadable_def)

text \<open>
  A package in the middle of a file. Either the file goes on: the package is consumed and
  less than 80 characters stay; or all data records have been read and the end record is
  complete.
\<close>

lemma load_package_cases:
  assumes "midway recs junk (p @ fut) f L" "loadable recs"
  obtains (more) L' where "load_package p L = (0, L')" "midway recs junk fut f L'" "length (pend L') < 79"
      "length (fif L') < SPM_PAGESIZE" "fut \<noteq> []"
  | (last) err plen P F a f' nl where "load_package p L = resume err plen P F a f'"
      "between_lines err plen F" "burn 0 (record_bytes recs) f = (a, F, f')" "newline_rest nl"
      "P @ fut = nl @ end_record @ crlf @ junk" "length nl + length end_record \<le> length P"
proof -
  from assms(1) obtain taken rest nl where m: "recs = taken @ rest" "newline_rest nl"
    "(pend L @ p) @ fut = nl @ data_lines rest @ end_record @ crlf @ junk"
    "burn 0 (record_bytes taken) f = (waddr L, fif L, lflash L)"
    by (auto simp: midway_def)
  note pv = burn_page_valid [OF m(4) assms(2) [unfolded m(1)]]
  have "\<forall>(b, bs) \<in> set rest. bs \<noteq> [] \<and> length bs \<le> 34" using loadable_short [OF assms(2)] m(1) by auto
  note rr = resume_records [unfolded takes_records_def, OF m(3,2) this between_lines_start pv(1,2,4), of "lflash L"]
  then obtain taken2 rest2 nl' P' a' F' f' err' plen' where
    r: "rest = taken2 @ rest2" "burn (waddr L) (fif L @ record_bytes taken2) (lflash L) = (a', F', f')"
      "newline_rest nl'" "P' @ fut = nl' @ data_lines rest2 @ end_record @ crlf @ junk"
      "between_lines err' plen' F'" "load_package p L = resume err' plen' P' F' a' f'"
      "rest2 \<noteq> [] \<longrightarrow> length P' < length nl' + length (hex_record 0 (fst (hd rest2)) (snd (hd rest2)))"
    unfolding load_package_resume by metis
  have burn: "burn 0 (record_bytes (taken @ taken2)) f = (a', F', f')"
    using r(2) m(4) burn_append [of 0 "record_bytes taken"] by simp
  let ?L = "\<lparr>pend = P', fif = F', waddr = a', lflash = f'\<rparr>"
  have mid: "midway recs junk fut f ?L"
    unfolding midway_def using burn m(1) r(1,3,4)
    by (intro exI [of _ "taken @ taken2"] exI [of _ rest2] exI [of _ nl']) simp
  have short: "length F' < SPM_PAGESIZE"
    using burn_page_valid(1) [OF burn, of rest2] assms(2) m(1) r(1) by simp
  show ?thesis
  proof (cases "rest2 = [] \<and> length nl' + length end_record \<le> length P'")
    case True
    with r burn m(1) show ?thesis by (intro last [of err' plen' P' F' a' f' nl']) (simp_all add: data_lines_def)
  next
    case False
    obtain t b bs T where n: "P' @ fut = nl' @ hex_record t b bs @ T" "length bs \<le> 33"
      "length P' < length nl' + length (hex_record t b bs)"
    proof (cases rest2)
      case Nil
      with r(4) False show ?thesis by (intro that [of 1 0 "[]" "crlf @ junk"]) (simp_all add: data_lines_def end_record_def)
    next
      case (Cons x xs)
      obtain b bs where x: "x = (b, bs)" by (cases x)
      have "length bs \<le> 33" using assms(2) m(1) r(1) Cons x by (auto simp: loadable_def)
      with r(4,7) Cons x show ?thesis
        by (intro that [of 0 b bs "crlf @ data_lines xs @ end_record @ crlf @ junk"]) (simp_all add: data_lines_def)
    qed
    have "load_package p L = (0, ?L)"
      using resume_short [OF n(1) r(3) _ n(3) r(5)] n(2) r(6) by simp
    moreover have "length P' < 79"
      using n(2,3) newline_rest_length [OF r(3)] by (simp add: length_hex_record)
    moreover have "fut \<noteq> []" using n(1,3) by auto
    ultimately show ?thesis using more [of ?L] mid short by simp
  qed
qed

text \<open>What programming a whole image leaves: the last page is filled up with \<open>0xFF\<close>.\<close>

definition programmed :: "u8 list \<Rightarrow> flash \<Rightarrow> flash" where
  "programmed D f = (case burn 0 D f of (a, r, f') \<Rightarrow>
     if r = [] then f' else flash_page a (r @ replicate (SPM_PAGESIZE - length r) 0xFF) f')"

lemma page_arith:
  fixes y q z l :: nat
  assumes "z < 128" "l < 128"
  shows "128 * y < 128 * q + l \<longleftrightarrow> 128 * y + z < 128 * q \<or> 0 < l \<and> 128 * y + z < 128 * q + 128"
  using assms by (cases y q rule: linorder_cases) auto

lemma programmed_mem:
  assumes "length D < 65536"
  shows "flash_mem (programmed D f) x =
    (if unat x < length D then D ! unat x
     else if unat x div SPM_PAGESIZE * SPM_PAGESIZE < length D then 0xFF else flash_mem f x)"
proof -
  obtain a r f' where b: "burn 0 D f = (a, r, f')" by (cases "burn 0 D f") auto
  have *: "length r < SPM_PAGESIZE" "unat a + length r = length D" "r = drop (unat a) D"
    "unat a mod SPM_PAGESIZE = 0"
    using burn_bounds [OF b] assms by auto
  have m: "flash_mem f' x = (if unat x < unat a then D ! unat x else flash_mem f x)"
    using burn_mem [OF b, of x] assms by simp
  obtain q where q: "unat a = 128 * q" using *(4) by (auto simp: SPM_PAGESIZE_def)
  have page: "unat x div SPM_PAGESIZE * SPM_PAGESIZE < length D \<longleftrightarrow>
      unat x < unat a \<or> r \<noteq> [] \<and> unat x < unat a + SPM_PAGESIZE"
    using page_arith [of "unat x mod 128" "length r" "unat x div 128" q] *(1,2)
    unfolding q SPM_PAGESIZE_def by (simp add: mult.commute)
  show ?thesis
  proof (cases "r = []")
    case True
    then have "length D = unat a" using *(2) by simp
    with True m b page show ?thesis by (simp add: programmed_def)
  next
    case False
    let ?p = "r @ replicate (SPM_PAGESIZE - length r) 0xFF"
    have "flash_mem (programmed D f) x =
        (if unat a \<le> unat x \<and> unat x < unat a + SPM_PAGESIZE then ?p ! (unat x - unat a) else flash_mem f' x)"
      using False b *(1) flash_page_mem [OF *(4), of ?p f' x] page_offset [OF *(4), of x]
      by (auto simp: programmed_def same_page_range [OF *(4)])
    moreover have "r ! (unat x - unat a) = D ! unat x" if "unat a \<le> unat x" "unat x < length D"
      using that *(3) by (simp add: nth_drop)
    ultimately show ?thesis
      unfolding page using m False *(1,2) by (auto simp: nth_append less_diff_conv2)
  qed
qed

lemma burn_ready:
  "burn a bs f = (a', r, f') \<Longrightarrow> \<not> rww_busy f \<or> SPM_PAGESIZE \<le> length bs \<Longrightarrow> \<not> rww_busy f'"
proof (induction a bs f rule: burn.induct)
  case (1 a bs f)
  show ?case
  proof (cases "SPM_PAGESIZE \<le> length bs")
    case True
    then have "burn (a + of_nat SPM_PAGESIZE) (drop SPM_PAGESIZE bs) (flash_page a (take SPM_PAGESIZE bs) f)
        = (a', r, f')" using 1(2) by (simp only: burn_full)
    then show ?thesis using 1(1) [OF True] by simp
  next
    case False
    with 1(2,3) show ?thesis by (simp add: burn_short)
  qed
qed

lemma programmed_ready: "D \<noteq> [] \<Longrightarrow> \<not> rww_busy (programmed D f)"
proof -
  assume "D \<noteq> []"
  obtain a r f' where b: "burn 0 D f = (a, r, f')" by (cases "burn 0 D f") auto
  show ?thesis
  proof (cases "SPM_PAGESIZE \<le> length D")
    case True
    with b burn_ready [OF b] show ?thesis by (simp add: programmed_def)
  next
    case False
    with b \<open>D \<noteq> []\<close> show ?thesis by (auto simp: programmed_def burn_short)
  qed
qed

lemma padded_valid:
  assumes "loadable recs" "burn 0 (record_bytes recs) f = (a, F, f')"
  shows "a = 0 \<longrightarrow> validImage (F @ replicate (SPM_PAGESIZE - length F) 0xFF)"
proof
  assume "a = 0"
  with burn_page_valid [OF assms(2), of "[]"] assms(1)
  have "F = record_bytes recs" "length F < SPM_PAGESIZE" by simp_all
  then have "take SPM_PAGESIZE (record_bytes recs @ replicate SPM_PAGESIZE 0xFF)
      = F @ replicate (SPM_PAGESIZE - length F) 0xFF" by simp
  then show "validImage (F @ replicate (SPM_PAGESIZE - length F) 0xFF)"
    using assms(1) by (simp add: loadable_def)
qed

lemma last_record:
  assumes "burn 0 (record_bytes recs) f = (a, F, f')" "P @ fut = nl @ hex_record 0 b bs @ crlf @ end_record @ crlf @ junk"
    and "newline_rest nl" "loadable (recs @ [(b, bs)])"
    and "length (record_bytes recs) div SPM_PAGESIZE = length (record_bytes recs @ bs) div SPM_PAGESIZE"
    and "fut = []"
  shows "\<exists>L'. resume err plen P F a f' = (1, L') \<and> lflash L' = programmed (record_bytes recs @ bs) f"
proof -
  have bs: "bs \<noteq> []" "length bs \<le> 34" using loadable_short [OF assms(4)] by auto
  have b: "length F < SPM_PAGESIZE" "unat a + length F = length (record_bytes recs)"
    "unat a mod SPM_PAGESIZE = 0"
    using burn_bounds [OF assms(1)] assms(4) by (auto simp: loadable_def)
  obtain q where q: "unat a = 128 * q" using b(3) by (auto simp: SPM_PAGESIZE_def)
  have fits: "length (F @ bs) < SPM_PAGESIZE"
    using assms(5) b(1) unfolding length_append b(2) [symmetric] q SPM_PAGESIZE_def by simp
  have all: "burn 0 (record_bytes (recs @ [(b, bs)])) f = (a, F @ bs, f')"
    using assms(1) fits by (simp add: burn_append [of 0 "record_bytes recs"] burn_short)
  have len: "length nl + length (hex_record 0 b bs) \<le> length P" using assms(2,6) by simp
  obtain P' nl' where P': "newline_rest nl'" "P' @ fut = nl' @ end_record @ crlf @ junk"
    and step: "resume err plen P F a f' = resume HEX_ERR_NONE (length (F @ bs)) P' (F @ bs) a f'"
    using resume_data [OF assms(2,3) bs(2) len b(1), of a err plen f'] fits by (metis not_less)
  have "\<exists>L'. resume HEX_ERR_NONE (length (F @ bs)) P' (F @ bs) a f' = (1, L')
      \<and> lflash L' = flash_page a ((F @ bs) @ replicate (SPM_PAGESIZE - length (F @ bs)) 0xFF) f'"
    using resume_end(1) [of P' fut nl' junk "F @ bs" "length (F @ bs)" a HEX_ERR_NONE f']
      P' fits bs(1) assms(6) padded_valid [OF assms(4) all] by simp
  then show ?thesis using step all bs(1) by (simp add: programmed_def)
qed

text \<open>
  The last package, when it holds the last data record with the end record and that data
  record does not complete a page.
\<close>

lemma load_package_last:
  assumes "midway (recs @ [(b, bs)]) junk p f L" "loadable (recs @ [(b, bs)])"
    and "length (hex_record 0 b bs) + 15 + length junk \<le> length p"
    and "length (record_bytes recs) div SPM_PAGESIZE = length (record_bytes recs @ bs) div SPM_PAGESIZE"
  shows "\<exists>L'. load_package p L = (1, L') \<and> lflash L' = programmed (record_bytes recs @ bs) f"
proof -
  let ?T = "hex_record 0 b bs @ crlf @ end_record @ crlf @ junk"
  from assms(1) obtain taken rest nl where m: "recs @ [(b, bs)] = taken @ rest" "newline_rest nl"
    "pend L @ p = nl @ data_lines rest @ end_record @ crlf @ junk"
    "burn 0 (record_bytes taken) f = (waddr L, fif L, lflash L)"
    by (auto simp: midway_def)
  have "rest \<noteq> []"
  proof
    assume "rest = []"
    then have "length (pend L @ p) = length nl + 13 + length junk"
      unfolding m(3) by (simp add: data_lines_def end_record_def length_hex_record)
    with newline_rest_length [OF m(2)] assms(3) show False by (simp add: length_hex_record)
  qed
  then obtain rest0 x where "rest = rest0 @ [x]" by (cases rest rule: rev_cases) auto
  then have rest: "rest = rest0 @ [(b, bs)]" "recs = taken @ rest0" using m(1) by auto
  have cut: "(pend L @ p) @ [] = nl @ data_lines rest0 @ ?T" using m(3) rest(1) by (simp add: data_lines_def)
  have good: "\<forall>(b, bs) \<in> set rest0. bs \<noteq> [] \<and> length bs \<le> 34" "bs \<noteq> []" "length bs \<le> 34"
    using loadable_short [OF assms(2)] rest(2) by auto
  have prefix: "loadable (taken @ rest0 @ [(b, bs)])" using assms(2) rest(2) by simp
  note pv = burn_page_valid [OF m(4) prefix]
  have pv2: "unat (waddr L) + length (fif L @ record_bytes rest0) < 65536"
    "SPM_PAGESIZE \<le> length (fif L @ record_bytes rest0) \<longrightarrow> waddr L = 0 \<longrightarrow>
      validImage (take SPM_PAGESIZE (fif L @ record_bytes rest0))"
    using pv(2,4) by auto
  from resume_records [unfolded takes_records_def, OF cut m(2) good(1) between_lines_start pv(1) pv2, of "lflash L"]
  obtain taken2 rest2 nl' P' a' F' f' err' plen' where
    r: "rest0 = taken2 @ rest2" "burn (waddr L) (fif L @ record_bytes taken2) (lflash L) = (a', F', f')"
      "newline_rest nl'" "P' @ [] = nl' @ data_lines rest2 @ ?T"
      "load_package p L = resume err' plen' P' F' a' f'"
      "rest2 \<noteq> [] \<longrightarrow> length P' < length nl' + length (hex_record 0 (fst (hd rest2)) (snd (hd rest2)))"
    unfolding load_package_resume by metis
  have "rest2 = []"
    using r(4,6) by (cases rest2) (auto simp: data_lines_def)
  then have burn: "burn 0 (record_bytes recs) f = (a', F', f')" and P': "P' @ [] = nl' @ ?T"
    using r(1,2,4) m(4) rest(2) burn_append [of 0 "record_bytes taken"] by (simp_all add: data_lines_def)
  show ?thesis using last_record [OF burn P' r(3) assms(2,4) refl] r(5) by simp
qed

section \<open>The code on a file\<close>

text \<open>
  Packages handed to the loader one after the other, as \<^verbatim>\<open>processPacket\<close> does with the data
  blocks of a transfer, until one of them ends it.
\<close>

fun ihex_feed :: "u8 list list \<Rightarrow> ihex \<Rightarrow> (int \<times> ihex) option" where
  "ihex_feed [] s = Some (0, s)"
| "ihex_feed (p # ps) s =
     Option.bind (ihex_package_process p s) (\<lambda>(r, s'). if r = 0 then ihex_feed ps s' else Some (r, s'))"

lemma ihex_feed_append:
  "ihex_feed ps s = Some (0, s') \<Longrightarrow> ihex_feed (ps @ qs) s = ihex_feed qs s'"
  by (induction ps arbitrary: s) (auto split: Option.bind_split if_splits)

definition in_transfer :: "(u16 \<times> u8 list) list \<Rightarrow> u8 list \<Rightarrow> u8 list \<Rightarrow> flash \<Rightarrow> ihex \<Rightarrow> bool" where
  "in_transfer recs junk fut f s \<longleftrightarrow> ihex_wf s \<and> midway recs junk fut f (loader_of s)
     \<and> length (pending s) < 79 \<and> length (fifo s) < SPM_PAGESIZE"

lemma in_transfer_start: "in_transfer recs junk (hex_file recs @ junk) f (ihex_start f)"
proof -
  have "midway recs junk (hex_file recs @ junk) f \<lparr>pend = [], fif = [], waddr = 0, lflash = f\<rparr>"
    unfolding midway_def
    by (rule exI [of _ "[]"], rule exI [of _ recs], rule exI [of _ "[]"])
      (simp add: hex_file_def newline_rest_def burn_short SPM_PAGESIZE_def)
  then show ?thesis
    by (simp add: in_transfer_def ihex_start_refine SPM_PAGESIZE_def)
qed

lemma in_transfer_process:
  assumes "in_transfer recs junk fut f s" "length p \<le> TFTP_MAX_PAYLOAD"
  obtains s' where "ihex_package_process p s = Some (fst (load_package p (loader_of s)), s')"
    "ihex_wf s'" "loader_of s' = snd (load_package p (loader_of s))"
  using package_process_refine [of s p] assms
  by (auto simp: in_transfer_def RING_BUFFER_LEN_def)

lemma loader_of_sel [simp]:
  "pend (loader_of s) = pending s" "fif (loader_of s) = fifo s" "lflash (loader_of s) = ih_flash s"
  by (simp_all add: loader_of_def)

lemma feed_more:
  assumes "in_transfer recs junk (concat ps @ fut) f s" "loadable recs" "length junk + 3 \<le> length fut"
    and "\<forall>p \<in> set ps. length p \<le> TFTP_MAX_PAYLOAD"
  shows "\<exists>s'. ihex_feed ps s = Some (0, s') \<and> in_transfer recs junk fut f s'"
  using assms
proof (induction ps arbitrary: s)
  case Nil
  then show ?case by simp
next
  case (Cons p ps)
  from Cons.prems obtain s' where s': "ihex_package_process p s = Some (fst (load_package p (loader_of s)), s')"
    "ihex_wf s'" "loader_of s' = snd (load_package p (loader_of s))"
    using in_transfer_process by (metis list.set_intros(1))
  have mid: "midway recs junk (p @ concat ps @ fut) f (loader_of s)"
    using Cons.prems(1) by (simp add: in_transfer_def)
  from mid Cons.prems(2) show ?case
  proof (cases rule: load_package_cases)
    case (more L')
    with s' have "in_transfer recs junk (concat ps @ fut) f s'"
      by (auto simp: in_transfer_def simp flip: loader_of_sel)
    with Cons s' more(1) show ?thesis by simp
  next
    case (last err plen P F a f' nl)
    from arg_cong [OF last(5), of length]
    have "length P + length (concat ps @ fut) = length nl + 13 + length junk"
      by (simp add: end_record_def length_hex_record)
    with last(6) Cons.prems(3) show ?thesis by (simp add: end_record_def length_hex_record)
  qed
qed

lemma burn_whole:
  assumes "burn 0 D f = (a, r, f')" "length D < 65536" "length D mod SPM_PAGESIZE = 0"
  shows "r = [] \<and> unat a = length D"
proof -
  have b: "length r < SPM_PAGESIZE" "unat a + length r = length D" "unat a mod SPM_PAGESIZE = 0"
    using burn_bounds [OF assms(1)] assms(2) by auto
  have "(unat a + length r) mod SPM_PAGESIZE = length r"
    using b(1,3) by (metis add_0 mod_add_left_eq mod_less)
  with b(2) assms(3) show ?thesis by simp
qed

lemma feed_whole:
  assumes "in_transfer recs junk (concat ps) f s" "loadable recs"
    and "\<forall>p \<in> set ps. length p \<le> TFTP_MAX_PAYLOAD"
    and "burn 0 (record_bytes recs) f = (a, [], f')" "ps \<noteq> []"
  shows "\<exists>s'. ihex_feed ps s = Some (- 2, s') \<and> ih_flash s' = f'"
  using assms
proof (induction ps arbitrary: s)
  case Nil
  then show ?case by simp
next
  case (Cons p ps)
  from Cons.prems obtain s' where s': "ihex_package_process p s = Some (fst (load_package p (loader_of s)), s')"
    "ihex_wf s'" "loader_of s' = snd (load_package p (loader_of s))"
    using in_transfer_process by (metis list.set_intros(1))
  have mid: "midway recs junk (p @ concat ps) f (loader_of s)"
    using Cons.prems(1) by (simp add: in_transfer_def)
  from mid Cons.prems(2) show ?case
  proof (cases rule: load_package_cases)
    case (more L')
    with s' have "in_transfer recs junk (concat ps) f s'"
      by (auto simp: in_transfer_def simp flip: loader_of_sel)
    moreover have "ps \<noteq> []" using more(5) by auto
    ultimately show ?thesis using Cons s' more(1) by simp
  next
    case (last err plen P F a2 f2 nl)
    then have "F = []" "f2 = f'" "plen = 0" using Cons.prems(4) by (auto simp: between_lines_def)
    with resume_end(2) [of P "concat ps" nl junk F plen err a2 f2] last
    have "\<exists>L'. load_package p (loader_of s) = (- 2, L') \<and> lflash L' = f'" by (simp add: SPM_PAGESIZE_def)
    with s' show ?thesis by (auto simp flip: loader_of_sel)
  qed
qed

lemma hex_file_feed:
  assumes "loadable (recs @ [(b, bs)])" "concat ps @ p = hex_file (recs @ [(b, bs)]) @ junk"
    and "\<forall>q \<in> set (ps @ [p]). length q \<le> TFTP_MAX_PAYLOAD"
    and "length (hex_record 0 b bs) + 15 + length junk \<le> length p"
    and "length (record_bytes recs) div SPM_PAGESIZE = length (record_bytes recs @ bs) div SPM_PAGESIZE"
  shows "\<exists>s'. ihex_feed (ps @ [p]) (ihex_start f) = Some (1, s')
     \<and> ih_flash s' = programmed (record_bytes recs @ bs) f"
proof -
  have "in_transfer (recs @ [(b, bs)]) junk (concat ps @ p) f (ihex_start f)"
    using in_transfer_start [of "recs @ [(b, bs)]" junk f] assms(2) by simp
  from feed_more [OF this assms(1)] assms(3,4)
  obtain s1 where s1: "ihex_feed ps (ihex_start f) = Some (0, s1)"
    "in_transfer (recs @ [(b, bs)]) junk p f s1"
    by (auto simp: length_hex_record)
  obtain s' where s': "ihex_package_process p s1 = Some (fst (load_package p (loader_of s1)), s')"
    "loader_of s' = snd (load_package p (loader_of s1))"
    using in_transfer_process [OF s1(2), of p] assms(3) by auto
  have "\<exists>L'. load_package p (loader_of s1) = (1, L') \<and> lflash L' = programmed (record_bytes recs @ bs) f"
    using load_package_last [OF _ assms(1,4,5)] s1(2) by (simp add: in_transfer_def)
  with s' have "ihex_package_process p s1 = Some (1, s')" "ih_flash s' = programmed (record_bytes recs @ bs) f"
    by (auto simp flip: loader_of_sel)
  with s1(1) show ?thesis by (simp add: ihex_feed_append)
qed


text \<open>The jump table of a program whose interrupts all lead to one place, and a file that carries it.\<close>

definition jump_table :: "u8 list" where
  "jump_table = concat (replicate 13 [0x0C, 0x94, 0x34, 0x00])"

lemma length_jump_table: "length jump_table = 52"
  by (simp add: jump_table_def eval_nat_numeral)

lemma jump_table_nth: "jump_table ! 1 = 0x94" "jump_table ! Suc 0 = 0x94"
  by (simp_all add: jump_table_def eval_nat_numeral)

lemma jump_table_valid: "validImage (take SPM_PAGESIZE (jump_table @ xs))"
  by (simp add: validImage_def jump_table_def SPM_PAGESIZE_def eval_nat_numeral)




text \<open>
  C4. A data line whose bytes do not sum to zero with the checksum is refused with \<open>- 2\<close> and
  programs nothing; its bytes stay behind in the page buffer.
\<close>

theorem ihex_bad_checksum_refused:
  assumes "ihex_wf s" "length (fifo s) < SPM_PAGESIZE" "pending s = []"
    and "\<forall>c \<in> set line. 0x30 \<le> c \<and> c \<le> 0x66" "length line < HEX_LINE_MAX_LEN"
    and "decode_line line = Data_Line False bytes"
  shows "\<exists>s'. ihex_package_process (line @ crlf) s = Some (- 2, s') \<and> ih_flash s' = ih_flash s
     \<and> g_writeAddr s' = g_writeAddr s \<and> pending s' = [] \<and> fifo s' = fifo s @ bytes"
proof -
  have ne: "0 < length line" "length line < 80"
    using assms(5,6) by (auto simp: decode_line_def Let_def HEX_LINE_MAX_LEN_def split: if_splits)
  then have "unat (of_nat (length line) :: u8) = length line" by (simp add: unat_of_nat)
  with ne have n: "(of_nat (length line) :: u8) \<noteq> 0" "(of_nat (length line) :: u8) \<noteq> 0xFF"
    by (auto simp: word_unat_eq_iff)
  have "scan_line [] (line @ crlf) = scan_line line crlf"
    using scan_line_chars [OF assms(4), of "[]" crlf] assms(5) by simp
  then have sc: "scan_line [] (line @ crlf) = (of_nat (length line), line, [])" using ne by simp
  have "collect HEX_ERR_EMPTY 0 (line @ crlf) (fifo s) = (False, HEX_ERR_CHECK, 0, [], fifo s @ bytes)"
    using n assms(6) by (simp add: collect.simps sc)
  then have "load_package (line @ crlf) (loader_of s)
      = (- 2, \<lparr>pend = [], fif = fifo s @ bytes, waddr = g_writeAddr s, lflash = ih_flash s\<rparr>)"
    using assms(3) by (simp add: load_package_resume resume_def loader_of_def)
  moreover have "length (pending s) + length (line @ crlf) < RING_BUFFER_LEN"
    using ne assms(3) by (simp add: RING_BUFFER_LEN_num)
  ultimately show ?thesis
    using package_process_refine [OF assms(1,2), of "line @ crlf"]
    by (auto simp: loader_of_def)
qed

lemma ihex_start_flash: "ih_flash (ihex_start f) = f"
  by (simp add: ihex_start_def ihex_init_def)

theorem ihex_bad_checksum_refused_witness:
  "\<exists>s'. ihex_package_process ([0x3A, 0x30, 0x31, 0x30, 0x30, 0x30, 0x30, 0x30, 0x30, 0x41, 0x42, 0x30, 0x30] @ crlf)
       (ihex_start blank_flash) = Some (- 2, s')
     \<and> ih_flash s' = blank_flash \<and> fifo s' = [0xAB]"
  using ihex_bad_checksum_refused [of "ihex_start blank_flash"
      "[0x3A, 0x30, 0x31, 0x30, 0x30, 0x30, 0x30, 0x30, 0x30, 0x41, 0x42, 0x30, 0x30]" "[0xAB]"]
  by (auto simp: ihex_start_refine SPM_PAGESIZE_def HEX_LINE_MAX_LEN_def decode_line_def Let_def
      ascii2bin_def xtod_def line_bytes_def ihex_start_flash)

end
