(* ===== verification/Spi.thy ===== *)
theory Spi
  imports Prelude
begin

text \<open>
  The serial bus that connects the controller with the external flash and with the W5100
  network chip. The chips are not part of the program: the bus is a record of functions on
  a state \<open>'d\<close> of the outside world, one for every edge of a select line and one for the
  exchange of a byte (write \<^verbatim>\<open>SPDR\<close>, wait for \<^verbatim>\<open>SPIF\<close>, read \<^verbatim>\<open>SPDR\<close>). What a property
  needs of a chip is a hypothesis about the bytes it answers.
\<close>

record 'd bus =
  ss_low :: "'d \<Rightarrow> 'd"
  ss_high :: "'d \<Rightarrow> 'd"
  ef_ss_low :: "'d \<Rightarrow> 'd"
  ef_ss_high :: "'d \<Rightarrow> 'd"
  exchange :: "u8 \<Rightarrow> 'd \<Rightarrow> u8 \<times> 'd"

text \<open>The bytes of an address, most significant first.\<close>

definition byte_of :: "nat \<Rightarrow> 'a :: len word \<Rightarrow> u8" where
  "byte_of n w = ucast (drop_bit (8 * n) w)"

text \<open>A sequence of exchanges: the answers and the final state.\<close>

fun exchanges :: "'d bus \<Rightarrow> u8 list \<Rightarrow> 'd \<Rightarrow> u8 list \<times> 'd" where
  "exchanges b [] d = ([], d)"
| "exchanges b (x # xs) d =
     (let (r, d1) = exchange b x d; (rs, d2) = exchanges b xs d1 in (r # rs, d2))"

lemma exchanges_append:
  "exchanges b (xs @ ys) d =
     (let (rs, d1) = exchanges b xs d; (ss, d2) = exchanges b ys d1 in (rs @ ss, d2))"
  by (induction xs arbitrary: d) (auto simp: Let_def split: prod.splits)

lemma length_exchanges: "exchanges b xs d = (rs, d') \<Longrightarrow> length rs = length xs"
  by (induction xs arbitrary: d rs d') (auto simp: Let_def split: prod.splits)

end
