(* ===== verification/Ext_Flash.thy ===== *)
theory Ext_Flash
  imports Spi Ihex_Stream
begin

text \<open>
  The driver of the external serial flash, \<^verbatim>\<open>ext_flash.c\<close>, and the loader that takes an
  application image (a hex file) from it. Delays and debug output are left out.
\<close>

section \<open>The driver\<close>

definition ext_flash_RW_byte :: "'d bus \<Rightarrow> u8 \<Rightarrow> 'd \<Rightarrow> u8 \<times> 'd" where
  "ext_flash_RW_byte b data d = exchange b data d"

text \<open>The status register is polled until its busy bit is clear, \<open>retry\<close> times at most.\<close>

fun wait_busy_loop :: "'d bus \<Rightarrow> nat \<Rightarrow> 'd \<Rightarrow> u8 \<times> 'd" where
  "wait_busy_loop b 0 d = (1, d)"
| "wait_busy_loop b (Suc retry) d =
     (let d1 = ef_ss_low b d;
          d2 = snd (ext_flash_RW_byte b 0x05 d1);
          (status, d3) = ext_flash_RW_byte b 0x00 d2;
          d4 = ef_ss_high b d3
      in if status AND 0x01 = 0 then (0, d4) else wait_busy_loop b retry d4)"

definition ext_flash_wait_busy :: "'d bus \<Rightarrow> 'd \<Rightarrow> u8 \<times> 'd" where
  "ext_flash_wait_busy b d = wait_busy_loop b 200 (ef_ss_high b d)"

definition ext_flash_write_enable :: "'d bus \<Rightarrow> 'd \<Rightarrow> 'd" where
  "ext_flash_write_enable b d =
     (let d1 = ef_ss_low b d;
          d2 = snd (ext_flash_RW_byte b 0x06 d1);
          d3 = ef_ss_high b d2
      in ef_ss_low b d3)"

fun write_bytes :: "'d bus \<Rightarrow> u8 list \<Rightarrow> 'd \<Rightarrow> 'd" where
  "write_bytes b [] d = d"
| "write_bytes b (x # xs) d = write_bytes b xs (snd (ext_flash_RW_byte b x d))"

definition ext_flash_cmd_head :: "'d bus \<Rightarrow> u8 list \<Rightarrow> 'd \<Rightarrow> 'd" where
  "ext_flash_cmd_head b cmd_head d = write_bytes b (take 4 cmd_head) d"

fun read_bytes :: "'d bus \<Rightarrow> nat \<Rightarrow> 'd \<Rightarrow> u8 list \<times> 'd" where
  "read_bytes b 0 d = ([], d)"
| "read_bytes b (Suc len) d =
     (let (x, d1) = ext_flash_RW_byte b 0x00 d; (xs, d2) = read_bytes b len d1 in (x # xs, d2))"

text \<open>The \<open>len\<close> bytes that the code stores at \<^verbatim>\<open>rd_buff\<close>, and the state of the bus.\<close>

definition ext_flash_read_data :: "'d bus \<Rightarrow> u32 \<Rightarrow> nat \<Rightarrow> 'd \<Rightarrow> u8 list \<times> 'd" where
  "ext_flash_read_data b addr len d =
     (let cmd_head = [0x03, byte_of 2 addr, byte_of 1 addr, byte_of 0 addr];
          d1 = ef_ss_low b d;
          d2 = ext_flash_cmd_head b cmd_head d1;
          (rd_buff, d3) = read_bytes b len d2
      in (rd_buff, ef_ss_high b d3))"

text \<open>\<^verbatim>\<open>do ... while (++count)\<close> with an 8-bit counter from 0: 256 bytes of the page.\<close>

definition ext_flash_write_page :: "'d bus \<Rightarrow> u32 \<Rightarrow> u8 list \<Rightarrow> 'd \<Rightarrow> 'd" where
  "ext_flash_write_page b offset page d =
     (let bytes = [0x02, byte_of 2 offset, byte_of 1 offset, 0x00];
          d1 = ext_flash_write_enable b d;
          d2 = ext_flash_cmd_head b bytes d1;
          d3 = write_bytes b (take 256 page) d2
      in snd (ext_flash_wait_busy b d3))"

definition ext_flash_do_cmd :: "'d bus \<Rightarrow> u8 list \<Rightarrow> 'd \<Rightarrow> 'd" where
  "ext_flash_do_cmd b cmd d =
     snd (ext_flash_wait_busy b (ext_flash_cmd_head b cmd (ext_flash_write_enable b d)))"

definition ext_flash_erase_sector :: "'d bus \<Rightarrow> u32 \<Rightarrow> 'd \<Rightarrow> 'd" where
  "ext_flash_erase_sector b offset d =
     ext_flash_do_cmd b [0x20, byte_of 2 offset, byte_of 1 offset, 0x00] d"

definition ext_flash_write_system_data :: "'d bus \<Rightarrow> u8 \<Rightarrow> u8 list \<Rightarrow> nat \<Rightarrow> 'd \<Rightarrow> 'd" where
  "ext_flash_write_system_data b index sys_data len d =
     (if 2 < index \<or> 256 < len then d
      else
        let bytes = [0x44, 0x00, push_bit 4 (index + 1), 0x00];
            d1 = ext_flash_do_cmd b bytes d;
            d2 = ext_flash_write_enable b d1;
            d3 = ext_flash_cmd_head b (bytes[0 := 0x42]) d2;
            d4 = write_bytes b (take len sys_data) d3
        in snd (ext_flash_wait_busy b d4))"

text \<open>\<open>rd_buff\<close> is the buffer before the call; a refused call leaves it as it is.\<close>

definition ext_flash_read_system_data :: "'d bus \<Rightarrow> u8 \<Rightarrow> u8 list \<Rightarrow> nat \<Rightarrow> 'd \<Rightarrow> u8 list \<times> 'd" where
  "ext_flash_read_system_data b index rd_buff len d =
     (if 2 < index \<or> 256 < len then (rd_buff, d)
      else
        let cmd_head = [0x48, 0x00, push_bit 4 (index + 1), 0x00];
            d1 = ef_ss_low b d;
            d2 = ext_flash_cmd_head b cmd_head d1;
            d3 = snd (ext_flash_RW_byte b 0x00 d2);
            (bytes, d4) = read_bytes b len d3
        in (bytes @ drop len rd_buff, ef_ss_high b d4))"

section \<open>Loading the application\<close>

text \<open>
  How \<^verbatim>\<open>ext_flash_main\<close> ends: the watchdog restarts the application, the loader is
  restarted on another section, or the error is blinked for ever.
\<close>

datatype boot_exit = Start_App | Update_From_Ext_Flash u8 | Endless_Error int

fun ext_package_loop :: "'d bus \<Rightarrow> nat \<Rightarrow> u32 \<Rightarrow> 'd \<Rightarrow> ihex \<Rightarrow> (int \<times> 'd \<times> ihex) option" where
  "ext_package_loop b 0 start_addr d s = Some (- 3, d, s)"
| "ext_package_loop b (Suc package_max) start_addr d s =
     (let (buffer, d1) = ext_flash_read_data b start_addr 512 d
      in Option.bind (ihex_package_process buffer s) (\<lambda>(status, s1).
           if status = 0 then ext_package_loop b package_max (start_addr + 512) d1 s1
           else Some (status, d1, s1)))"

definition ext_flash_main :: "'d bus \<Rightarrow> u8 \<Rightarrow> 'd \<Rightarrow> ihex \<Rightarrow> (boot_exit \<times> 'd \<times> ihex) option" where
  "ext_flash_main b start_section d s =
     Option.bind (ext_package_loop b 157 (ucast start_section * 4096) d s) (\<lambda>(status, d1, s1).
       let buffer = map (\<lambda>count. flash_mem (ih_flash s1) (of_nat count)) [0..<0x34]
       in Some (if status < 0 \<and> \<not> validImage buffer
                then (if start_section \<noteq> 0 then Update_From_Ext_Flash 0 else Endless_Error status)
                else Start_App, d1, s1))"

section \<open>What is read\<close>

lemma read_bytes_exchanges: "read_bytes b n d = exchanges b (replicate n 0) d"
  by (induction n arbitrary: d) (simp_all add: ext_flash_RW_byte_def)

lemma write_bytes_exchanges: "write_bytes b xs d = snd (exchanges b xs d)"
  by (induction xs arbitrary: d) (auto simp: ext_flash_RW_byte_def Let_def split: prod.splits)

text \<open>
  The documented answer of a serial flash to its read command \<open>0x03\<close>: the bytes from the
  address on, as long as clock pulses come. Reading changes nothing in the memory \<open>mem\<close>.
\<close>

definition serial_flash :: "'d bus \<Rightarrow> ('d \<Rightarrow> u32 \<Rightarrow> u8) \<Rightarrow> bool" where
  "serial_flash b mem \<longleftrightarrow> (\<forall>addr n d rs d'. unat addr + n \<le> 2 ^ 24 \<longrightarrow>
     exchanges b ([0x03, byte_of 2 addr, byte_of 1 addr, byte_of 0 addr] @ replicate n 0) (ef_ss_low b d) = (rs, d') \<longrightarrow>
     drop 4 rs = map (\<lambda>i. mem d (addr + of_nat i)) [0..<n] \<and> mem (ef_ss_high b d') = mem d)"

lemma ext_flash_read_data_mem:
  assumes "serial_flash b mem" "unat addr + n \<le> 2 ^ 24"
  obtains d' where "ext_flash_read_data b addr n d = (map (\<lambda>i. mem d (addr + of_nat i)) [0..<n], d')"
    "mem d' = mem d"
proof -
  let ?h = "[0x03, byte_of 2 addr, byte_of 1 addr, byte_of 0 addr]"
  obtain hs d2 where h: "exchanges b ?h (ef_ss_low b d) = (hs, d2)" by fastforce
  obtain rs d3 where r: "exchanges b (replicate n 0) d2 = (rs, d3)" by fastforce
  have "exchanges b (?h @ replicate n 0) (ef_ss_low b d) = (hs @ rs, d3)"
    unfolding exchanges_append h by (simp add: r)
  with assms have "drop 4 (hs @ rs) = map (\<lambda>i. mem d (addr + of_nat i)) [0..<n]" "mem (ef_ss_high b d3) = mem d"
    unfolding serial_flash_def by blast+
  moreover have "length hs = 4" using length_exchanges [OF h] by simp
  moreover have "ext_flash_read_data b addr n d = (rs, ef_ss_high b d3)"
    using h r by (simp add: ext_flash_read_data_def ext_flash_cmd_head_def write_bytes_exchanges read_bytes_exchanges)
  ultimately show ?thesis using that by simp
qed

text \<open>The packages that the loader reads.\<close>

definition ext_packages :: "(u32 \<Rightarrow> u8) \<Rightarrow> u32 \<Rightarrow> nat \<Rightarrow> u8 list list" where
  "ext_packages m addr k = map (\<lambda>j. map (\<lambda>i. m (addr + of_nat (512 * j + i))) [0..<512]) [0..<k]"

lemma ext_packages_Suc:
  "ext_packages m addr (Suc k) = map (\<lambda>i. m (addr + of_nat i)) [0..<512] # ext_packages m (addr + 512) k"
proof -
  have "[0..<Suc k] = 0 # map Suc [0..<k]" by (simp add: map_Suc_upt upt_conv_Cons del: upt_Suc)
  then show ?thesis by (simp add: ext_packages_def algebra_simps del: upt_Suc)
qed

lemma ext_packages_snoc:
  "ext_packages m addr (Suc k) = ext_packages m addr k @ [map (\<lambda>i. m (addr + of_nat (512 * k + i))) [0..<512]]"
  by (simp add: ext_packages_def)

lemma ext_package_loop_feed:
  assumes "serial_flash b mem" "ihex_feed (ext_packages (mem d) addr k) s = Some (r, s')" "r \<noteq> 0"
    and "k \<le> n" "unat addr + 512 * k \<le> 2 ^ 24"
  shows "\<exists>d'. ext_package_loop b n addr d s = Some (r, d', s')"
  using assms(2-)
proof (induction k arbitrary: n addr d s)
  case 0
  then show ?case by (simp add: ext_packages_def)
next
  case (Suc k)
  then obtain n' where n: "n = Suc n'" "k \<le> n'" by (cases n) auto
  have a: "unat (addr + 512) = unat addr + 512" using Suc.prems(4) by (simp add: unat_word_ariths)
  obtain d1 where d1: "ext_flash_read_data b addr 512 d = (map (\<lambda>i. mem d (addr + of_nat i)) [0..<512], d1)"
    "mem d1 = mem d"
    using ext_flash_read_data_mem [OF assms(1), of addr 512 d] Suc.prems(4) by auto
  let ?p = "map (\<lambda>i. mem d (addr + of_nat i)) [0..<512]"
  obtain st s1 where st: "ihex_package_process ?p s = Some (st, s1)"
    "if st = 0 then ihex_feed (ext_packages (mem d) (addr + 512) k) s1 = Some (r, s') else r = st \<and> s' = s1"
    using Suc.prems(1) by (auto simp: ext_packages_Suc split: Option.bind_split_asm if_splits)
  show ?case
  proof (cases "st = 0")
    case True
    with st(2) have "ihex_feed (ext_packages (mem d1) (addr + 512) k) s1 = Some (r, s')" by (simp add: d1(2))
    from Suc.IH [OF this Suc.prems(2) n(2)] a Suc.prems(4) True st(1) d1(1) n(1) show ?thesis by simp
  next
    case False
    with st d1(1) n(1) show ?thesis by auto
  qed
qed

section \<open>The loader on the external flash\<close>

lemma ext_packages_concat:
  "concat (ext_packages m addr k) = map (\<lambda>i. m (addr + of_nat i)) [0..<512 * k]"
proof (induction k)
  case 0
  show ?case by (simp add: ext_packages_def)
next
  case (Suc k)
  have "[0..<512 * Suc k] = [0..<512 * k] @ map (\<lambda>i. 512 * k + i) [0..<512]"
    using upt_add_eq_append [of 0 "512 * k" 512] by (simp add: map_add_upt add.commute)
  with Suc show ?case by (simp add: ext_packages_snoc comp_def)
qed

lemma section_bound: "unat (ucast (sec :: u8) * 4096 :: u32) \<le> 255 * 4096"
proof -
  have "unat sec < 256" using unsigned_less [of sec, where ?'a = nat] by simp
  then show ?thesis by (simp add: unat_word_ariths unsigned_ucast_eq take_bit_eq_mod)
qed

lemma push_back_wf:
  "ihex_wf s \<Longrightarrow> ihex_wf (ihex_push_back ds s) \<and> fifo (ihex_push_back ds s) = fifo s"
proof (induction ds arbitrary: s)
  case Nil
  then show ?case by simp
next
  case (Cons c ds)
  let ?s = "s\<lparr>g_ring_buffer := (g_ring_buffer s)[unat (g_buffer_head s) := c],
              g_buffer_head := ring_inc (g_buffer_head s)\<rparr>"
  have "unat (ring_inc (g_buffer_head s)) < RING_BUFFER_LEN"
    by (simp add: ring_inc_def RING_BUFFER_LEN_num)
  then have "ihex_wf ?s" "fifo ?s = fifo s" using Cons.prems by (simp_all add: ihex_wf_def fifo_def)
  with Cons.IH [of ?s] show ?case by simp
qed

lemma load_loop_fif:
  "load_loop L = (0, L') \<Longrightarrow> length (fif L) < SPM_PAGESIZE \<Longrightarrow> length (fif L') < SPM_PAGESIZE"
proof (induction L arbitrary: L' rule: load_loop.induct)
  case (1 L)
  obtain n e page L1 where lp: "load_page L = (n, e, page, L1)" by (cases "load_page L") auto
  show ?case
  proof (cases "0 < n")
    case False
    then have "e \<noteq> HEX_ERR_CHECK" "L' = L1"
      using 1(2) lp by (auto simp: load_loop.simps [of L] split: if_splits)
    with load_page_fif [OF lp 1(3)] show ?thesis by simp
  next
    case True
    then have "e \<noteq> HEX_ERR_CHECK" using lp by (auto simp: load_page_def Let_def split: prod.splits if_splits)
    from load_page_fif [OF lp 1(3) this] True 1(1) [OF lp [symmetric] refl refl True] 1(2) lp
    show ?thesis by (auto simp: load_loop.simps [of L] Let_def split: if_splits)
  qed
qed

text \<open>Whatever the text, the loader returns; this holds even when the text buffer overflows.\<close>

lemma package_process_total:
  assumes "ihex_wf s" "length (fifo s) < SPM_PAGESIZE"
  obtains r s' where "ihex_package_process p s = Some (r, s')" "ihex_wf s'"
    "r = 0 \<Longrightarrow> length (fifo s') < SPM_PAGESIZE"
proof -
  let ?s = "ihex_push_back p s"
  have s: "ihex_wf ?s" "length (fifo ?s) < SPM_PAGESIZE" using push_back_wf [OF assms(1)] assms(2) by simp_all
  from package_loop_refine [OF this] obtain s' where
    s': "package_loop ?s = Some (fst (load_loop (loader_of ?s)), s')" "ihex_wf s'"
      "loader_of s' = snd (load_loop (loader_of ?s))" by blast
  show ?thesis
  proof (rule that [OF _ s'(2)])
    show "ihex_package_process p s = Some (fst (load_loop (loader_of ?s)), s')"
      using s'(1) by (simp add: ihex_package_process_def)
    assume "fst (load_loop (loader_of ?s)) = 0"
    then have "load_loop (loader_of ?s) = (0, loader_of s')" using s'(3) by (metis prod.collapse)
    from load_loop_fif [OF this] s(2) show "length (fifo s') < SPM_PAGESIZE" by simp
  qed
qed

lemma ext_package_loop_total:
  "ihex_wf s \<Longrightarrow> length (fifo s) < SPM_PAGESIZE \<Longrightarrow> \<exists>r d' s'. ext_package_loop b n addr d s = Some (r, d', s') \<and> r \<noteq> 0"
proof (induction n arbitrary: addr d s)
  case 0
  then show ?case by simp
next
  case (Suc n)
  obtain buffer d1 where b: "ext_flash_read_data b addr 512 d = (buffer, d1)" by fastforce
  obtain r s' where "ihex_package_process buffer s = Some (r, s')" "ihex_wf s'"
    "r = 0 \<Longrightarrow> length (fifo s') < SPM_PAGESIZE"
    using package_process_total [OF Suc.prems, of buffer] by metis
  with b Suc.IH show ?case by (cases "r = 0") simp_all
qed



text \<open>
  A serial flash with a fixed content, for the concrete cases: the state is what it has
  received since it was selected.
\<close>

definition received_addr :: "u8 list \<Rightarrow> u32" where
  "received_addr st = push_bit 16 (ucast (st ! 1)) OR push_bit 8 (ucast (st ! 2)) OR ucast (st ! 3)"

definition memory_bus :: "(u32 \<Rightarrow> u8) \<Rightarrow> u8 list bus" where
  "memory_bus m = \<lparr>ss_low = id, ss_high = id, ef_ss_low = \<lambda>_. [], ef_ss_high = \<lambda>_. [],
     exchange = \<lambda>x st. (if 4 \<le> length st then m (received_addr st + of_nat (length st - 4)) else 0, st @ [x])\<rparr>"

lemma addr_bytes:
  "push_bit 16 (ucast (byte_of 2 a)) OR push_bit 8 (ucast (byte_of 1 a)) OR ucast (byte_of 0 a)
   = take_bit 24 (a :: u32)"
proof (rule bit_word_eqI, goal_cases)
  case (1 n)
  show ?case
    by (cases "n < 16") (auto simp: byte_of_def bit_simps dest: bit_imp_le_length)
qed

lemma received_addr_bytes:
  assumes "unat addr < 2 ^ 24"
  shows "received_addr ([x, byte_of 2 addr, byte_of 1 addr, byte_of 0 addr] @ xs) = addr"
proof -
  have "take_bit 24 addr = addr" using assms by (simp add: word_unat_eq_iff unsigned_take_bit_eq take_bit_nat_eq_self)
  moreover have "received_addr ([x, byte_of 2 addr, byte_of 1 addr, byte_of 0 addr] @ xs) = take_bit 24 addr"
    using addr_bytes [of addr] by (simp add: received_addr_def)
  ultimately show ?thesis by simp
qed

lemma memory_bus_zeros:
  assumes "4 \<le> length st"
  shows "exchanges (memory_bus m) (replicate n 0) st =
    (map (\<lambda>i. m (received_addr st + of_nat (length st - 4 + i))) [0..<n], st @ replicate n 0)"
  using assms
proof (induction n arbitrary: st)
  case 0
  show ?case by simp
next
  case (Suc n)
  have "received_addr (st @ [0]) = received_addr st" using Suc.prems by (simp add: received_addr_def nth_append)
  moreover have "[0..<Suc n] = 0 # map Suc [0..<n]" by (simp add: map_Suc_upt upt_conv_Cons del: upt_Suc)
  ultimately show ?case
    using Suc.IH [of "st @ [0]"] Suc.prems
    by (simp add: memory_bus_def Suc_diff_le replicate_append_same [symmetric] comp_def del: upt_Suc replicate_Suc)
      (simp add: replicate_app_Cons_same)
qed

lemma memory_bus_flash: "serial_flash (memory_bus m) (\<lambda>_. m)"
  unfolding serial_flash_def
proof (intro allI impI conjI)
  fix addr :: u32 and n d rs d'
  let ?h = "[0x03, byte_of 2 addr, byte_of 1 addr, byte_of 0 addr]"
  assume n: "unat addr + n \<le> 2 ^ 24"
    and ex: "exchanges (memory_bus m) (?h @ replicate n 0) (ef_ss_low (memory_bus m) d) = (rs, d')"
  have h: "exchanges (memory_bus m) ?h [] = ([0, 0, 0, 0], ?h)" by (simp add: memory_bus_def)
  have "ef_ss_low (memory_bus m) d = []" by (simp add: memory_bus_def)
  with ex have "rs = [0, 0, 0, 0] @ map (\<lambda>i. m (received_addr ?h + of_nat i)) [0..<n]"
    unfolding exchanges_append using h memory_bus_zeros [of ?h m n] by simp
  moreover have "received_addr ?h = addr" if "0 < n"
    using received_addr_bytes [of addr _ "[]"] n that by simp
  ultimately show "drop 4 rs = map (\<lambda>i. m (addr + of_nat i)) [0..<n]" by (cases n) auto
qed simp


end
