(* ===== verification/Net.thy ===== *)
theory Net
  imports Ext_Flash
begin

text \<open>
  The W5100 network chip as \<^verbatim>\<open>net.c\<close> drives it: register access by frames of four bytes,
  and the initialisation from the settings in the external flash.
\<close>

section \<open>The code\<close>

abbreviation SPI_WRITE :: u8 where "SPI_WRITE \<equiv> 0xF0"
abbreviation SPI_READ :: u8 where "SPI_READ \<equiv> 0x0F"

definition netWriteReg :: "'d bus \<Rightarrow> u16 \<Rightarrow> u8 \<Rightarrow> 'd \<Rightarrow> 'd" where
  "netWriteReg b address value d =
     (let d1 = ss_low b d;
          d2 = snd (exchange b SPI_WRITE d1);
          d3 = snd (exchange b (byte_of 1 address) d2);
          d4 = snd (exchange b (byte_of 0 address) d3);
          d5 = snd (exchange b value d4)
      in ss_high b d5)"

definition netReadReg :: "'d bus \<Rightarrow> u16 \<Rightarrow> 'd \<Rightarrow> u8 \<times> 'd" where
  "netReadReg b address d =
     (let d1 = ss_low b d;
          d2 = snd (exchange b SPI_READ d1);
          d3 = snd (exchange b (byte_of 1 address) d2);
          d4 = snd (exchange b (byte_of 0 address) d3);
          (returnValue, d5) = exchange b 0 d4
      in (returnValue, ss_high b d5))"

definition be_word :: "u8 \<Rightarrow> u8 \<Rightarrow> u16" where
  "be_word H L = push_bit 8 (ucast H) OR ucast L"

definition netReadWord :: "'d bus \<Rightarrow> u16 \<Rightarrow> 'd \<Rightarrow> u16 \<times> 'd" where
  "netReadWord b address d =
     (let (H, d1) = netReadReg b address d;
          (L, d2) = netReadReg b (address + 1) d1
      in (be_word H L, d2))"

definition netWriteWord :: "'d bus \<Rightarrow> u16 \<Rightarrow> u16 \<Rightarrow> 'd \<Rightarrow> 'd" where
  "netWriteWord b address value d =
     netWriteReg b (address + 1) (byte_of 0 value) (netWriteReg b address (byte_of 1 value) d)"

definition REGISTER_BLOCK_SIZE :: nat where
  "REGISTER_BLOCK_SIZE = 28"

definition default_registerBuffer :: "u8 list" where
  "default_registerBuffer =
     [0x80, 192, 168, 0, 17, 255, 255, 255, 0, 0x12, 0x34, 0x45, 0x78, 0x9A, 0xBC, 192, 168, 0, 1,
      0, 0, 0, 0, 0x07, 0xd0, 0x80, 0x55, 0x55]"

fun write_registers :: "'d bus \<Rightarrow> nat \<Rightarrow> u8 list \<Rightarrow> 'd \<Rightarrow> 'd" where
  "write_registers b i [] d = d"
| "write_registers b i (v # vs) d = write_registers b (Suc i) vs (netWriteReg b (of_nat i) v d)"

definition copy_settings :: "u8 list \<Rightarrow> u8 list \<Rightarrow> u8 list" where
  "copy_settings tftp_regs registerBuffer =
     fold (\<lambda>i regs. regs[i := tftp_regs ! i]) [1..<19] registerBuffer"

text \<open>
  Result: the register block and the bus. The 20 bytes of the local array are all written by
  the read, so its first content does not matter.
\<close>

definition netInit :: "'d bus \<Rightarrow> u8 list \<Rightarrow> 'd \<Rightarrow> u8 list \<times> 'd" where
  "netInit b registerBuffer d =
     (let (tftp_regs, d1) = ext_flash_read_system_data b 1 (replicate 20 0) 20 d;
          regs = (if tftp_regs ! 0 = 0x55 \<and> tftp_regs ! 19 = 0xAA
                  then copy_settings tftp_regs registerBuffer else registerBuffer)
      in (regs, write_registers b 0 (take REGISTER_BLOCK_SIZE regs) d1))"

section \<open>What the chip does with the frames\<close>

text \<open>
  The documented behaviour of the chip, for a view \<open>reg\<close> of its address space. A read frame
  answers the byte at its address; a write frame changes it. Some registers change by
  themselves (\<open>volatile\<close>): the command register is cleared when a command has been
  accepted, and the status, interrupt and size registers follow the network.
\<close>

definition volatile :: "u16 \<Rightarrow> bool" where
  "volatile a \<longleftrightarrow> a \<in> set [0x015, 0x701, 0x702, 0x703, 0x720, 0x721, 0x722, 0x723, 0x726, 0x727]"

definition w5100 :: "'d bus \<Rightarrow> ('d \<Rightarrow> u16 \<Rightarrow> u8) \<Rightarrow> bool" where
  "w5100 b reg \<longleftrightarrow>
     (\<forall>a d rs d'. exchanges b [SPI_READ, byte_of 1 a, byte_of 0 a, 0] (ss_low b d) = (rs, d') \<longrightarrow>
        rs ! 3 = reg d a \<and> (\<forall>x. \<not> volatile x \<longrightarrow> reg (ss_high b d') x = reg d x)) \<and>
     (\<forall>a v d rs d'. exchanges b [SPI_WRITE, byte_of 1 a, byte_of 0 a, v] (ss_low b d) = (rs, d') \<longrightarrow>
        (\<forall>x. \<not> volatile x \<longrightarrow> reg (ss_high b d') x = (if x = a then v else reg d x)))"

lemma netReadReg_exchanges:
  "netReadReg b a d = (case exchanges b [SPI_READ, byte_of 1 a, byte_of 0 a, 0] (ss_low b d) of
     (rs, d') \<Rightarrow> (rs ! 3, ss_high b d'))"
  by (simp add: netReadReg_def Let_def case_prod_beta)

lemma netWriteReg_exchanges:
  "netWriteReg b a v d = (case exchanges b [SPI_WRITE, byte_of 1 a, byte_of 0 a, v] (ss_low b d) of
     (rs, d') \<Rightarrow> ss_high b d')"
  by (simp add: netWriteReg_def Let_def case_prod_beta)

lemma netReadReg_reg:
  assumes "w5100 b reg" "netReadReg b a d = (v, d')"
  shows "v = reg d a" "\<not> volatile x \<Longrightarrow> reg d' x = reg d x"
proof -
  obtain rs d5 where "exchanges b [SPI_READ, byte_of 1 a, byte_of 0 a, 0] (ss_low b d) = (rs, d5)"
    "v = rs ! 3" "d' = ss_high b d5"
    using assms(2) unfolding netReadReg_exchanges by (auto split: prod.splits simp del: exchanges.simps)
  with assms(1) show "v = reg d a" "\<not> volatile x \<Longrightarrow> reg d' x = reg d x"
    unfolding w5100_def by metis+
qed

lemma netWriteReg_reg:
  assumes "w5100 b reg" "\<not> volatile x"
  shows "reg (netWriteReg b a v d) x = (if x = a then v else reg d x)"
proof -
  obtain rs d5 where "exchanges b [SPI_WRITE, byte_of 1 a, byte_of 0 a, v] (ss_low b d) = (rs, d5)"
    by fastforce
  then show ?thesis using assms unfolding w5100_def netWriteReg_exchanges by simp
qed

lemma be_word_bytes [simp]: "be_word (byte_of 1 w) (byte_of 0 w) = w"
proof (rule bit_word_eqI, goal_cases)
  case (1 n)
  then show ?case
    by (cases "n < 8") (auto simp: be_word_def byte_of_def bit_simps dest: bit_imp_le_length)
qed

lemmas be_word_bytes_Suc [simp] = be_word_bytes [unfolded One_nat_def]

lemma netWriteWord_reg:
  assumes "w5100 b reg" "\<not> volatile x"
  shows "reg (netWriteWord b a w d) x =
    (if x = a + 1 then byte_of 0 w else if x = a then byte_of 1 w else reg d x)"
  using assms by (auto simp: netWriteWord_def netWriteReg_reg)

lemma netReadWord_reg:
  assumes "w5100 b reg" "netReadWord b a d = (w, d')" "\<not> volatile (a + 1)"
  shows "w = be_word (reg d a) (reg d (a + 1))" "\<not> volatile x \<Longrightarrow> reg d' x = reg d x"
proof -
  obtain H d1 L where r: "netReadReg b a d = (H, d1)" "netReadReg b (a + 1) d1 = (L, d')" "w = be_word H L"
    using assms(2) by (auto simp: netReadWord_def Let_def split: prod.splits)
  note r1 = netReadReg_reg [OF assms(1) r(1)] and r2 = netReadReg_reg [OF assms(1) r(2)]
  show "w = be_word (reg d a) (reg d (a + 1))" using r(3) r1 r2(1) assms(3) by simp
  show "\<not> volatile x \<Longrightarrow> reg d' x = reg d x" using r1(2) r2(2) by simp
qed

text \<open>
  A word written is the word read back.
\<close>

lemma netWord_roundtrip:
  assumes "w5100 b reg" "\<not> volatile a" "\<not> volatile (a + 1)"
  shows "fst (netReadWord b a (netWriteWord b a w d)) = w"
proof -
  have "a \<noteq> a + 1" by (metis add_cancel_right_right zero_neq_one)
  then show ?thesis
    using netReadWord_reg(1) [OF assms(1) _ assms(3), of "netWriteWord b a w d"] assms(2,3)
    by (cases "netReadWord b a (netWriteWord b a w d)") (simp add: netWriteWord_reg [OF assms(1)])
qed

lemma write_registers_reg:
  assumes "w5100 b reg" "\<not> volatile x" "i + length vs \<le> 65536"
  shows "reg (write_registers b i vs d) x =
    (if i \<le> unat x \<and> unat x < i + length vs then vs ! (unat x - i) else reg d x)"
  using assms(3)
proof (induction vs arbitrary: i d)
  case Nil
  then show ?case by auto
next
  case (Cons v vs)
  have i: "unat (of_nat i :: u16) = i" using Cons.prems by (intro unat_of_nat_u16) simp
  then have "x = of_nat i \<longleftrightarrow> unat x = i" by (metis word_unat_eq_iff)
  with Cons show ?case by (auto simp: netWriteReg_reg [OF assms(1,2)] nth_Cons' less_Suc_eq_le)
qed

lemma copy_settings_nth:
  assumes "length regs = 28" "i < 28"
  shows "length (copy_settings t regs) = 28"
    "copy_settings t regs ! i = (if 1 \<le> i \<and> i < 19 then t ! i else regs ! i)"
proof -
  have *: "length (fold (\<lambda>i regs. regs[i := t ! i]) [1..<n] regs) = 28
      \<and> fold (\<lambda>i regs. regs[i := t ! i]) [1..<n] regs ! i = (if 1 \<le> i \<and> i < n then t ! i else regs ! i)"
    if "n \<le> 28" for n
    using that
  proof (induction n)
    case 0
    then show ?case using assms by simp
  next
    case (Suc n)
    then show ?case using assms by (cases "n = 0") (auto simp: nth_list_update less_Suc_eq)
  qed
  from * [of 19] show "length (copy_settings t regs) = 28"
    "copy_settings t regs ! i = (if 1 \<le> i \<and> i < 19 then t ! i else regs ! i)"
    by (simp_all add: copy_settings_def)
qed


text \<open>
  A chip for the concrete cases: its registers and the bytes of the current frame. The
  command register is cleared at once; \<open>OPEN\<close> and \<open>CLOSE\<close> set the socket's status.
\<close>

definition chip_store :: "(u16 \<Rightarrow> u8) \<Rightarrow> u16 \<Rightarrow> u8 \<Rightarrow> u16 \<Rightarrow> u8" where
  "chip_store m a v =
     (if a = 0x701 then m(0x701 := 0, 0x703 := (if v = 0x01 then 0x22 else if v = 0x10 then 0 else m 0x703))
      else m(a := v))"

definition chip_load :: "(u16 \<Rightarrow> u8) \<Rightarrow> u16 \<Rightarrow> u8" where
  "chip_load m a = (if a = 0x701 then 0 else m a)"

definition register_bus :: "((u16 \<Rightarrow> u8) \<times> u8 list) bus" where
  "register_bus = \<lparr>ss_low = \<lambda>(m, f). (m, []), ss_high = \<lambda>(m, f). (m, [0]), ef_ss_low = \<lambda>(m, f). (m, [0]),
     ef_ss_high = \<lambda>(m, f). (m, [0]),
     exchange = \<lambda>x (m, f).
       (if length f = 3 \<and> f ! 0 = SPI_READ then chip_load m (be_word (f ! 1) (f ! 2)) else 0,
        (if length f = 3 \<and> f ! 0 = SPI_WRITE then chip_store m (be_word (f ! 1) (f ! 2)) x else m, f @ [x]))\<rparr>"

lemma register_bus_read:
  "exchanges register_bus [SPI_READ, byte_of 1 a, byte_of 0 a, 0] (m, []) =
     ([0, 0, 0, chip_load m a], m, [SPI_READ, byte_of 1 a, byte_of 0 a, 0])"
  by (simp add: register_bus_def)

lemma register_bus_write:
  "exchanges register_bus [SPI_WRITE, byte_of 1 a, byte_of 0 a, v] (m, []) =
     ([0, 0, 0, 0], chip_store m a v, [SPI_WRITE, byte_of 1 a, byte_of 0 a, v])"
  by (simp add: register_bus_def)

lemma register_bus_low: "ss_low register_bus d = (fst d, [])"
  by (simp add: register_bus_def case_prod_beta)

lemma register_bus_high: "fst (ss_high register_bus d) = fst d"
  by (simp add: register_bus_def case_prod_beta)

lemma register_bus_w5100: "w5100 register_bus (\<lambda>d. chip_load (fst d))"
  unfolding w5100_def register_bus_low register_bus_read register_bus_write register_bus_high
  by (auto simp: chip_store_def chip_load_def volatile_def)

lemma register_bus_settings:
  "fst (ext_flash_read_system_data register_bus 1 (replicate 20 0) 20 d) = replicate 20 0"
proof -
  have z: "fst (exchanges register_bus (replicate n 0) (m, f)) = replicate n 0" if "f \<noteq> []" "f ! 0 = 0" for n m f
    using that
  proof (induction n arbitrary: f)
    case (Suc n)
    from Suc.IH [of "f @ [0]"] Suc.prems show ?case
      by (simp add: register_bus_def nth_append case_prod_beta Let_def)
  qed simp
  obtain m f where d: "write_bytes register_bus [0x48, 0, push_bit 4 (1 + 1), 0] (ef_ss_low register_bus d) = (m, f)"
    "f \<noteq> []" "f ! 0 = 0"
    by (simp add: register_bus_def case_prod_beta ext_flash_RW_byte_def)
  have "snd (ext_flash_RW_byte register_bus 0 (m, f)) = (fst (snd (exchange register_bus 0 (m, f))), f @ [0])"
    by (simp add: register_bus_def ext_flash_RW_byte_def)
  then show ?thesis
    using d z [of "f @ [0]" 20 "fst (snd (exchange register_bus 0 (m, f)))"]
    by (simp add: ext_flash_read_system_data_def ext_flash_cmd_head_def Let_def read_bytes_exchanges
        case_prod_beta nth_append)
qed


lemma register_bus_netReadReg: "netReadReg register_bus a (m, f) = (chip_load m a, m, [0])"
  unfolding netReadReg_exchanges register_bus_low fst_conv register_bus_read
  by (simp add: register_bus_def)

lemma register_bus_netWriteReg: "netWriteReg register_bus a v (m, f) = (chip_store m a v, [0])"
  unfolding netWriteReg_exchanges register_bus_low fst_conv register_bus_write
  by (simp add: register_bus_def)

end
