(* ===== verification/Tftp.thy ===== *)
theory Tftp
  imports Net
begin

text \<open>
  The TFTP server of the boot loader, \<^verbatim>\<open>tftp.c\<close> and \<^verbatim>\<open>tftp_main.c\<close>. A packet is copied
  from the receive memory of the chip into a buffer on the stack, decoded and answered. The
  loops that wait for the chip are \<open>partial_function\<close>s; an access outside the stack buffer
  is an error value. \<^verbatim>\<open>int\<close> has 16 bits on the controller.
\<close>

section \<open>State and constants\<close>

abbreviation REG_S3_MR :: u16 where "REG_S3_MR \<equiv> 0x700"
abbreviation REG_S3_CR :: u16 where "REG_S3_CR \<equiv> 0x701"
abbreviation REG_S3_SR :: u16 where "REG_S3_SR \<equiv> 0x703"
abbreviation REG_S3_PORT0 :: u16 where "REG_S3_PORT0 \<equiv> 0x704"
abbreviation REG_S3_DIPR0 :: u16 where "REG_S3_DIPR0 \<equiv> 0x70C"
abbreviation REG_S3_TX_WR0 :: u16 where "REG_S3_TX_WR0 \<equiv> 0x724"
abbreviation REG_S3_RX_RSR0 :: u16 where "REG_S3_RX_RSR0 \<equiv> 0x726"
abbreviation REG_S3_RX_RD0 :: u16 where "REG_S3_RX_RD0 \<equiv> 0x728"
abbreviation S3_TX_START :: u16 where "S3_TX_START \<equiv> 0x5800"
abbreviation S3_TX_END :: u16 where "S3_TX_END \<equiv> 0x6000"
abbreviation S3_RX_START :: u16 where "S3_RX_START \<equiv> 0x7800"
abbreviation MR_UDP :: u8 where "MR_UDP \<equiv> 0x02"
abbreviation CR_OPEN :: u8 where "CR_OPEN \<equiv> 0x01"
abbreviation CR_CLOSE :: u8 where "CR_CLOSE \<equiv> 0x10"
abbreviation CR_SEND :: u8 where "CR_SEND \<equiv> 0x20"
abbreviation CR_RECV :: u8 where "CR_RECV \<equiv> 0x40"
abbreviation SOCK_UDP :: u8 where "SOCK_UDP \<equiv> 0x22"
abbreviation TFTP_PORT :: u16 where "TFTP_PORT \<equiv> 69"

abbreviation ERROR_UNKNOWN :: u8 where "ERROR_UNKNOWN \<equiv> 0"
abbreviation ERROR_INVALID :: u8 where "ERROR_INVALID \<equiv> 1"
abbreviation ACK :: u8 where "ACK \<equiv> 2"
abbreviation ERROR_FULL :: u8 where "ERROR_FULL \<equiv> 3"
abbreviation FINAL_ACK :: u8 where "FINAL_ACK \<equiv> 4"
abbreviation INVALID_IMAGE :: u8 where "INVALID_IMAGE \<equiv> 5"

definition TFTP_PACKET_MAX_SIZE :: nat where
  "TFTP_PACKET_MAX_SIZE = 12 + 2 + 2 + TFTP_MAX_PAYLOAD"

record 'd tftp =
  lastPacket :: u16
  DownloadStarted :: bool
  tick :: u16
  chip :: 'd
  ldr :: ihex

datatype mem_error = Buffer_Overflow | Buffer_Overread

text \<open>The next step of a computation that may fail or not return.\<close>

definition andThen :: "('e + 'a) option \<Rightarrow> ('a \<Rightarrow> ('e + 'b) option) \<Rightarrow> ('e + 'b) option" where
  "andThen m f = Option.bind m (\<lambda>r. case r of Inl e \<Rightarrow> Some (Inl e) | Inr x \<Rightarrow> f x)"

lemma andThen_simps [simp]:
  "andThen None f = None" "andThen (Some (Inl e)) f = Some (Inl e)" "andThen (Some (Inr x)) f = f x"
  by (simp_all add: andThen_def)

section \<open>Receiving\<close>

text \<open>\<^verbatim>\<open>while (netReadReg(REG_S3_CR));\<close>\<close>

partial_function (option) wait_command :: "'d bus \<Rightarrow> 'd \<Rightarrow> 'd option" where
  "wait_command b d =
     (let (v, d1) = netReadReg b REG_S3_CR d in if v = 0 then Some d1 else wait_command b d1)"

text \<open>
  Copy \<open>count\<close> bytes to the buffer from position \<open>i\<close> on; the read pointer wraps at the end
  of the receive memory.
\<close>

fun read_packet :: "'d bus \<Rightarrow> nat \<Rightarrow> nat \<Rightarrow> u16 \<Rightarrow> u8 list \<Rightarrow> 'd \<Rightarrow> mem_error + (u8 list \<times> 'd)" where
  "read_packet b 0 i readPointer buffer d = Inr (buffer, d)"
| "read_packet b (Suc count) i readPointer buffer d =
     (let (v, d1) = netReadReg b (S3_RX_START + readPointer) d
      in if TFTP_PACKET_MAX_SIZE \<le> i then Inl Buffer_Overflow
         else read_packet b count (Suc i) (if readPointer + 1 = 0x800 then 0 else readPointer + 1)
                (buffer[i := v]) d1)"

text \<open>\<^verbatim>\<open>do { ... } while (netReadReg(REG_S3_SR) != SOCK_UDP)\<close>, on the given port.\<close>

partial_function (option) open_wrq :: "'d bus \<Rightarrow> u16 \<Rightarrow> 'd \<Rightarrow> 'd option" where
  "open_wrq b port d =
     (let d1 = netWriteReg b REG_S3_MR MR_UDP d;
          d2 = netWriteReg b REG_S3_CR CR_OPEN d1;
          d3 = netWriteWord b REG_S3_PORT0 port d2;
          (sr, d4) = netReadReg b REG_S3_SR d3;
          d5 = (if sr \<noteq> SOCK_UDP then netWriteReg b REG_S3_CR CR_CLOSE d4 else d4);
          (sr', d6) = netReadReg b REG_S3_SR d5
      in if sr' \<noteq> SOCK_UDP then open_wrq b port d6 else Some d6)"

text \<open>\<^verbatim>\<open>(buffer[4]<<8) | ~buffer[5]\<close>, computed in 16 bits.\<close>

definition wrq_port :: "u8 list \<Rightarrow> u16" where
  "wrq_port buffer = push_bit 8 (ucast (buffer ! 4)) OR NOT (ucast (buffer ! 5))"

text \<open>The six bytes of the sender's address and port go to the destination registers.\<close>

definition set_destination :: "'d bus \<Rightarrow> u8 list \<Rightarrow> 'd \<Rightarrow> 'd" where
  "set_destination b buffer d =
     fold (\<lambda>i d. netWriteReg b (REG_S3_DIPR0 + of_nat i) (buffer ! i) d) [0..<6] d"

text \<open>The \<^verbatim>\<open>switch\<close> on the opcode.\<close>

definition handle_opcode :: "'d bus \<Rightarrow> u8 list \<Rightarrow> u16 \<Rightarrow> 'd tftp \<Rightarrow> (mem_error + u8 \<times> 'd tftp) option" where
  "handle_opcode b buffer UDPPacketSize s =
     (let tftpOpcode = push_bit 8 (ucast (buffer ! 8)) + ucast (buffer ! 9) :: u16;
          tftpBlock = push_bit 8 (ucast (buffer ! 10)) + ucast (buffer ! 11) :: u16
      in if tftpOpcode = 2 then
           let d1 = netWriteReg b REG_S3_CR CR_RECV (chip s);
               d2 = netWriteReg b REG_S3_CR CR_CLOSE d1
           in Option.bind (open_wrq b (wrq_port buffer) d2)
                (\<lambda>d3. Some (Inr (ACK, s\<lparr>chip := d3, lastPacket := 0\<rparr>)))
         else if tftpOpcode = 3 then
           let s1 = s\<lparr>lastPacket := tftpBlock\<rparr>;
               len = UDPPacketSize - 12
           in if TFTP_PACKET_MAX_SIZE < 12 + unat len then Some (Inl Buffer_Overread)
              else Option.bind (ihex_package_process (take (unat len) (drop 12 buffer)) (ldr s1))
                     (\<lambda>(status, l).
                       let s2 = s1\<lparr>ldr := l\<rparr>
                       in Some (Inr (if status < 0 then INVALID_IMAGE
                                     else if len < 512 then FINAL_ACK else ACK, s2)))
         else if tftpOpcode = 4 \<or> tftpOpcode = 5 then Some (Inr (ERROR_UNKNOWN, s))
         else Some (Inr (ERROR_INVALID, s)))"

text \<open>
  The whole handler; \<open>stack\<close> is what the uninitialised buffer holds. The result is the
  response code with the state.
\<close>

definition processPacket :: "'d bus \<Rightarrow> u8 list \<Rightarrow> 'd tftp \<Rightarrow> (mem_error + u8 \<times> 'd tftp) option" where
  "processPacket b stack s =
     (let (readPointerBase, d1) = netReadWord b REG_S3_RX_RD0 (chip s);
          readPointer = (if 0x800 < readPointerBase then readPointerBase AND 0x7FF else readPointerBase);
          (H, d2) = netReadReg b (readPointer + S3_RX_START + 6) d1;
          (L, d3) = netReadReg b (readPointer + S3_RX_START + 7) d2;
          UDPPacketSize = push_bit 8 (ucast H) + ucast L + 8
      in case read_packet b (unat (UDPPacketSize + 1)) 0 readPointer stack d3 of
           Inl e \<Rightarrow> Some (Inl e)
         | Inr (buffer, d4) \<Rightarrow>
             let d5 = netWriteWord b REG_S3_RX_RD0 (UDPPacketSize + readPointerBase) d4;
                 d6 = netWriteReg b REG_S3_CR CR_RECV d5
             in Option.bind (wait_command b d6) (\<lambda>d7.
                  handle_opcode b buffer UDPPacketSize (s\<lparr>chip := set_destination b buffer d7\<rparr>)))"

section \<open>Answering\<close>

definition tftp_opcode_error_packet :: "u8 list" where
  "tftp_opcode_error_packet = [0, 5, 0, 4, 79, 112, 99, 111, 100, 101, 63, 0]"

definition tftp_full_error_packet :: "u8 list" where
  "tftp_full_error_packet = [0, 5, 0, 3, 70, 108, 97, 115, 104, 32, 70, 117, 108, 108, 0]"

definition tftp_unknown_error_packet :: "u8 list" where
  "tftp_unknown_error_packet = [0, 5, 0, 0, 69, 114, 114, 111, 114, 0]"

definition tftp_invalid_image_packet :: "u8 list" where
  "tftp_invalid_image_packet =
     [0, 5, 0, 0, 73, 110, 118, 97, 108, 105, 100, 32, 105, 109, 97, 103, 101, 0]"

definition response_packet :: "u8 \<Rightarrow> u16 \<Rightarrow> u8 list" where
  "response_packet response block =
     (if response = INVALID_IMAGE then tftp_invalid_image_packet
      else if response = ERROR_INVALID then tftp_opcode_error_packet
      else if response = ERROR_FULL then tftp_full_error_packet
      else if response = ACK \<or> response = FINAL_ACK then [0, 4, byte_of 1 block, byte_of 0 block]
      else tftp_unknown_error_packet)"

fun write_tx :: "'d bus \<Rightarrow> u16 \<Rightarrow> u8 list \<Rightarrow> 'd \<Rightarrow> u16 \<times> 'd" where
  "write_tx b writePointer [] d = (writePointer, d)"
| "write_tx b writePointer (x # xs) d =
     write_tx b (if writePointer + 1 = S3_TX_END then S3_TX_START else writePointer + 1) xs
       (netWriteReg b writePointer x d)"

definition sendResponse :: "'d bus \<Rightarrow> u8 \<Rightarrow> 'd tftp \<Rightarrow> 'd tftp option" where
  "sendResponse b response s =
     (let (wr, d1) = netReadWord b REG_S3_TX_WR0 (chip s);
          (writePointer, d2) = write_tx b (wr + S3_TX_START) (response_packet response (lastPacket s)) d1;
          d3 = netWriteWord b REG_S3_TX_WR0 (writePointer - S3_TX_START) d2;
          d4 = netWriteReg b REG_S3_CR CR_SEND d3
      in Option.bind (wait_command b d4) (\<lambda>d5. Some (s\<lparr>chip := d5\<rparr>)))"

section \<open>The server loop\<close>

partial_function (option) open_socket :: "'d bus \<Rightarrow> 'd \<Rightarrow> 'd option" where
  "open_socket b d =
     (let d1 = netWriteWord b REG_S3_PORT0 TFTP_PORT d;
          d2 = netWriteReg b REG_S3_MR MR_UDP d1;
          d3 = netWriteReg b REG_S3_CR CR_OPEN d2;
          (sr, d4) = netReadReg b REG_S3_SR d3;
          d5 = (if sr \<noteq> SOCK_UDP then netWriteReg b REG_S3_CR CR_CLOSE d4 else d4);
          (sr', d6) = netReadReg b REG_S3_SR d5
      in if sr' \<noteq> SOCK_UDP then open_socket b d6 else Some d6)"

definition tftpInit :: "'d bus \<Rightarrow> 'd tftp \<Rightarrow> 'd tftp option" where
  "tftpInit b s =
     Option.bind (open_socket b (chip s)) (\<lambda>d.
       Some (s\<lparr>lastPacket := 0, DownloadStarted := False, ldr := ihex_init (ldr s), chip := d\<rparr>))"

definition ResetTick :: "'d tftp \<Rightarrow> 'd tftp" where
  "ResetTick s = s\<lparr>tick := 0\<rparr>"

definition updateLed :: "bool \<Rightarrow> 'd tftp \<Rightarrow> 'd tftp" where
  "updateLed overflow s = (if overflow then s\<lparr>tick := tick s + 1\<rparr> else s)"

definition timedOut :: "'d tftp \<Rightarrow> bool" where
  "timedOut s =
     (if le_word (flash_mem (ih_flash (ldr s)) 0) (flash_mem (ih_flash (ldr s)) 1) = 0xFFFF then False
      else 28 < tick s)"

definition close_socket :: "'d bus \<Rightarrow> 'd tftp \<Rightarrow> 'd tftp" where
  "close_socket b s = s\<lparr>chip := netWriteReg b REG_S3_CR CR_CLOSE (chip s)\<rparr>"

text \<open>The end of \<^verbatim>\<open>tftpPoll\<close>, after a packet (if any) has been answered: the two time-outs.\<close>

definition poll_timeout :: "'d bus \<Rightarrow> 'd tftp \<Rightarrow> (bool \<times> 'd tftp) option" where
  "poll_timeout b s =
     (if timedOut s \<and> DownloadStarted s then
        let s1 = (close_socket b s)\<lparr>DownloadStarted := False\<rparr>;
            s2 = s1\<lparr>ldr := (ldr s1)\<lparr>ih_flash := boot_page_erase_safe 0 (ih_flash (ldr s1))\<rparr>\<rparr>
        in Option.bind (tftpInit b s2) (\<lambda>s3. Some (True, s3))
      else if timedOut s \<and> \<not> DownloadStarted s then Some (False, close_socket b s)
      else Some (True, s))"

definition tftpPoll :: "'d bus \<Rightarrow> u8 list \<Rightarrow> 'd tftp \<Rightarrow> (mem_error + bool \<times> 'd tftp) option" where
  "tftpPoll b stack s =
     (let (packetSize, d) = netReadWord b REG_S3_RX_RSR0 (chip s);
          s0 = s\<lparr>chip := d\<rparr>
      in if packetSize \<noteq> 0 then
           andThen (processPacket b stack s0) (\<lambda>(response, s1).
             Option.bind (sendResponse b response s1) (\<lambda>s2.
               let s3 = ResetTick (s2\<lparr>DownloadStarted := True\<rparr>)
               in if response = FINAL_ACK then Some (Inr (False, close_socket b s3))
                  else Option.bind (poll_timeout b s3) (\<lambda>r. Some (Inr r))))
         else Option.bind (poll_timeout b s0) (\<lambda>r. Some (Inr r)))"

text \<open>
  The main loop. Between two polls the world moves on: \<open>net k\<close> is what happens to the
  chip, \<open>timer k\<close> whether the timer has overflowed.
\<close>

partial_function (option) poll_loop ::
  "'d bus \<Rightarrow> u8 list \<Rightarrow> (nat \<Rightarrow> 'd \<Rightarrow> 'd) \<Rightarrow> (nat \<Rightarrow> bool) \<Rightarrow> nat \<Rightarrow> 'd tftp \<Rightarrow> (mem_error + 'd tftp) option" where
  "poll_loop b stack net timer k s =
     Option.bind (tftpPoll b stack (s\<lparr>chip := net k (chip s)\<rparr>)) (\<lambda>r.
       case r of
         Inl e \<Rightarrow> Some (Inl e)
       | Inr (continue, s1) \<Rightarrow>
           if \<not> continue then Some (Inr s1)
           else poll_loop b stack net timer (Suc k) (updateLed (timer k) s1))"

definition tftp_main ::
  "'d bus \<Rightarrow> u8 list \<Rightarrow> (nat \<Rightarrow> 'd \<Rightarrow> 'd) \<Rightarrow> (nat \<Rightarrow> bool) \<Rightarrow> 'd tftp \<Rightarrow> (mem_error + 'd tftp) option" where
  "tftp_main b stack net timer s =
     (let s1 = ResetTick s;
          (regs, d) = netInit b default_registerBuffer (chip s1)
      in Option.bind (tftpInit b (s1\<lparr>chip := d\<rparr>)) (\<lambda>s2. poll_loop b stack net timer 0 s2))"

end
