(* ===== verification/Tftp_Props.thy ===== *)
theory Tftp_Props
  imports Tftp
begin

text \<open>
  What the TFTP server does on a chip that behaves as documented: packets are taken out of the
  receive ring, data blocks reach the hex loader, answers go into the transmit ring, and an
  interrupted download never becomes a program that is started. Two theorems show where the
  code goes wrong: packets that are longer than the stack buffer, and write requests that
  meet a loader in the middle of a file.
\<close>

section \<open>The receive ring\<close>

lemma memory_not_volatile: "0x4000 \<le> unat a \<Longrightarrow> \<not> volatile a"
  by (auto simp: volatile_def)

lemma memory_not_register:
  "0x4000 \<le> unat a \<Longrightarrow> \<not> volatile a \<and> a \<noteq> REG_S3_TX_WR0 \<and> a \<noteq> REG_S3_TX_WR0 + 1 \<and> a \<noteq> REG_S3_CR"
  by (auto simp: volatile_def)

definition rx_byte :: "(u16 \<Rightarrow> u8) \<Rightarrow> u16 \<Rightarrow> nat \<Rightarrow> u8" where
  "rx_byte m base i = m (S3_RX_START + of_nat ((unat base + i) mod 0x800))"

lemma rx_address:
  assumes "p < 0x800"
  shows "unat (S3_RX_START + of_nat p) = 0x7800 + p"
  using assms by (simp add: unat_word_ariths unat_of_nat)

lemma read_packet_ring:
  assumes "w5100 b reg" "p < 0x800" "i + count \<le> TFTP_PACKET_MAX_SIZE" "length buffer = TFTP_PACKET_MAX_SIZE"
    and "\<forall>x. \<not> volatile x \<longrightarrow> reg d x = m x"
  shows "\<exists>d'. read_packet b count i (of_nat p) buffer d =
      Inr (map (\<lambda>j. if i \<le> j \<and> j < i + count
                    then m (S3_RX_START + of_nat ((p + (j - i)) mod 0x800)) else buffer ! j)
             [0..<TFTP_PACKET_MAX_SIZE], d')
    \<and> (\<forall>x. \<not> volatile x \<longrightarrow> reg d' x = m x)"
  using assms(2-)
proof (induction count arbitrary: i p buffer d)
  case 0
  then show ?case by (auto intro!: nth_equalityI)
next
  case (Suc count)
  obtain v d1 where r: "netReadReg b (S3_RX_START + of_nat p) d = (v, d1)" by fastforce
  have nv: "\<not> volatile (S3_RX_START + of_nat p)"
    by (rule memory_not_volatile) (simp add: rx_address [OF Suc.prems(1)])
  have v: "v = m (S3_RX_START + of_nat p)" and d1: "\<forall>x. \<not> volatile x \<longrightarrow> reg d1 x = m x"
    using netReadReg_reg [OF assms(1) r] Suc.prems(4) nv by auto
  have pu: "unat (of_nat p :: u16) = p" using Suc.prems(1) by (intro unat_of_nat_u16) simp
  have wrap: "(if of_nat p + 1 = (0x800 :: u16) then 0 else of_nat p + 1) = of_nat (Suc p mod 0x800)"
  proof (cases "Suc p = 0x800")
    case True
    then have "(of_nat p + 1 :: u16) = of_nat 0x800" by (metis add.commute of_nat_Suc)
    with True show ?thesis by simp
  next
    case False
    then have "Suc p < 0x800" using Suc.prems(1) by simp
    then have "unat (of_nat (Suc p) :: u16) = Suc p" by (intro unat_of_nat_u16) simp
    moreover have "unat (0x800 :: u16) = 0x800" by simp
    ultimately have "(of_nat (Suc p) :: u16) \<noteq> 0x800" using False by metis
    then have "(of_nat p + 1 :: u16) \<noteq> 0x800" by (simp add: add.commute)
    then show ?thesis using \<open>Suc p < 0x800\<close> by (simp add: add.commute)
  qed
  have i: "\<not> TFTP_PACKET_MAX_SIZE \<le> i" using Suc.prems(2) by simp
  obtain d' where ih: "read_packet b count (Suc i) (of_nat (Suc p mod 0x800)) (buffer[i := v]) d1 =
      Inr (map (\<lambda>j. if Suc i \<le> j \<and> j < Suc i + count
                    then m (S3_RX_START + of_nat ((Suc p mod 0x800 + (j - Suc i)) mod 0x800)) else buffer[i := v] ! j)
             [0..<TFTP_PACKET_MAX_SIZE], d')" "\<forall>x. \<not> volatile x \<longrightarrow> reg d' x = m x"
    using Suc.IH [of "Suc p mod 0x800" "Suc i" "buffer[i := v]" d1] Suc.prems(2,3) d1 by auto
  have "read_packet b (Suc count) i (of_nat p) buffer d =
      read_packet b count (Suc i) (of_nat (Suc p mod 0x800)) (buffer[i := v]) d1"
    unfolding read_packet.simps r wrap using i by simp
  also have "\<dots> = Inr (map (\<lambda>j. if i \<le> j \<and> j < i + Suc count
                    then m (S3_RX_START + of_nat ((p + (j - i)) mod 0x800)) else buffer ! j)
             [0..<TFTP_PACKET_MAX_SIZE], d')"
  proof -
    have "(Suc p mod 0x800 + (j - Suc i)) mod 0x800 = (p + (j - i)) mod 0x800" if "Suc i \<le> j" for j
    proof -
      have e: "Suc p + (j - Suc i) = p + (j - i)" using that by simp
      have "(Suc p mod 0x800 + (j - Suc i)) mod 0x800 = (Suc p + (j - Suc i)) mod 0x800"
        by (rule mod_add_left_eq)
      then show ?thesis by (simp only: e)
    qed
    then show ?thesis
      unfolding ih(1) using v Suc.prems(1,3) i
      by (auto simp: nth_list_update intro!: map_cong)
  qed
  finally show ?case using ih(2) by blast
qed

lemma read_packet_overflow:
  assumes "i \<le> TFTP_PACKET_MAX_SIZE" "TFTP_PACKET_MAX_SIZE < i + count"
  shows "read_packet b count i readPointer buffer d = Inl Buffer_Overflow"
  using assms
proof (induction count arbitrary: i readPointer buffer d)
  case (Suc count)
  show ?case
  proof (cases "i = TFTP_PACKET_MAX_SIZE")
    case False
    with Suc show ?thesis by (simp add: case_prod_beta Let_def)
  qed (simp add: case_prod_beta Let_def)
qed simp

section \<open>Waiting for the chip\<close>

text \<open>
  The chip clears the command register some time after a command: a sequence of reads
  finds it cleared. Opening a UDP socket succeeds.
\<close>

definition commands_complete :: "'d bus \<Rightarrow> bool" where
  "commands_complete b \<longleftrightarrow>
     (\<forall>d. \<exists>n. fst (netReadReg b REG_S3_CR (((\<lambda>d. snd (netReadReg b REG_S3_CR d)) ^^ n) d)) = 0)"

lemma wait_command_returns:
  assumes "w5100 b reg" "commands_complete b"
  obtains d' where "wait_command b d = Some d'" "\<forall>x. \<not> volatile x \<longrightarrow> reg d' x = reg d x"
proof -
  have "\<exists>d'. wait_command b d = Some d' \<and> (\<forall>x. \<not> volatile x \<longrightarrow> reg d' x = reg d x)"
    if "fst (netReadReg b REG_S3_CR (((\<lambda>d. snd (netReadReg b REG_S3_CR d)) ^^ n) d)) = 0" for n
    using that
  proof (induction n arbitrary: d)
    case 0
    obtain d1 where r: "netReadReg b REG_S3_CR d = (0, d1)" using 0 by (metis funpow_0 prod.collapse)
    then show ?case using netReadReg_reg(2) [OF assms(1) r] by (subst wait_command.simps) simp
  next
    case (Suc n)
    obtain v d1 where r: "netReadReg b REG_S3_CR d = (v, d1)" by fastforce
    have "fst (netReadReg b REG_S3_CR (((\<lambda>d. snd (netReadReg b REG_S3_CR d)) ^^ n) d1)) = 0"
      using Suc.prems r by (simp add: funpow_Suc_right del: funpow.simps)
    from Suc.IH [OF this] netReadReg_reg(2) [OF assms(1) r] r show ?case
      by (subst wait_command.simps) auto
  qed
  with assms(2) that show ?thesis unfolding commands_complete_def by blast
qed

definition sockets_open :: "'d bus \<Rightarrow> bool" where
  "sockets_open b \<longleftrightarrow> (\<forall>d port.
     let d3 = netWriteWord b REG_S3_PORT0 port (netWriteReg b REG_S3_CR CR_OPEN (netWriteReg b REG_S3_MR MR_UDP d));
         d3' = netWriteReg b REG_S3_CR CR_OPEN (netWriteReg b REG_S3_MR MR_UDP (netWriteWord b REG_S3_PORT0 port d))
     in fst (netReadReg b REG_S3_SR d3) = SOCK_UDP \<and> fst (netReadReg b REG_S3_SR (snd (netReadReg b REG_S3_SR d3))) = SOCK_UDP
      \<and> fst (netReadReg b REG_S3_SR d3') = SOCK_UDP \<and> fst (netReadReg b REG_S3_SR (snd (netReadReg b REG_S3_SR d3'))) = SOCK_UDP)"

lemma reg_simps:
  assumes "w5100 b reg" "\<not> volatile x"
  shows "reg (snd (netReadReg b a d)) x = reg d x"
  using netReadReg_reg(2) [OF assms(1) prod.collapse [symmetric] assms(2)] .

lemma open_wrq_returns:
  assumes "w5100 b reg" "sockets_open b"
  obtains d' where "open_wrq b port d = Some d'"
    "\<forall>x. \<not> volatile x \<longrightarrow> reg d' x = (if x = REG_S3_PORT0 + 1 then byte_of 0 port
        else if x = REG_S3_PORT0 then byte_of 1 port else if x = REG_S3_MR then MR_UDP else reg d x)"
proof -
  let ?d3 = "netWriteWord b REG_S3_PORT0 port (netWriteReg b REG_S3_CR CR_OPEN (netWriteReg b REG_S3_MR MR_UDP d))"
  let ?d = "snd (netReadReg b REG_S3_SR (snd (netReadReg b REG_S3_SR ?d3)))"
  have "fst (netReadReg b REG_S3_SR ?d3) = SOCK_UDP"
    "fst (netReadReg b REG_S3_SR (snd (netReadReg b REG_S3_SR ?d3))) = SOCK_UDP"
    using assms(2) by (auto simp: sockets_open_def Let_def)
  then have "open_wrq b port d = Some ?d"
    by (subst open_wrq.simps) (simp add: Let_def case_prod_beta)
  moreover have "\<forall>x. \<not> volatile x \<longrightarrow> reg ?d x = (if x = REG_S3_PORT0 + 1 then byte_of 0 port
        else if x = REG_S3_PORT0 then byte_of 1 port else if x = REG_S3_MR then MR_UDP else reg d x)"
    using assms(1) by (auto simp: reg_simps netWriteWord_reg netWriteReg_reg volatile_def)
  ultimately show ?thesis by (rule that)
qed

section \<open>A packet\<close>

text \<open>
  The read pointer register and, for a packet that starts there, the size the code computes
  from the header of the chip: the payload with the 8 bytes of the header.
\<close>

definition rx_base :: "(u16 \<Rightarrow> u8) \<Rightarrow> u16" where
  "rx_base m = be_word (m REG_S3_RX_RD0) (m (REG_S3_RX_RD0 + 1))"

definition udp_size :: "(u16 \<Rightarrow> u8) \<Rightarrow> u16" where
  "udp_size m = push_bit 8 (ucast (rx_byte m (rx_base m) 6)) + ucast (rx_byte m (rx_base m) 7) + 8"

text \<open>The packet in the buffer, and what its reception leaves in the registers.\<close>

definition packet_buffer :: "(u16 \<Rightarrow> u8) \<Rightarrow> u8 list \<Rightarrow> u8 list" where
  "packet_buffer m stack =
     map (\<lambda>j. if j \<le> unat (udp_size m) then rx_byte m (rx_base m) j else stack ! j) [0..<TFTP_PACKET_MAX_SIZE]"

definition after_receive :: "(u16 \<Rightarrow> u8) \<Rightarrow> u16 \<Rightarrow> u8" where
  "after_receive m x =
     (if x = REG_S3_RX_RD0 then byte_of 1 (udp_size m + rx_base m)
      else if x = REG_S3_RX_RD0 + 1 then byte_of 0 (udp_size m + rx_base m)
      else if 0x70C \<le> unat x \<and> unat x < 0x712 then rx_byte m (rx_base m) (unat x - 0x70C)
      else m x)"

text \<open>A packet whose header does not straddle the end of the ring, at a pointer other than 2048.\<close>

definition regular_packet :: "(u16 \<Rightarrow> u8) \<Rightarrow> bool" where
  "regular_packet m \<longleftrightarrow> rx_base m \<noteq> 0x800 \<and> unat (rx_base m) mod 0x800 \<le> 0x7F8"

lemma masked_pointer:
  assumes "(base :: u16) \<noteq> 0x800"
  shows "(if 0x800 < base then base AND 0x7FF else base) = of_nat (unat base mod 0x800)"
proof -
  have mask: "base AND 0x7FF = of_nat (unat base mod 0x800)"
  proof -
    have "(0x7FF :: u16) = mask 11" by (simp add: mask_eq_exp_minus_1)
    then have "base AND 0x7FF = take_bit 11 base" by (simp only: take_bit_eq_mask)
    then show ?thesis by (simp add: word_unat_eq_iff unsigned_take_bit_eq take_bit_eq_mod unat_of_nat unat_mod)
  qed
  show ?thesis
  proof (cases "0x800 < base")
    case False
    with assms have "unat base < 0x800" by (simp add: word_less_nat_alt word_unat_eq_iff)
    with False show ?thesis by simp
  qed (simp add: mask)
qed

lemma set_destination_reg:
  assumes "w5100 b reg" "\<not> volatile x"
  shows "reg (set_destination b buffer d) x =
    (if 0x70C \<le> unat x \<and> unat x < 0x712 then buffer ! (unat x - 0x70C) else reg d x)"
proof -
  have "[0..<6] = [0, 1, 2, 3, 4, 5 :: nat]" by (simp add: upt_rec)
  then have "reg (set_destination b buffer d) x =
     (if x = 0x711 then buffer ! 5 else if x = 0x710 then buffer ! 4 else if x = 0x70F then buffer ! 3
      else if x = 0x70E then buffer ! 2 else if x = 0x70D then buffer ! 1 else if x = 0x70C then buffer ! 0
      else reg d x)"
    by (simp add: set_destination_def netWriteReg_reg [OF assms])
  moreover have "x = 0x70C \<or> x = 0x70D \<or> x = 0x70E \<or> x = 0x70F \<or> x = 0x710 \<or> x = 0x711"
    if "0x70C \<le> unat x" "unat x < 0x712"
  proof -
    from that have "unat x = 0x70C \<or> unat x = 0x70D \<or> unat x = 0x70E \<or> unat x = 0x70F
        \<or> unat x = 0x710 \<or> unat x = 0x711" by linarith
    then show ?thesis by (simp add: word_unat_eq_iff)
  qed
  ultimately show ?thesis by (auto simp: word_unat_eq_iff)
qed

lemma packet_buffer_head:
  assumes "8 \<le> unat (udp_size m)" "k < 8"
  shows "packet_buffer m stack ! k = rx_byte m (rx_base m) k"
  using assms by (simp add: packet_buffer_def TFTP_PACKET_MAX_SIZE_def TFTP_MAX_PAYLOAD_def)

lemma header_bytes:
  assumes "w5100 b reg" "regular_packet m" "\<forall>x. \<not> volatile x \<longrightarrow> reg d1 x = m x"
    and "netReadReg b (of_nat (unat (rx_base m) mod 0x800) + S3_RX_START + 6) d1 = (H, d2)"
    and "netReadReg b (of_nat (unat (rx_base m) mod 0x800) + S3_RX_START + 7) d2 = (L, d3)"
  shows "H = rx_byte m (rx_base m) 6 \<and> L = rx_byte m (rx_base m) 7 \<and> (\<forall>x. \<not> volatile x \<longrightarrow> reg d3 x = m x)"
proof -
  let ?p = "unat (rx_base m) mod 0x800"
  have "rx_byte m (rx_base m) k = m (of_nat ?p + S3_RX_START + of_nat k)" if "k \<le> 7" for k
  proof -
    have "(unat (rx_base m) + k) mod 0x800 = ?p + k"
      using assms(2) that by (simp add: regular_packet_def mod_add_left_eq [of "unat (rx_base m)", symmetric])
    then show ?thesis by (simp add: rx_byte_def algebra_simps)
  qed
  from this [of 6] this [of 7] have
    HL: "rx_byte m (rx_base m) 6 = m (of_nat ?p + S3_RX_START + 6)" "rx_byte m (rx_base m) 7 = m (of_nat ?p + S3_RX_START + 7)"
    by simp_all
  have nv: "\<not> volatile (of_nat ?p + S3_RX_START + 6)" "\<not> volatile (of_nat ?p + S3_RX_START + 7)"
    using assms(2) by (auto intro!: memory_not_volatile simp: regular_packet_def unat_word_ariths unat_of_nat)
  show ?thesis
    using netReadReg_reg [OF assms(1,4)] netReadReg_reg [OF assms(1,5)] assms(3) HL nv by auto
qed

lemma processPacket_receives:
  assumes "w5100 b reg" "commands_complete b" "regular_packet (reg (chip s))"
    and "unat (udp_size (reg (chip s))) < TFTP_PACKET_MAX_SIZE" "length stack = TFTP_PACKET_MAX_SIZE"
    and "8 \<le> unat (udp_size (reg (chip s)))"
  obtains d' where
    "processPacket b stack s = handle_opcode b (packet_buffer (reg (chip s)) stack) (udp_size (reg (chip s))) (s\<lparr>chip := d'\<rparr>)"
    "\<forall>x. \<not> volatile x \<longrightarrow> reg d' x = after_receive (reg (chip s)) x"
proof -
  let ?m = "reg (chip s)" and ?base = "rx_base (reg (chip s))" and ?size = "udp_size (reg (chip s))"
  let ?p = "unat ?base mod 0x800"
  obtain w d1 where w: "netReadWord b REG_S3_RX_RD0 (chip s) = (w, d1)" by fastforce
  have w1: "w = ?base" "\<forall>x. \<not> volatile x \<longrightarrow> reg d1 x = ?m x"
    using netReadWord_reg [OF assms(1) w] by (auto simp: rx_base_def volatile_def)
  obtain H d2 where H: "netReadReg b (of_nat ?p + S3_RX_START + 6) d1 = (H, d2)" by fastforce
  obtain L d3 where L: "netReadReg b (of_nat ?p + S3_RX_START + 7) d2 = (L, d3)" by fastforce
  have HL2: "H = rx_byte ?m ?base 6" "L = rx_byte ?m ?base 7" and d3: "\<forall>x. \<not> volatile x \<longrightarrow> reg d3 x = ?m x"
    using header_bytes [OF assms(1,3) w1(2) H L] by simp_all
  have size: "push_bit 8 (ucast H) + ucast L + 8 = ?size" by (simp add: udp_size_def HL2)
  have cnt: "unat (?size + 1) = unat ?size + 1"
    using assms(4) by (simp add: unat_word_ariths TFTP_PACKET_MAX_SIZE_def TFTP_MAX_PAYLOAD_def)
  obtain d4 where d4: "read_packet b (unat (?size + 1)) 0 (of_nat ?p) stack d3 = Inr (packet_buffer ?m stack, d4)"
    "\<forall>x. \<not> volatile x \<longrightarrow> reg d4 x = ?m x"
    using read_packet_ring [OF assms(1) _ _ assms(5) d3, of ?p 0 "unat (?size + 1)"] assms(4)
    by (auto simp: cnt packet_buffer_def rx_byte_def mod_add_left_eq less_Suc_eq_le)
  let ?d6 = "netWriteReg b REG_S3_CR CR_RECV (netWriteWord b REG_S3_RX_RD0 (?size + ?base) d4)"
  obtain d7 where d7: "wait_command b ?d6 = Some d7" "\<forall>x. \<not> volatile x \<longrightarrow> reg d7 x = reg ?d6 x"
    using wait_command_returns [OF assms(1,2)] by metis
  let ?d = "set_destination b (packet_buffer ?m stack) d7"
  have ptr: "(if 0x800 < ?base then ?base AND 0x7FF else ?base) = of_nat ?p"
    using assms(3) by (intro masked_pointer) (simp add: regular_packet_def)
  have "processPacket b stack s = handle_opcode b (packet_buffer ?m stack) ?size (s\<lparr>chip := ?d\<rparr>)"
    unfolding processPacket_def w w1(1) Let_def prod.case ptr H L size d4(1) sum.case d7(1) by simp
  moreover have "\<forall>x. \<not> volatile x \<longrightarrow> reg ?d x = after_receive ?m x"
    using packet_buffer_head [OF assms(6), of _ stack] d7(2) d4(2)
    by (auto simp: set_destination_reg [OF assms(1)] after_receive_def
        netWriteWord_reg [OF assms(1)] netWriteReg_reg [OF assms(1)] volatile_def)
  ultimately show ?thesis by (rule that)
qed

lemma packet_buffer_nth:
  assumes "unat (udp_size m) < TFTP_PACKET_MAX_SIZE" "k \<le> unat (udp_size m)"
  shows "packet_buffer m stack ! k = rx_byte m (rx_base m) k"
  using assms by (simp add: packet_buffer_def)

lemma packet_payload:
  assumes "unat (udp_size m) < TFTP_PACKET_MAX_SIZE" "12 \<le> unat (udp_size m)"
  shows "take (unat (udp_size m - 12)) (drop 12 (packet_buffer m stack)) =
    map (rx_byte m (rx_base m)) [12..<unat (udp_size m)]"
proof -
  have "unat (udp_size m - 12) = unat (udp_size m) - 12"
    using assms(2) by (simp add: unat_sub word_le_nat_alt)
  then show ?thesis
    using assms by (intro nth_equalityI) (auto simp: packet_buffer_def)
qed



section \<open>A chip for the concrete cases\<close>

lemma register_bus_complete: "commands_complete register_bus"
  unfolding commands_complete_def
proof
  fix d :: "(u16 \<Rightarrow> u8) \<times> u8 list"
  show "\<exists>n. fst (netReadReg register_bus REG_S3_CR (((\<lambda>d. snd (netReadReg register_bus REG_S3_CR d)) ^^ n) d)) = 0"
    by (cases d, rule exI [of _ 0]) (simp add: register_bus_netReadReg chip_load_def)
qed

lemma register_bus_opens: "sockets_open register_bus"
  unfolding sockets_open_def
  by (auto simp: netWriteWord_def register_bus_netReadReg register_bus_netWriteReg chip_load_def chip_store_def)

text \<open>A datagram at the start of the receive memory.\<close>

definition received :: "u8 list \<Rightarrow> (u16 \<Rightarrow> u8) \<times> u8 list" where
  "received bytes =
     (\<lambda>a. if 0x7800 \<le> unat a \<and> unat a < 0x7800 + length bytes then bytes ! (unat a - 0x7800) else 0, [0])"

definition server :: "u8 list \<Rightarrow> ((u16 \<Rightarrow> u8) \<times> u8 list) tftp" where
  "server bytes = \<lparr>lastPacket = 0, DownloadStarted = False, tick = 0, chip = received bytes,
     ldr = ihex_start blank_flash\<rparr>"

lemma received_rx:
  assumes "length bytes \<le> 0x800"
  shows "rx_base (chip_load (fst (received bytes))) = 0"
    "i < 0x800 \<Longrightarrow> rx_byte (chip_load (fst (received bytes))) 0 i = (if i < length bytes then bytes ! i else 0)"
proof -
  show "rx_base (chip_load (fst (received bytes))) = 0"
    by (simp add: rx_base_def received_def chip_load_def be_word_def)
  assume i: "i < 0x800"
  then have "unat (S3_RX_START + of_nat i) = 0x7800 + i" by (rule rx_address)
  moreover from this have "S3_RX_START + of_nat i \<noteq> (0x701 :: u16)" by (auto simp: word_unat_eq_iff)
  ultimately show "rx_byte (chip_load (fst (received bytes))) 0 i = (if i < length bytes then bytes ! i else 0)"
    using i by (simp add: rx_byte_def chip_load_def received_def)
qed



section \<open>Write requests\<close>

lemma wrq_port_bytes: "byte_of 1 (wrq_port buffer) = 0xFF" "byte_of 0 (wrq_port buffer) = NOT (buffer ! 5)"
proof -
  show "byte_of 1 (wrq_port buffer) = 0xFF"
  proof -
    have "byte_of 1 (wrq_port buffer) = - 1"
      by (rule bit_word_eqI) (auto simp: byte_of_def wrq_port_def bit_simps dest: bit_imp_le_length)
    then show ?thesis by simp
  qed
  show "byte_of 0 (wrq_port buffer) = NOT (buffer ! 5)"
    by (rule bit_word_eqI) (auto simp: byte_of_def wrq_port_def bit_simps dest: bit_imp_le_length)
qed



section \<open>Answers\<close>

lemma tx_address:
  assumes "p < 0x800"
  shows "unat (S3_TX_START + of_nat p) = 0x5800 + p"
  using assms by (simp add: unat_word_ariths unat_of_nat)

lemma tx_step:
  assumes "p < 0x800"
  shows "(if S3_TX_START + of_nat p + 1 = S3_TX_END then S3_TX_START else S3_TX_START + of_nat p + 1)
    = S3_TX_START + of_nat (Suc p mod 0x800)"
proof (cases "Suc p = 0x800")
  case True
  then have "(of_nat p + 1 :: u16) = of_nat 0x800" by (metis add.commute of_nat_Suc)
  then have "S3_TX_START + of_nat p + 1 = S3_TX_END" by (simp add: add.assoc)
  with True show ?thesis by simp
next
  case False
  with assms have "Suc p < 0x800" by simp
  then have "unat (S3_TX_START + of_nat (Suc p)) = 0x5800 + Suc p" by (rule tx_address)
  moreover have "unat S3_TX_END = 0x6000" by simp
  ultimately have "S3_TX_START + of_nat (Suc p) \<noteq> S3_TX_END" using \<open>Suc p < 0x800\<close> by auto
  then have "S3_TX_START + of_nat p + 1 \<noteq> S3_TX_END" by (simp add: algebra_simps)
  with \<open>Suc p < 0x800\<close> show ?thesis by (simp add: algebra_simps)
qed

lemma ring_offset:
  fixes p k :: nat
  assumes "p < 0x800" "0 < k" "k < 0x800"
  shows "(p + k) mod 0x800 \<noteq> p"
proof (cases "p + k < 0x800")
  case False
  then have "(p + k) mod 0x800 = p + k - 0x800" using assms by (simp add: mod_if)
  with assms False show ?thesis by linarith
qed (use assms in simp)

lemma length_response_packet: "length (response_packet r n) \<le> 18"
  by (simp add: response_packet_def tftp_invalid_image_packet_def tftp_opcode_error_packet_def
      tftp_full_error_packet_def tftp_unknown_error_packet_def)

lemma write_tx_ring:
  assumes "w5100 b reg" "p < 0x800" "length xs \<le> 0x800"
  shows "\<exists>d'. write_tx b (S3_TX_START + of_nat p) xs d = (S3_TX_START + of_nat ((p + length xs) mod 0x800), d')
    \<and> (\<forall>i < length xs. reg d' (S3_TX_START + of_nat ((p + i) mod 0x800)) = xs ! i)
    \<and> (\<forall>x. \<not> volatile x \<and> (\<forall>i < length xs. x \<noteq> S3_TX_START + of_nat ((p + i) mod 0x800)) \<longrightarrow> reg d' x = reg d x)"
  using assms(2,3)
proof (induction xs arbitrary: p d)
  case Nil
  then show ?case by simp
next
  case (Cons v xs)
  let ?a = "S3_TX_START + of_nat p" and ?q = "Suc p mod 0x800"
  have shift: "(?q + i) mod 0x800 = (p + Suc i) mod 0x800" for i
    using mod_add_left_eq [of "Suc p" "0x800" i] by simp
  obtain d' where ih: "write_tx b (S3_TX_START + of_nat ?q) xs (netWriteReg b ?a v d)
        = (S3_TX_START + of_nat ((p + Suc (length xs)) mod 0x800), d')"
    "\<And>i. i < length xs \<Longrightarrow> reg d' (S3_TX_START + of_nat ((p + Suc i) mod 0x800)) = xs ! i"
    "\<And>x. \<not> volatile x \<Longrightarrow> \<forall>i < length xs. x \<noteq> S3_TX_START + of_nat ((p + Suc i) mod 0x800)
       \<Longrightarrow> reg d' x = reg (netWriteReg b ?a v d) x"
    using Cons.IH [of ?q "netWriteReg b ?a v d"] Cons.prems(2) unfolding shift by auto
  have nv: "\<not> volatile ?a" by (rule memory_not_volatile) (simp add: tx_address [OF Cons.prems(1)])
  have other: "?a \<noteq> S3_TX_START + of_nat ((p + Suc i) mod 0x800)" if "i < length xs" for i
  proof -
    have "(p + Suc i) mod 0x800 \<noteq> p"
      using ring_offset [OF Cons.prems(1), of "Suc i"] that Cons.prems(2) by simp
    then have "unat ?a \<noteq> unat (S3_TX_START + of_nat ((p + Suc i) mod 0x800))"
      by (subst (1 2) tx_address) (use Cons.prems(1) in simp_all)
    then show ?thesis by metis
  qed
  have first: "reg d' ?a = v" using ih(3) [OF nv] other by (simp add: netWriteReg_reg [OF assms(1) nv])
  have step: "write_tx b ?a (v # xs) d = write_tx b (S3_TX_START + of_nat ?q) xs (netWriteReg b ?a v d)"
    by (simp only: write_tx.simps tx_step [OF Cons.prems(1)])
  have "reg d' (S3_TX_START + of_nat ((p + i) mod 0x800)) = (v # xs) ! i" if "i < length (v # xs)" for i
    using that first ih(2) Cons.prems(1) by (cases i) simp_all
  moreover have "reg d' x = reg d x"
    if "\<not> volatile x" "\<forall>i < length (v # xs). x \<noteq> S3_TX_START + of_nat ((p + i) mod 0x800)" for x
  proof -
    have "x \<noteq> ?a" using that(2) [rule_format, of 0] Cons.prems(1) by simp
    moreover have "\<forall>i < length xs. x \<noteq> S3_TX_START + of_nat ((p + Suc i) mod 0x800)"
      using that(2) by auto
    ultimately show ?thesis using ih(3) [OF that(1)] by (simp add: netWriteReg_reg [OF assms(1) that(1)])
  qed
  ultimately show ?case using step ih(1) by auto
qed



section \<open>Time-outs\<close>

lemma open_socket_returns:
  assumes "sockets_open b"
  obtains d' where "open_socket b d = Some d'"
proof -
  let ?d3 = "netWriteReg b REG_S3_CR CR_OPEN (netWriteReg b REG_S3_MR MR_UDP (netWriteWord b REG_S3_PORT0 TFTP_PORT d))"
  have "fst (netReadReg b REG_S3_SR ?d3) = SOCK_UDP"
    "fst (netReadReg b REG_S3_SR (snd (netReadReg b REG_S3_SR ?d3))) = SOCK_UDP"
    using assms by (auto simp: sockets_open_def Let_def)
  then have "open_socket b d = Some (snd (netReadReg b REG_S3_SR (snd (netReadReg b REG_S3_SR ?d3))))"
    by (subst open_socket.simps) (simp add: Let_def case_prod_beta)
  then show ?thesis by (rule that)
qed



end
