(* ===== verification/Optiboot.thy ===== *)
theory Optiboot
  imports Ihex_Stream
begin

text \<open>
  The entry of the boot loader, \<^verbatim>\<open>optiboot.c\<close>: the choice of what to start, and the serial
  boot loader with its STK500 command loop. The serial line is a list of received bytes and a
  list of sent ones; reading from an empty line waits (\<open>Need_Input\<close>), and a command that is
  not terminated by a space lets the watchdog restart the controller.
\<close>

section \<open>What to start\<close>

datatype boot_path = Path_App | Path_Ext_Flash u8 | Path_Tftp | Path_Serial

record pins =
  MCUSR :: u8
  PINB :: u8
  PIND :: u8
  GPIOR1 :: u8
  GPIOR2 :: u8

text \<open>
  \<^verbatim>\<open>WDRF\<close> is bit 3 of \<^verbatim>\<open>MCUSR\<close>. None of the three paths comes back, so the first that applies
  is the one taken.
\<close>

definition boot_main :: "pins \<Rightarrow> boot_path" where
  "boot_main p =
     (if bit (MCUSR p) 3 then Path_App
      else if bit (PINB p) 1 \<or> GPIOR2 p = 0x45 then Path_Ext_Flash (GPIOR1 p)
      else if \<not> bit (PIND p) 0 \<or> GPIOR2 p = 0x54 then Path_Tftp
      else Path_Serial)"

definition Update_from_ext_flash :: "u8 \<Rightarrow> pins \<Rightarrow> pins" where
  "Update_from_ext_flash start_sector p = p\<lparr>GPIOR2 := 0x45, GPIOR1 := start_sector\<rparr>"

definition Update_from_TFTP :: "pins \<Rightarrow> pins" where
  "Update_from_TFTP p = p\<lparr>GPIOR2 := 0x54\<rparr>"

section \<open>The serial line\<close>

record opti =
  rx :: "u8 list"
  tx :: "u8 list"
  address :: u16
  buff :: "u8 list"
  oflash :: flash
  wdt :: u8

datatype stop = Need_Input | Watchdog_Reset

type_synonym 'a io = "stop \<times> opti + 'a \<times> opti"

definition io_bind :: "'a io \<Rightarrow> ('a \<Rightarrow> opti \<Rightarrow> 'b io) \<Rightarrow> 'b io" where
  "io_bind m f = (case m of Inl e \<Rightarrow> Inl e | Inr (x, s) \<Rightarrow> f x s)"

definition getch :: "opti \<Rightarrow> u8 io" where
  "getch s = (case rx s of [] \<Rightarrow> Inl (Need_Input, s) | c # cs \<Rightarrow> Inr (c, s\<lparr>rx := cs\<rparr>))"

definition putch :: "u8 \<Rightarrow> opti \<Rightarrow> opti" where
  "putch ch s = s\<lparr>tx := tx s @ [ch]\<rparr>"

abbreviation STK_OK :: u8 where "STK_OK \<equiv> 0x10"
abbreviation STK_INSYNC :: u8 where "STK_INSYNC \<equiv> 0x14"
abbreviation CRC_EOP :: u8 where "CRC_EOP \<equiv> 0x20"
abbreviation STK_GET_PARAMETER :: u8 where "STK_GET_PARAMETER \<equiv> 0x41"
abbreviation STK_SET_DEVICE :: u8 where "STK_SET_DEVICE \<equiv> 0x42"
abbreviation STK_SET_DEVICE_EXT :: u8 where "STK_SET_DEVICE_EXT \<equiv> 0x45"
abbreviation STK_LOAD_ADDRESS :: u8 where "STK_LOAD_ADDRESS \<equiv> 0x55"
abbreviation STK_UNIVERSAL :: u8 where "STK_UNIVERSAL \<equiv> 0x56"
abbreviation STK_PROG_PAGE :: u8 where "STK_PROG_PAGE \<equiv> 0x64"
abbreviation STK_READ_PAGE :: u8 where "STK_READ_PAGE \<equiv> 0x74"
abbreviation STK_READ_SIGN :: u8 where "STK_READ_SIGN \<equiv> 0x75"
abbreviation WATCHDOG_16MS :: u8 where "WATCHDOG_16MS \<equiv> 0x08"
abbreviation NRWWSTART :: u16 where "NRWWSTART \<equiv> 0x7000"

definition watchdogConfig :: "u8 \<Rightarrow> opti \<Rightarrow> opti" where
  "watchdogConfig x s = s\<lparr>wdt := x\<rparr>"

definition verifySpace :: "opti \<Rightarrow> unit io" where
  "verifySpace s =
     io_bind (getch s) (\<lambda>c s1.
       if c \<noteq> CRC_EOP then Inl (Watchdog_Reset, watchdogConfig WATCHDOG_16MS s1)
       else Inr ((), putch STK_INSYNC s1))"

text \<open>\<^verbatim>\<open>do ... while (--n)\<close> with an 8-bit \<open>n\<close>: 256 rounds for 0.\<close>

definition rounds :: "u8 \<Rightarrow> nat" where
  "rounds n = (if n = 0 then 256 else unat n)"

fun skip_bytes :: "nat \<Rightarrow> opti \<Rightarrow> unit io" where
  "skip_bytes 0 s = Inr ((), s)"
| "skip_bytes (Suc n) s = io_bind (getch s) (\<lambda>_ s1. skip_bytes n s1)"

definition getNch :: "u8 \<Rightarrow> opti \<Rightarrow> unit io" where
  "getNch count s = io_bind (skip_bytes (rounds count) s) (\<lambda>_ s1. verifySpace s1)"

section \<open>The commands\<close>

definition get_parameter :: "opti \<Rightarrow> unit io" where
  "get_parameter s =
     io_bind (getch s) (\<lambda>which s1.
       io_bind (verifySpace s1) (\<lambda>_ s2.
         Inr ((), putch (if which = 0x82 then 4 else if which = 0x81 then 4 else 0x03) s2)))"

definition load_address :: "opti \<Rightarrow> unit io" where
  "load_address s =
     io_bind (getch s) (\<lambda>lo s1.
       io_bind (getch s1) (\<lambda>hi s2.
         let newAddress = le_word lo hi
         in verifySpace (s2\<lparr>address := newAddress + newAddress\<rparr>)))"

fun read_page_bytes :: "nat \<Rightarrow> nat \<Rightarrow> opti \<Rightarrow> unit io" where
  "read_page_bytes 0 i s = Inr ((), s)"
| "read_page_bytes (Suc n) i s =
     io_bind (getch s) (\<lambda>c s1. read_page_bytes n (Suc i) (s1\<lparr>buff := (buff s1)[i := c]\<rparr>))"

definition page_erase :: "opti \<Rightarrow> opti" where
  "page_erase s = s\<lparr>oflash := boot_page_erase (address s) (oflash s)\<rparr>"

text \<open>
  A page of the read-while-write section is erased while its bytes come in, a page of the
  other section afterwards.
\<close>

definition prog_page :: "opti \<Rightarrow> unit io" where
  "prog_page s =
     io_bind (getch s) (\<lambda>_ s1.
       io_bind (getch s1) (\<lambda>len s2.
         io_bind (getch s2) (\<lambda>_ s3.
           let s4 = (if address s3 < NRWWSTART then page_erase s3 else s3)
           in io_bind (read_page_bytes (rounds len) 0 s4) (\<lambda>_ s5.
                let s6 = (if NRWWSTART \<le> address s5 then page_erase s5 else s5)
                in io_bind (verifySpace s6) (\<lambda>_ s7.
                     Inr ((), s7\<lparr>oflash :=
                       boot_rww_enable (boot_page_write (address s7)
                         (fill_loop (SPM_PAGESIZE div 2) 0 (address s7) (buff s7) (oflash s7)))\<rparr>))))))"

fun put_flash :: "nat \<Rightarrow> opti \<Rightarrow> opti" where
  "put_flash 0 s = s"
| "put_flash (Suc n) s =
     put_flash n ((putch (flash_mem (oflash s) (address s)) s)\<lparr>address := address s + 1\<rparr>)"

definition read_page :: "opti \<Rightarrow> unit io" where
  "read_page s =
     io_bind (getch s) (\<lambda>_ s1.
       io_bind (getch s1) (\<lambda>len s2.
         io_bind (getch s2) (\<lambda>_ s3.
           io_bind (verifySpace s3) (\<lambda>_ s4. Inr ((), put_flash (rounds len) s4)))))"

text \<open>
  One round of the command loop. The signature bytes of the device come from the compiler's
  device description.
\<close>

definition stk_dispatch :: "u8 \<times> u8 \<times> u8 \<Rightarrow> u8 \<Rightarrow> opti \<Rightarrow> unit io" where
  "stk_dispatch sig ch s =
     (if ch = STK_GET_PARAMETER then get_parameter s
      else if ch = STK_SET_DEVICE then getNch 20 s
      else if ch = STK_SET_DEVICE_EXT then getNch 5 s
      else if ch = STK_LOAD_ADDRESS then load_address s
      else if ch = STK_UNIVERSAL then io_bind (getNch 4 s) (\<lambda>_ s1. Inr ((), putch 0x00 s1))
      else if ch = STK_PROG_PAGE then prog_page s
      else if ch = STK_READ_PAGE then read_page s
      else if ch = STK_READ_SIGN then
        io_bind (verifySpace s) (\<lambda>_ s1.
          Inr ((), putch (snd (snd sig)) (putch (fst (snd sig)) (putch (fst sig) s1))))
      else if ch = 0x51 then verifySpace (watchdogConfig WATCHDOG_16MS s)
      else verifySpace s)"

definition stk_command :: "u8 \<times> u8 \<times> u8 \<Rightarrow> opti \<Rightarrow> unit io" where
  "stk_command sig s =
     io_bind (getch s) (\<lambda>ch s1. io_bind (stk_dispatch sig ch s1) (\<lambda>_ s2. Inr ((), putch STK_OK s2)))"

section \<open>The loop\<close>

lemma io_bind_Inr: "io_bind m f = Inr r \<longleftrightarrow> (\<exists>x s. m = Inr (x, s) \<and> f x s = Inr r)"
  by (auto simp: io_bind_def split: sum.splits)

lemma getch_Inr: "getch s = Inr (c, s') \<longleftrightarrow> (\<exists>cs. rx s = c # cs \<and> s' = s\<lparr>rx := cs\<rparr>)"
  by (auto simp: getch_def split: list.splits)

lemma verifySpace_Inr:
  "verifySpace s = Inr r \<longleftrightarrow> (\<exists>cs. rx s = CRC_EOP # cs \<and> r = ((), s\<lparr>rx := cs, tx := tx s @ [STK_INSYNC]\<rparr>))"
  by (cases r) (auto simp: verifySpace_def io_bind_Inr getch_Inr putch_def)

lemma skip_bytes_Inr:
  "skip_bytes n s = Inr r \<longleftrightarrow> n \<le> length (rx s) \<and> r = ((), s\<lparr>rx := drop n (rx s)\<rparr>)"
proof (induction n arbitrary: s)
  case 0
  then show ?case by auto
next
  case (Suc n)
  then show ?case by (cases "rx s") (auto simp: io_bind_Inr getch_Inr)
qed

lemma getNch_Inr:
  "getNch c s = Inr r \<longleftrightarrow> (\<exists>cs. rounds c \<le> length (rx s) \<and> drop (rounds c) (rx s) = CRC_EOP # cs
     \<and> r = ((), s\<lparr>rx := cs, tx := tx s @ [STK_INSYNC]\<rparr>))"
  by (auto simp: getNch_def io_bind_Inr skip_bytes_Inr verifySpace_Inr)

lemma read_page_bytes_Inr:
  "read_page_bytes n i s = Inr r \<longleftrightarrow> n \<le> length (rx s) \<and>
     r = ((), s\<lparr>rx := drop n (rx s), buff := fold (\<lambda>k b. b[i + k := rx s ! k]) [0..<n] (buff s)\<rparr>)"
proof (induction n arbitrary: i s)
  case 0
  then show ?case by auto
next
  case (Suc n)
  show ?case
  proof (cases "rx s")
    case Nil
    then show ?thesis by (auto simp: io_bind_Inr getch_Inr)
  next
    case (Cons c cs)
    have "[0..<Suc n] = 0 # map Suc [0..<n]" by (simp add: map_Suc_upt upt_conv_Cons del: upt_Suc)
    then show ?thesis
      using Cons Suc [of "Suc i" "s\<lparr>rx := cs, buff := (buff s)[i := c]\<rparr>"]
      by (auto simp: io_bind_Inr getch_Inr fold_map comp_def simp del: upt_Suc)
  qed
qed

lemma put_flash_eq:
  "put_flash n s = s\<lparr>tx := tx s @ map (\<lambda>k. flash_mem (oflash s) (address s + of_nat k)) [0..<n],
                     address := address s + of_nat n\<rparr>"
proof (induction n arbitrary: s)
  case 0
  then show ?case by simp
next
  case (Suc n)
  have "[0..<Suc n] = 0 # map Suc [0..<n]" by (simp add: map_Suc_upt upt_conv_Cons del: upt_Suc)
  then show ?case by (simp add: Suc putch_def algebra_simps comp_def del: upt_Suc)
qed

lemma io_bind_simps [simp]: "io_bind (Inr (x, s)) f = f x s" "io_bind (Inl e) f = Inl e"
  by (simp_all add: io_bind_def)

lemma getch_Cons: "rx s = c # cs \<Longrightarrow> getch s = Inr (c, s\<lparr>rx := cs\<rparr>)"
  by (simp add: getch_def)

text \<open>The page buffer after \<open>data\<close> has been received, and the programmed page.\<close>

definition page_received :: "u8 list \<Rightarrow> u8 list \<Rightarrow> u8 list" where
  "page_received data B = fold (\<lambda>k b. b[k := data ! k]) [0..<length data] B"

lemma page_received_eq:
  "length data \<le> length B \<Longrightarrow> page_received data B = data @ drop (length data) B"
proof -
  have *: "length data \<le> length B \<Longrightarrow> n \<le> length data \<Longrightarrow>
      fold (\<lambda>k b. b[k := data ! k]) [0..<n] B = take n data @ drop n B" for n
  proof (induction n)
    case (Suc n)
    then have "drop n B = B ! n # drop (Suc n) B" by (simp add: Cons_nth_drop_Suc)
    with Suc show ?case by (simp add: list_update_append take_Suc_conv_app_nth)
  qed simp
  assume "length data \<le> length B"
  from * [OF this order_refl] show ?thesis by (simp add: page_received_def)
qed

lemma read_page_bytes_run:
  assumes "rx s = data @ cs" "length data = n"
  shows "read_page_bytes n 0 s = Inr ((), s\<lparr>rx := cs, buff := page_received data (buff s)\<rparr>)"
proof -
  have "fold (\<lambda>k b. b[0 + k := rx s ! k]) [0..<n] (buff s) = page_received data (buff s)"
    unfolding page_received_def assms(2) by (intro fold_cong) (auto simp: nth_append assms)
  then show ?thesis using assms by (simp add: read_page_bytes_Inr)
qed

lemma verifySpace_run:
  "rx s = CRC_EOP # cs \<Longrightarrow> verifySpace s = Inr ((), s\<lparr>rx := cs, tx := tx s @ [STK_INSYNC]\<rparr>)"
  by (simp add: verifySpace_Inr)

lemmas run_simps = getch_Cons verifySpace_run read_page_bytes_run

definition programmed_page :: "u8 list \<Rightarrow> u8 list \<Rightarrow> opti \<Rightarrow> opti" where
  "programmed_page data cs s =
     s\<lparr>rx := cs, tx := tx s @ [STK_INSYNC], buff := page_received data (buff s),
       oflash := flash_page (address s) (page_received data (buff s)) (oflash s)\<rparr>"

lemma prog_page_run:
  assumes "rx s = x # len # y # data @ CRC_EOP # cs" "length data = rounds len"
  shows "prog_page s = Inr ((), programmed_page data cs s)"
  using assms
  by (cases s) (simp add: prog_page_def run_simps page_erase_def flash_page_def programmed_page_def)

lemma prog_page_done:
  assumes "prog_page s = Inr ((), s')"
  obtains x len y data cs where "rx s = x # len # y # data @ CRC_EOP # cs" "length data = rounds len"
    "s' = programmed_page data cs s"
proof -
  obtain x len y r where rx: "rx s = x # len # y # r"
    using assms by (auto simp: prog_page_def io_bind_Inr getch_Inr)
  let ?s4 = "if address s < NRWWSTART then page_erase (s\<lparr>rx := r\<rparr>) else s\<lparr>rx := r\<rparr>"
  have "prog_page s = io_bind (read_page_bytes (rounds len) 0 ?s4) (\<lambda>_ s5.
        io_bind (verifySpace (if NRWWSTART \<le> address s5 then page_erase s5 else s5)) (\<lambda>_ s7.
          Inr ((), s7\<lparr>oflash := boot_rww_enable (boot_page_write (address s7)
             (fill_loop (SPM_PAGESIZE div 2) 0 (address s7) (buff s7) (oflash s7)))\<rparr>)))"
    using rx by (simp add: prog_page_def getch_Cons)
  with assms obtain s5 s7 where r: "read_page_bytes (rounds len) 0 ?s4 = Inr ((), s5)"
    "verifySpace (if NRWWSTART \<le> address s5 then page_erase s5 else s5) = Inr ((), s7)"
    by (auto simp: io_bind_Inr)
  have len: "rounds len \<le> length r" "rx s5 = drop (rounds len) r"
    using r(1) by (auto simp: read_page_bytes_Inr page_erase_def split: if_splits)
  obtain cs where "drop (rounds len) r = CRC_EOP # cs"
    using r(2) len(2) by (auto simp: verifySpace_Inr page_erase_def split: if_splits)
  then have data: "r = take (rounds len) r @ CRC_EOP # cs" "length (take (rounds len) r) = rounds len"
    using len(1) by (metis append_take_drop_id, simp)
  have rx2: "rx s = x # len # y # take (rounds len) r @ CRC_EOP # cs" using rx data(1) by simp
  show ?thesis using that [OF rx2 data(2)] prog_page_run [OF rx2 data(2)] assms by simp
qed

lemma read_page_Inr:
  "read_page s = Inr ((), s') \<longleftrightarrow> (\<exists>x len y cs. rx s = x # len # y # CRC_EOP # cs
     \<and> s' = put_flash (rounds len) (s\<lparr>rx := cs, tx := tx s @ [STK_INSYNC]\<rparr>))"
  by (auto simp: read_page_def io_bind_Inr getch_Inr verifySpace_Inr)

text \<open>
  What a command does that comes to its end: it consumes input, its answer begins with
  \<open>STK_INSYNC\<close>, and it leaves the flash alone, except that the programming command replaces
  the page at the current address.
\<close>

definition command_effect :: "u8 \<Rightarrow> opti \<Rightarrow> opti \<Rightarrow> bool" where
  "command_effect ch s s' \<longleftrightarrow> length (rx s') < length (rx s)
     \<and> (\<exists>answer. tx s' = tx s @ [STK_INSYNC] @ answer)
     \<and> (oflash s' = oflash s
        \<or> ch = STK_PROG_PAGE \<and> (\<exists>page. oflash s' = flash_page (address s) page (oflash s)))"

lemma prog_page_effect: "prog_page s = Inr ((), s') \<Longrightarrow> command_effect STK_PROG_PAGE s s'"
  by (erule prog_page_done) (auto simp: command_effect_def programmed_page_def)

lemma length_drop_Cons: "drop n xs = c # cs \<Longrightarrow> length cs < length xs"
  by (metis diff_less_Suc length_Cons length_drop less_le_trans not_less_eq not_less_eq_eq diff_le_self)

lemma other_effects:
  "get_parameter s = Inr ((), s') \<Longrightarrow> command_effect ch s s'"
  "getNch n s = Inr ((), s') \<Longrightarrow> command_effect ch s s'"
  "load_address s = Inr ((), s') \<Longrightarrow> command_effect ch s s'"
  "read_page s = Inr ((), s') \<Longrightarrow> command_effect ch s s'"
  "verifySpace s = Inr ((), s') \<Longrightarrow> command_effect ch s s'"
  "io_bind (getNch n s) (\<lambda>_ s1. Inr ((), putch v s1)) = Inr ((), s') \<Longrightarrow> command_effect ch s s'"
  "io_bind (verifySpace s) (\<lambda>_ s1. Inr ((), putch z (putch y (putch x s1)))) = Inr ((), s') \<Longrightarrow> command_effect ch s s'"
  "verifySpace (watchdogConfig w s) = Inr ((), s') \<Longrightarrow> command_effect ch s s'"
  by (auto simp: command_effect_def get_parameter_def load_address_def io_bind_Inr getch_Inr verifySpace_Inr
      getNch_Inr read_page_Inr put_flash_eq putch_def watchdogConfig_def Let_def dest: length_drop_Cons)

lemma stk_dispatch_effect: "stk_dispatch sig ch s = Inr ((), s') \<Longrightarrow> command_effect ch s s'"
  unfolding stk_dispatch_def
  by (auto split: if_splits intro: other_effects prog_page_effect)

lemma stk_command_progress:
  assumes "stk_command sig s = Inr ((), s')"
  shows "length (rx s') < length (rx s)"
proof -
  obtain ch cs s2 where "rx s = ch # cs" "stk_dispatch sig ch (s\<lparr>rx := cs\<rparr>) = Inr ((), s2)" "s' = putch STK_OK s2"
    using assms by (auto simp: stk_command_def io_bind_Inr getch_Inr)
  with stk_dispatch_effect [OF this(2)] show ?thesis by (simp add: command_effect_def putch_def)
qed

text \<open>The command loop: it runs until the line is empty or the watchdog strikes.\<close>

function stk_loop :: "u8 \<times> u8 \<times> u8 \<Rightarrow> opti \<Rightarrow> stop \<times> opti" where
  "stk_loop sig s = (case stk_command sig s of Inl e \<Rightarrow> e | Inr (_, s') \<Rightarrow> stk_loop sig s')"
  by pat_completeness auto
termination
  by (relation "measure (\<lambda>(sig, s). length (rx s))") (auto dest: stk_command_progress)

declare stk_loop.simps [simp del]

text \<open>
  C13. The protocol is kept. Every command that is carried out answers \<open>STK_INSYNC\<close> first and
  \<open>STK_OK\<close> last; only the programming command changes the flash, and only the page at the
  current address.
\<close>

theorem stk_command_protocol:
  assumes "stk_command sig s = Inr ((), s')"
  shows "(\<exists>answer. tx s' = tx s @ [STK_INSYNC] @ answer @ [STK_OK])
    \<and> (oflash s' = oflash s \<or> hd (rx s) = STK_PROG_PAGE
        \<and> (\<exists>page. oflash s' = flash_page (address s) page (oflash s)))"
proof -
  obtain ch cs s2 where s: "rx s = ch # cs" "stk_dispatch sig ch (s\<lparr>rx := cs\<rparr>) = Inr ((), s2)" "s' = putch STK_OK s2"
    using assms by (auto simp: stk_command_def io_bind_Inr getch_Inr)
  from stk_dispatch_effect [OF s(2)] show ?thesis
    using s(1,3) by (auto simp: command_effect_def putch_def)
qed

definition serial :: "u8 list \<Rightarrow> opti" where
  "serial bytes = \<lparr>rx = bytes, tx = [], address = 0, buff = replicate 256 0, oflash = blank_flash, wdt = 0x0E\<rparr>"

theorem stk_command_protocol_witness:
  "\<exists>s' answer. stk_command (0x1E, 0x95, 0x0F) (serial [STK_READ_SIGN, CRC_EOP]) = Inr ((), s')
     \<and> tx s' = tx (serial [STK_READ_SIGN, CRC_EOP]) @ [STK_INSYNC] @ answer @ [STK_OK]"
proof -
  have "\<exists>s'. stk_command (0x1E, 0x95, 0x0F) (serial [STK_READ_SIGN, CRC_EOP]) = Inr ((), s')"
    by (simp add: stk_command_def getch_Cons serial_def stk_dispatch_def verifySpace_run)
  then show ?thesis using stk_command_protocol by blast
qed

lemma stk_loop_step: "stk_command sig s = Inr ((), s') \<Longrightarrow> stk_loop sig s = stk_loop sig s'"
  by (simp add: stk_loop.simps [of sig s])

lemma stk_loop_stop: "stk_command sig s = Inl e \<Longrightarrow> stk_loop sig s = e"
  by (simp add: stk_loop.simps [of sig s])

lemma stk_command_load_address:
  assumes "rx s = STK_LOAD_ADDRESS # lo # hi # CRC_EOP # cs"
  shows "stk_command sig s = Inr ((), s\<lparr>rx := cs, tx := tx s @ [STK_INSYNC, STK_OK], address := le_word lo hi + le_word lo hi\<rparr>)"
  using assms
  by (cases s) (simp add: stk_command_def getch_Cons stk_dispatch_def load_address_def verifySpace_run putch_def Let_def)

lemma stk_command_prog_page:
  assumes "rx s = STK_PROG_PAGE # x # len # y # data @ CRC_EOP # cs" "length data = rounds len"
  shows "stk_command sig s = Inr ((), putch STK_OK (programmed_page data cs (s\<lparr>rx := x # len # y # data @ CRC_EOP # cs\<rparr>)))"
  using assms(1) prog_page_run [OF _ assms(2), of "s\<lparr>rx := x # len # y # data @ CRC_EOP # cs\<rparr>" x y cs]
  by (simp add: stk_command_def getch_Cons stk_dispatch_def)

lemma fill_loop_take:
  "fill_loop n (2 * k) a p f = fill_loop n (2 * k) a (take m p) f" if "2 * (k + n) \<le> m" "m \<le> length p"
  unfolding fill_loop_fold using that by (intro fold_cong) auto

lemma flash_page_take:
  assumes "unat a mod SPM_PAGESIZE = 0" "SPM_PAGESIZE \<le> length p"
  shows "flash_mem (flash_page a p f) x = (if same_page x a then p ! (unat x mod SPM_PAGESIZE) else flash_mem f x)"
proof -
  have "fill_loop 64 (2 * 0) a p g = fill_loop 64 (2 * 0) a (take 128 p) g" for g
    using assms(2) by (intro fill_loop_take) (simp_all add: SPM_PAGESIZE_def)
  then have "flash_page a p f = flash_page a (take SPM_PAGESIZE p) f"
    by (simp add: flash_page_def SPM_PAGESIZE_def)
  moreover have "unat x mod SPM_PAGESIZE < SPM_PAGESIZE" by (simp add: SPM_PAGESIZE_def)
  ultimately show ?thesis
    using flash_page_mem [OF assms(1), of "take SPM_PAGESIZE p" f x] assms(2) by simp
qed

lemma page_mod:
  assumes "unat a mod SPM_PAGESIZE = 0" "k < SPM_PAGESIZE"
  shows "unat (a + of_nat k :: u16) mod SPM_PAGESIZE = k"
  using same_page_offset(2) [OF assms] assms by (metis add_0 mod_add_left_eq mod_less)

text \<open>
  C14. What is programmed is what is read back. Loading a page address, programming 128 bytes and
  reading 128 bytes at that address again answers exactly the bytes that were sent, and the
  flash holds them.
\<close>

theorem stk_program_then_read:
  assumes "length data = SPM_PAGESIZE" "SPM_PAGESIZE \<le> length (buff s)"
    and "a = le_word lo hi + le_word lo hi" "unat a mod SPM_PAGESIZE = 0"
    and "rx s = [STK_LOAD_ADDRESS, lo, hi, CRC_EOP] @ [STK_PROG_PAGE, 0, 128, 0x46] @ data @ [CRC_EOP]
      @ [STK_LOAD_ADDRESS, lo, hi, CRC_EOP] @ [STK_READ_PAGE, 0, 128, 0x46, CRC_EOP]"
  shows "\<exists>s'. stk_loop sig s = (Need_Input, s')
    \<and> tx s' = tx s @ [STK_INSYNC, STK_OK, STK_INSYNC, STK_OK, STK_INSYNC, STK_OK, STK_INSYNC] @ data @ [STK_OK]
    \<and> (\<forall>x. flash_mem (oflash s') x =
          (if same_page x a then data ! (unat x mod SPM_PAGESIZE) else flash_mem (oflash s) x))"
proof -
  let ?B = "page_received data (buff s)"
  let ?f = "flash_page a ?B (oflash s)"
  have B: "?B = data @ drop SPM_PAGESIZE (buff s)" using page_received_eq assms(1,2) by simp
  have r: "rounds 128 = SPM_PAGESIZE" by (simp add: rounds_def SPM_PAGESIZE_def)
  have mem: "flash_mem ?f x = (if same_page x a then data ! (unat x mod SPM_PAGESIZE) else flash_mem (oflash s) x)" for x
  proof -
    have "unat x mod SPM_PAGESIZE < SPM_PAGESIZE" by (simp add: SPM_PAGESIZE_def)
    then show ?thesis
      using flash_page_take [OF assms(4), of ?B "oflash s" x] assms(1) by (simp add: B nth_append)
  qed
  have readback: "map (\<lambda>k. flash_mem ?f (a + of_nat k)) [0..<SPM_PAGESIZE] = data"
    using assms(1) same_page_offset(1) [OF assms(4)] by (intro nth_equalityI) (simp_all add: mem page_mod [OF assms(4)])
  let ?t1 = "[STK_PROG_PAGE, 0, 128, 0x46] @ data @ [CRC_EOP] @ [STK_LOAD_ADDRESS, lo, hi, CRC_EOP]
      @ [STK_READ_PAGE, 0, 128, 0x46, CRC_EOP]"
  let ?s1 = "s\<lparr>rx := ?t1, tx := tx s @ [STK_INSYNC, STK_OK], address := a\<rparr>"
  let ?s2 = "?s1\<lparr>rx := [STK_LOAD_ADDRESS, lo, hi, CRC_EOP, STK_READ_PAGE, 0, 128, 0x46, CRC_EOP],
      tx := tx s @ [STK_INSYNC, STK_OK, STK_INSYNC, STK_OK], buff := ?B, oflash := ?f\<rparr>"
  let ?s3 = "?s2\<lparr>rx := [STK_READ_PAGE, 0, 128, 0x46, CRC_EOP],
      tx := tx s @ [STK_INSYNC, STK_OK, STK_INSYNC, STK_OK, STK_INSYNC, STK_OK]\<rparr>"
  let ?s4 = "?s3\<lparr>rx := [], tx := tx s @ [STK_INSYNC, STK_OK, STK_INSYNC, STK_OK, STK_INSYNC, STK_OK, STK_INSYNC] @ data @ [STK_OK],
      address := a + of_nat SPM_PAGESIZE\<rparr>"
  have c1: "stk_command sig s = Inr ((), ?s1)"
    using assms(3,5) by (simp add: stk_command_load_address)
  have c2: "stk_command sig ?s1 = Inr ((), ?s2)"
    using stk_command_prog_page [where s = ?s1 and x = 0 and len = 128 and y = "0x46" and data = data
        and cs = "[STK_LOAD_ADDRESS, lo, hi, CRC_EOP, STK_READ_PAGE, 0, 128, 0x46, CRC_EOP]"
        and sig = sig] assms(1) r
    by (simp add: programmed_page_def putch_def)
  have c3: "stk_command sig ?s2 = Inr ((), ?s3)"
    using assms(3) by (simp add: stk_command_load_address)
  have c4: "stk_command sig ?s3 = Inr ((), ?s4)"
    using readback r by (simp add: stk_command_def getch_Cons stk_dispatch_def read_page_def verifySpace_run put_flash_eq putch_def)
  have c5: "stk_command sig ?s4 = Inl (Need_Input, ?s4)" by (simp add: stk_command_def getch_def)
  have "stk_loop sig s = (Need_Input, ?s4)"
    by (simp only: stk_loop_step [OF c1] stk_loop_step [OF c2] stk_loop_step [OF c3] stk_loop_step [OF c4]
        stk_loop_stop [OF c5])
  then show ?thesis using mem by simp
qed

theorem stk_program_then_read_witness:
  "\<exists>s'. stk_loop (0x1E, 0x95, 0x0F) (serial ([STK_LOAD_ADDRESS, 0, 0, CRC_EOP] @ [STK_PROG_PAGE, 0, 128, 0x46]
        @ (jump_table @ replicate 76 0) @ [CRC_EOP] @ [STK_LOAD_ADDRESS, 0, 0, CRC_EOP] @ [STK_READ_PAGE, 0, 128, 0x46, CRC_EOP]))
      = (Need_Input, s') \<and> flash_mem (oflash s') 1 = 0x94"
proof -
  let ?d = "jump_table @ replicate 76 0"
  let ?s = "serial ([STK_LOAD_ADDRESS, 0, 0, CRC_EOP] @ [STK_PROG_PAGE, 0, 128, 0x46] @ ?d @ [CRC_EOP]
      @ [STK_LOAD_ADDRESS, 0, 0, CRC_EOP] @ [STK_READ_PAGE, 0, 128, 0x46, CRC_EOP])"
  have len: "length ?d = SPM_PAGESIZE" by (simp add: length_jump_table SPM_PAGESIZE_def)
  have "\<exists>s'. stk_loop (0x1E, 0x95, 0x0F) ?s = (Need_Input, s')
    \<and> tx s' = tx ?s @ [STK_INSYNC, STK_OK, STK_INSYNC, STK_OK, STK_INSYNC, STK_OK, STK_INSYNC] @ ?d @ [STK_OK]
    \<and> (\<forall>x. flash_mem (oflash s') x =
          (if same_page x 0 then ?d ! (unat x mod SPM_PAGESIZE) else flash_mem (oflash ?s) x))"
  proof (rule stk_program_then_read [OF len])
    show "SPM_PAGESIZE \<le> length (buff ?s)" by (simp add: serial_def SPM_PAGESIZE_def)
    show "(0 :: u16) = le_word 0 0 + le_word 0 0" by (simp add: le_word_def)
  qed (simp_all add: serial_def)
  then obtain s' where s': "stk_loop (0x1E, 0x95, 0x0F) ?s = (Need_Input, s')"
    "flash_mem (oflash s') 1 = (if same_page 1 0 then ?d ! (unat (1 :: u16) mod SPM_PAGESIZE) else flash_mem (oflash ?s) 1)"
    by blast
  moreover have "same_page 1 0" "unat (1 :: u16) mod SPM_PAGESIZE = 1" by (simp_all add: same_page_def SPM_PAGESIZE_def)
  moreover have "?d ! 1 = 0x94"
    using jump_table_nth length_jump_table by (simp add: nth_append)
  ultimately have "flash_mem (oflash s') 1 = 0x94" by (simp only: if_True)
  with s'(1) show ?thesis by blast
qed

end
