(* ===== verification/Dict.thy ===== *)
theory Dict
  imports Prelude "HOL-Library.Monad_Syntax"
begin

text \<open>
  The hash table of the message server (\<^verbatim>\<open>server/src/dict.c\<close>, \<^verbatim>\<open>dict.h\<close>): chained buckets, a
  power-of-two number of them, and a second table into which the first one is moved bucket by
  bucket while the dictionary is used.  The server keeps its users in such a dictionary.

  A chain of \<^verbatim>\<open>dictEntry\<close> cells is the list of its entries, a \<^verbatim>\<open>NULL\<close> table the empty list, and
  a pointer to an entry the triple of its table, its bucket and its place in the chain.
  Operations return \<open>None\<close> where the code would fail an assertion or leave a table.  Sizes are
  unbounded numbers: a table of the width at which they would wrap does not fit in memory.
\<close>

section \<open>Hash functions\<close>

definition dict_hash_function_seed :: u32 where
  "dict_hash_function_seed = 5381"

definition dictIntHashFunction :: "u32 \<Rightarrow> u32" where
  "dictIntHashFunction key = (
    let key = key + NOT (push_bit 15 key);
        key = key XOR drop_bit 10 key;
        key = key + push_bit 3 key;
        key = key XOR drop_bit 6 key;
        key = key + NOT (push_bit 11 key);
        key = key XOR drop_bit 16 key
    in key)"

definition murmur_m :: u32 where
  "murmur_m = 0x5bd1e995"

text \<open>The loop over groups of four bytes, and the fall-through switch over the last ones.\<close>

fun murmur_body :: "u32 \<Rightarrow> u32 list \<Rightarrow> u32" where
  "murmur_body h (b0 # b1 # b2 # b3 # data) = (
    let k = b0 OR push_bit 8 b1 OR push_bit 16 b2 OR push_bit 24 b3;
        k = k * murmur_m;
        k = k XOR drop_bit 24 k;
        k = k * murmur_m
    in murmur_body ((h * murmur_m) XOR k) data)"
| "murmur_body h [b0, b1, b2] =
    ((h XOR push_bit 16 b2 XOR push_bit 8 b1) XOR b0) * murmur_m"
| "murmur_body h [b0, b1] = ((h XOR push_bit 8 b1) XOR b0) * murmur_m"
| "murmur_body h [b0] = (h XOR b0) * murmur_m"
| "murmur_body h [] = h"

definition dictGenHashFunction :: "string \<Rightarrow> u32" where
  "dictGenHashFunction key = (
    let h = murmur_body (dict_hash_function_seed XOR of_nat (length key)) (map of_char key);
        h = h XOR drop_bit 13 h;
        h = h * murmur_m
    in h XOR drop_bit 15 h)"

definition dictGenCaseHashFunction :: "string \<Rightarrow> u32" where
  "dictGenCaseHashFunction buf =
    foldl (\<lambda>hash c. (push_bit 5 hash + hash) + of_char (c_tolower c)) dict_hash_function_seed buf"

section \<open>Data\<close>

datatype dict_status = DICT_OK | DICT_ERR

record ('k, 'v) dictEntry =
  de_key :: 'k
  de_val :: "'v option"

record ('k, 'v) dictType =
  hashFunction :: "'k \<Rightarrow> u32"
  keyDup :: "('k \<Rightarrow> 'k) option"
  valDup :: "('v \<Rightarrow> 'v) option"
  keyCompare :: "('k \<Rightarrow> 'k \<Rightarrow> bool) option"

type_synonym ('k, 'v) chain = "('k, 'v) dictEntry list"

record ('k, 'v) dictht =
  ht_table :: "('k, 'v) chain list"
  ht_size :: nat
  ht_sizemask :: nat
  ht_used :: nat

record ('k, 'v) dict =
  ht0 :: "('k, 'v) dictht"
  ht1 :: "('k, 'v) dictht"
  rehashidx :: int
  iterators :: int

type_synonym entry_ref = "nat \<times> nat \<times> nat"

definition DICT_HT_INITIAL_SIZE :: nat where
  "DICT_HT_INITIAL_SIZE = 4"

definition dict_force_resize_ratio :: nat where
  "dict_force_resize_ratio = 5"

definition LONG_MAX :: nat where
  "LONG_MAX = 9223372036854775807"

section \<open>Macros of the header\<close>

definition dictIsRehashing :: "('k, 'v) dict \<Rightarrow> bool" where
  "dictIsRehashing d \<longleftrightarrow> rehashidx d \<noteq> -1"

definition dictSlots :: "('k, 'v) dict \<Rightarrow> nat" where
  "dictSlots d = ht_size (ht0 d) + ht_size (ht1 d)"

definition dictSize :: "('k, 'v) dict \<Rightarrow> nat" where
  "dictSize d = ht_used (ht0 d) + ht_used (ht1 d)"

definition dictCompareKeys :: "('k, 'v) dictType \<Rightarrow> 'k \<Rightarrow> 'k \<Rightarrow> bool" where
  "dictCompareKeys t key1 key2 \<longleftrightarrow>
    (case keyCompare t of Some f \<Rightarrow> f key1 key2 | None \<Rightarrow> key1 = key2)"

definition dictSetKey :: "('k, 'v) dictType \<Rightarrow> 'k \<Rightarrow> 'k" where
  "dictSetKey t key = (case keyDup t of Some f \<Rightarrow> f key | None \<Rightarrow> key)"

text \<open>The table of an entry pointer, and the same dictionary with another one in its place.\<close>

definition dict_ht :: "('k, 'v) dict \<Rightarrow> nat \<Rightarrow> ('k, 'v) dictht" where
  "dict_ht d n = (if n = 0 then ht0 d else ht1 d)"

definition dict_ht_update :: "('k, 'v) dict \<Rightarrow> nat \<Rightarrow> ('k, 'v) dictht \<Rightarrow> ('k, 'v) dict" where
  "dict_ht_update d n h = (if n = 0 then d\<lparr>ht0 := h\<rparr> else d\<lparr>ht1 := h\<rparr>)"

definition entry_at :: "('k, 'v) dict \<Rightarrow> entry_ref \<Rightarrow> ('k, 'v) dictEntry" where
  "entry_at d = (\<lambda>(n, i, p). ht_table (dict_ht d n) ! i ! p)"

definition dictGetVal :: "('k, 'v) dict \<Rightarrow> entry_ref \<Rightarrow> 'v option" where
  "dictGetVal d r = de_val (entry_at d r)"

definition dictSetVal :: "('k, 'v) dictType \<Rightarrow> ('k, 'v) dict \<Rightarrow> entry_ref \<Rightarrow> 'v \<Rightarrow> ('k, 'v) dict" where
  "dictSetVal t d = (\<lambda>(n, i, p) v.
    let v' = (case valDup t of Some f \<Rightarrow> f v | None \<Rightarrow> v);
        h = dict_ht d n;
        c = ht_table h ! i
    in dict_ht_update d n
         (h\<lparr>ht_table := (ht_table h)[i := c[p := (c ! p)\<lparr>de_val := Some v'\<rparr>]]\<rparr>))"

section \<open>Creation, expansion and incremental rehashing\<close>

definition dictReset :: "('k, 'v) dictht" where
  "dictReset = \<lparr>ht_table = [], ht_size = 0, ht_sizemask = 0, ht_used = 0\<rparr>"

definition dictCreate :: "('k, 'v) dict" where
  "dictCreate = \<lparr>ht0 = dictReset, ht1 = dictReset, rehashidx = -1, iterators = 0\<rparr>"

function dictNextPower_loop :: "nat \<Rightarrow> nat \<Rightarrow> nat" where
  "dictNextPower_loop sz i =
    (if i = 0 \<or> i \<ge> sz then i else dictNextPower_loop sz (i * 2))"
  by auto
termination
  by (relation "measure (\<lambda>(sz, i). sz - i)") auto

definition dictNextPower :: "nat \<Rightarrow> nat" where
  "dictNextPower sz =
    (if sz \<ge> LONG_MAX then LONG_MAX else dictNextPower_loop sz DICT_HT_INITIAL_SIZE)"

definition dictExpand :: "nat \<Rightarrow> ('k, 'v) dict \<Rightarrow> ('k, 'v) dict \<times> dict_status" where
  "dictExpand sz d = (
    let realsize = dictNextPower sz in
    if dictIsRehashing d \<or> ht_used (ht0 d) > sz then (d, DICT_ERR)
    else
      let n = \<lparr>ht_table = replicate realsize [], ht_size = realsize,
               ht_sizemask = realsize - 1, ht_used = 0\<rparr>
      in if ht_table (ht0 d) = [] then (d\<lparr>ht0 := n\<rparr>, DICT_OK)
         else (d\<lparr>ht1 := n, rehashidx := 0\<rparr>, DICT_OK))"

text \<open>\<^verbatim>\<open>int minimal\<close> takes the low 32 bits of the number of elements, as a signed number.\<close>

definition dictResize :: "bool \<Rightarrow> ('k, 'v) dict \<Rightarrow> ('k, 'v) dict \<times> dict_status" where
  "dictResize dict_can_resize d = (
    if \<not> dict_can_resize \<or> dictIsRehashing d then (d, DICT_ERR)
    else
      let minimal = signed_take_bit 31 (int (ht_used (ht0 d)));
          minimal = (if minimal < int DICT_HT_INITIAL_SIZE then int DICT_HT_INITIAL_SIZE
                     else minimal)
      in dictExpand (nat minimal) d)"

definition bucket_of :: "('k, 'v) dictType \<Rightarrow> 'k \<Rightarrow> ('k, 'v) dictht \<Rightarrow> nat" where
  "bucket_of t key h = unat (hashFunction t key) AND ht_sizemask h"

text \<open>\<^verbatim>\<open>while (table[rehashidx] == NULL) rehashidx++\<close>\<close>

function skip_empty :: "('k, 'v) chain list \<Rightarrow> nat \<Rightarrow> nat option" where
  "skip_empty tbl i =
    (if i \<ge> length tbl then None
     else if tbl ! i = [] then skip_empty tbl (i + 1) else Some i)"
  by auto
termination
  by (relation "measure (\<lambda>(tbl, i). length tbl - i)") auto

text \<open>Links an entry in front of its chain.\<close>

definition ht_push :: "nat \<Rightarrow> ('k, 'v) dictEntry \<Rightarrow> ('k, 'v) dictht \<Rightarrow> ('k, 'v) dictht" where
  "ht_push i e h =
    h\<lparr>ht_table := (ht_table h)[i := e # ht_table h ! i], ht_used := ht_used h + 1\<rparr>"

fun move_chain :: "('k, 'v) dictType \<Rightarrow> ('k, 'v) chain \<Rightarrow> ('k, 'v) dictht \<Rightarrow> ('k, 'v) dictht
    \<Rightarrow> ('k, 'v) dictht \<times> ('k, 'v) dictht" where
  "move_chain t [] h0 h1 = (h0, h1)"
| "move_chain t (de # nextde) h0 h1 =
    move_chain t nextde (h0\<lparr>ht_used := ht_used h0 - 1\<rparr>)
      (ht_push (bucket_of t (de_key de) h1) de h1)"

text \<open>The body of the rehashing loop, once the bucket \<open>i\<close> to move is found.\<close>

definition rehash_bucket :: "('k, 'v) dictType \<Rightarrow> nat \<Rightarrow> ('k, 'v) dict \<Rightarrow> ('k, 'v) dict" where
  "rehash_bucket t i d = (
    let (h0, h1) = move_chain t (ht_table (ht0 d) ! i) (ht0 d) (ht1 d)
    in d\<lparr>ht0 := h0\<lparr>ht_table := (ht_table h0)[i := []]\<rparr>, ht1 := h1, rehashidx := int i + 1\<rparr>)"

fun dictRehash_loop :: "('k, 'v) dictType \<Rightarrow> nat \<Rightarrow> ('k, 'v) dict \<Rightarrow> (('k, 'v) dict \<times> bool) option" where
  "dictRehash_loop t 0 d = Some (d, True)"
| "dictRehash_loop t (Suc n) d = (
    if ht_used (ht0 d) = 0
    then Some (d\<lparr>ht0 := ht1 d, ht1 := dictReset, rehashidx := -1\<rparr>, False)
    else if \<not> int (ht_size (ht0 d)) > rehashidx d then None
    else do {
      i \<leftarrow> skip_empty (ht_table (ht0 d)) (nat (rehashidx d));
      dictRehash_loop t n (rehash_bucket t i d)
    })"

definition dictRehash :: "('k, 'v) dictType \<Rightarrow> nat \<Rightarrow> ('k, 'v) dict \<Rightarrow> (('k, 'v) dict \<times> bool) option" where
  "dictRehash t n d = (if \<not> dictIsRehashing d then Some (d, False) else dictRehash_loop t n d)"

definition dictRehashStep :: "('k, 'v) dictType \<Rightarrow> ('k, 'v) dict \<Rightarrow> ('k, 'v) dict option" where
  "dictRehashStep t d = (if iterators d = 0 then map_option fst (dictRehash t 1 d) else Some d)"

text \<open>\<^verbatim>\<open>if (dictIsRehashing(d)) _dictRehashStep(d);\<close> at the start of the operations.\<close>

definition rehash_if :: "('k, 'v) dictType \<Rightarrow> ('k, 'v) dict \<Rightarrow> ('k, 'v) dict option" where
  "rehash_if t d = (if dictIsRehashing d then dictRehashStep t d else Some d)"

definition dictExpandIfNeeded :: "bool \<Rightarrow> ('k, 'v) dict \<Rightarrow> ('k, 'v) dict \<times> dict_status" where
  "dictExpandIfNeeded dict_can_resize d = (
    if dictIsRehashing d then (d, DICT_OK)
    else if ht_size (ht0 d) = 0 then dictExpand DICT_HT_INITIAL_SIZE d
    else if ht_used (ht0 d) \<ge> ht_size (ht0 d)
         \<and> (dict_can_resize \<or> ht_used (ht0 d) div ht_size (ht0 d) > dict_force_resize_ratio)
    then dictExpand (ht_used (ht0 d) * 2) d
    else (d, DICT_OK))"

section \<open>Lookup, insertion and removal\<close>

primrec chain_find :: "('k, 'v) dictType \<Rightarrow> 'k \<Rightarrow> ('k, 'v) chain \<Rightarrow> nat option" where
  "chain_find t key [] = None"
| "chain_find t key (he # rest) =
    (if dictCompareKeys t key (de_key he) then Some 0 else map_option Suc (chain_find t key rest))"

text \<open>
  The loop \<^verbatim>\<open>for (table = 0; table <= 1; table++)\<close> that lookup, insertion and removal share:
  the bucket of the key in the first table, and in the second one too while it is filled.
\<close>

definition search_ht :: "('k, 'v) dictType \<Rightarrow> 'k \<Rightarrow> ('k, 'v) dictht \<Rightarrow> (nat \<times> nat option) option" where
  "search_ht t key h = (
    let idx = bucket_of t key h in
    if idx < length (ht_table h) then Some (idx, chain_find t key (ht_table h ! idx)) else None)"

definition search_tables :: "('k, 'v) dictType \<Rightarrow> 'k \<Rightarrow> ('k, 'v) dict \<Rightarrow> (nat \<times> nat \<times> nat option) option" where
  "search_tables t key d = do {
    (idx, p) \<leftarrow> search_ht t key (ht0 d);
    if p \<noteq> None \<or> \<not> dictIsRehashing d then Some (0, idx, p)
    else do {
      (idx, p) \<leftarrow> search_ht t key (ht1 d);
      Some (1, idx, p)
    }
  }"

definition dictFind :: "('k, 'v) dictType \<Rightarrow> 'k \<Rightarrow> ('k, 'v) dict
    \<Rightarrow> (('k, 'v) dict \<times> entry_ref option) option" where
  "dictFind t key d = (
    if ht_size (ht0 d) = 0 then Some (d, None)
    else do {
      d \<leftarrow> rehash_if t d;
      (n, idx, p) \<leftarrow> search_tables t key d;
      Some (d, map_option (\<lambda>p. (n, idx, p)) p)
    })"

definition dictFetchValue :: "('k, 'v) dictType \<Rightarrow> 'k \<Rightarrow> ('k, 'v) dict
    \<Rightarrow> (('k, 'v) dict \<times> 'v option) option" where
  "dictFetchValue t key d = do {
    (d, he) \<leftarrow> dictFind t key d;
    Some (d, Option.bind he (dictGetVal d))
  }"

definition dictKeyIndex :: "bool \<Rightarrow> ('k, 'v) dictType \<Rightarrow> 'k \<Rightarrow> ('k, 'v) dict
    \<Rightarrow> (('k, 'v) dict \<times> nat option) option" where
  "dictKeyIndex can t key d = (
    let (d, r) = dictExpandIfNeeded can d in
    if r = DICT_ERR then Some (d, None)
    else do {
      (n, idx, p) \<leftarrow> search_tables t key d;
      Some (d, if p \<noteq> None then None else Some idx)
    })"

definition dictAddRaw :: "bool \<Rightarrow> ('k, 'v) dictType \<Rightarrow> 'k \<Rightarrow> ('k, 'v) dict
    \<Rightarrow> (('k, 'v) dict \<times> entry_ref option) option" where
  "dictAddRaw can t key d = do {
    d \<leftarrow> rehash_if t d;
    (d, index) \<leftarrow> dictKeyIndex can t key d;
    case index of None \<Rightarrow> Some (d, None)
    | Some i \<Rightarrow>
        let n = (if dictIsRehashing d then 1 else 0);
            entry = \<lparr>de_key = dictSetKey t key, de_val = None\<rparr>
        in Some (dict_ht_update d n (ht_push i entry (dict_ht d n)), Some (n, i, 0))
  }"

definition dictAdd :: "bool \<Rightarrow> ('k, 'v) dictType \<Rightarrow> 'k \<Rightarrow> 'v \<Rightarrow> ('k, 'v) dict
    \<Rightarrow> (('k, 'v) dict \<times> dict_status) option" where
  "dictAdd can t key v d = do {
    (d, entry) \<leftarrow> dictAddRaw can t key d;
    case entry of None \<Rightarrow> Some (d, DICT_ERR)
    | Some r \<Rightarrow> Some (dictSetVal t d r v, DICT_OK)
  }"

text \<open>The result is 1 (\<open>True\<close>) for a new key and 0 for an overwritten value.\<close>

definition dictReplace :: "bool \<Rightarrow> ('k, 'v) dictType \<Rightarrow> 'k \<Rightarrow> 'v \<Rightarrow> ('k, 'v) dict
    \<Rightarrow> (('k, 'v) dict \<times> bool) option" where
  "dictReplace can t key v d = do {
    (d, r) \<leftarrow> dictAdd can t key v d;
    if r = DICT_OK then Some (d, True)
    else do {
      (d, entry) \<leftarrow> dictFind t key d;
      entry \<leftarrow> entry;
      Some (dictSetVal t d entry v, False)
    }
  }"

definition dictReplaceRaw :: "bool \<Rightarrow> ('k, 'v) dictType \<Rightarrow> 'k \<Rightarrow> ('k, 'v) dict
    \<Rightarrow> (('k, 'v) dict \<times> entry_ref option) option" where
  "dictReplaceRaw can t key d = do {
    (d, entry) \<leftarrow> dictFind t key d;
    case entry of Some r \<Rightarrow> Some (d, Some r) | None \<Rightarrow> dictAddRaw can t key d
  }"

text \<open>Unlinks one entry of a chain; the entry removed is the one that gets destroyed.\<close>

definition ht_unlink :: "nat \<Rightarrow> nat \<Rightarrow> ('k, 'v) dictht \<Rightarrow> ('k, 'v) dictht" where
  "ht_unlink i p h = (
    let c = ht_table h ! i in
    h\<lparr>ht_table := (ht_table h)[i := take p c @ drop (Suc p) c], ht_used := ht_used h - 1\<rparr>)"

definition dictGenericDelete :: "('k, 'v) dictType \<Rightarrow> 'k \<Rightarrow> bool \<Rightarrow> ('k, 'v) dict
    \<Rightarrow> (('k, 'v) dict \<times> dict_status \<times> ('k, 'v) dictEntry list) option" where
  "dictGenericDelete t key nofree d = (
    if ht_size (ht0 d) = 0 then Some (d, DICT_ERR, [])
    else do {
      d \<leftarrow> rehash_if t d;
      (n, idx, p) \<leftarrow> search_tables t key d;
      case p of None \<Rightarrow> Some (d, DICT_ERR, [])
      | Some p \<Rightarrow> Some (dict_ht_update d n (ht_unlink idx p (dict_ht d n)), DICT_OK,
                       if nofree then [] else [entry_at d (n, idx, p)])
    })"

definition dictDelete :: "('k, 'v) dictType \<Rightarrow> 'k \<Rightarrow> ('k, 'v) dict
    \<Rightarrow> (('k, 'v) dict \<times> dict_status \<times> ('k, 'v) dictEntry list) option" where
  "dictDelete t key d = dictGenericDelete t key False d"

definition dictDeleteNoFree :: "('k, 'v) dictType \<Rightarrow> 'k \<Rightarrow> ('k, 'v) dict
    \<Rightarrow> (('k, 'v) dict \<times> dict_status \<times> ('k, 'v) dictEntry list) option" where
  "dictDeleteNoFree t key d = dictGenericDelete t key True d"

text \<open>
  \<^verbatim>\<open>_dictClear\<close> destroys the entries of the buckets in order and stops once the element count
  has come down to zero; the destroyed entries are returned with the table.
\<close>

function dictClear_loop :: "nat \<Rightarrow> nat \<Rightarrow> ('k, 'v) dictht \<Rightarrow> ('k, 'v) dictEntry list" where
  "dictClear_loop i used h =
    (if i < ht_size h \<and> used > 0
     then ht_table h ! i @ dictClear_loop (i + 1) (used - length (ht_table h ! i)) h
     else [])"
  by auto
termination
  by (relation "measure (\<lambda>(i, used, h). ht_size h - i)") auto

definition dictClear :: "('k, 'v) dictht \<Rightarrow> ('k, 'v) dictht \<times> ('k, 'v) dictEntry list" where
  "dictClear h = (dictReset, dictClear_loop 0 (ht_used h) h)"

definition dictEmpty :: "('k, 'v) dict \<Rightarrow> ('k, 'v) dict \<times> ('k, 'v) dictEntry list" where
  "dictEmpty d = (
    let (h0, freed0) = dictClear (ht0 d);
        (h1, freed1) = dictClear (ht1 d)
    in (d\<lparr>ht0 := h0, ht1 := h1, rehashidx := -1, iterators := 0\<rparr>, freed0 @ freed1))"

section \<open>Iterators\<close>

text \<open>
  The pointers \<^verbatim>\<open>entry\<close> and \<^verbatim>\<open>nextEntry\<close> of an iterator are the rest of the chain they point to.
  The fingerprint of the dictionary is a function of the addresses of its two tables; they are
  an argument.
\<close>

record ('k, 'v) dictIterator =
  it_table :: nat
  it_index :: int
  it_safe :: bool
  it_entry :: "('k, 'v) chain"
  it_nextEntry :: "('k, 'v) chain"
  it_fingerprint :: "64 word"

definition fingerprint_mix :: "64 word \<Rightarrow> 64 word" where
  "fingerprint_mix hash = (
    let hash = NOT hash + push_bit 21 hash;
        hash = hash XOR signed_drop_bit 24 hash;
        hash = (hash + push_bit 3 hash) + push_bit 8 hash;
        hash = hash XOR signed_drop_bit 14 hash;
        hash = (hash + push_bit 2 hash) + push_bit 4 hash;
        hash = hash XOR signed_drop_bit 28 hash
    in hash + push_bit 31 hash)"

definition dictFingerprint :: "64 word \<times> 64 word \<Rightarrow> ('k, 'v) dict \<Rightarrow> 64 word" where
  "dictFingerprint = (\<lambda>(table0, table1) d.
    foldl (\<lambda>hash n. fingerprint_mix (hash + n)) 0
      [table0, of_nat (ht_size (ht0 d)), of_nat (ht_used (ht0 d)),
       table1, of_nat (ht_size (ht1 d)), of_nat (ht_used (ht1 d))])"

definition dictGetIterator :: "('k, 'v) dictIterator" where
  "dictGetIterator = \<lparr>it_table = 0, it_index = -1, it_safe = False, it_entry = [],
    it_nextEntry = [], it_fingerprint = 0\<rparr>"

definition dictGetSafeIterator :: "('k, 'v) dictIterator" where
  "dictGetSafeIterator = dictGetIterator\<lparr>it_safe := True\<rparr>"

definition iterator_start :: "64 word \<times> 64 word \<Rightarrow> ('k, 'v) dict \<Rightarrow> ('k, 'v) dictIterator
    \<Rightarrow> ('k, 'v) dict \<times> ('k, 'v) dictIterator" where
  "iterator_start addrs d it = (
    if it_index it = -1 \<and> it_table it = 0
    then if it_safe it then (d\<lparr>iterators := iterators d + 1\<rparr>, it)
         else (d, it\<lparr>it_fingerprint := dictFingerprint addrs d\<rparr>)
    else (d, it))"

text \<open>Moves an iterator with no current entry to the next bucket; \<open>None\<close> is the \<^verbatim>\<open>break\<close>.\<close>

definition iterator_advance :: "('k, 'v) dict \<Rightarrow> ('k, 'v) dictIterator
    \<Rightarrow> ('k, 'v) dictIterator \<times> bool" where
  "iterator_advance d it = (
    let index = it_index it + 1;
        it = it\<lparr>it_index := index\<rparr>
    in if index \<ge> int (ht_size (dict_ht d (it_table it)))
       then if dictIsRehashing d \<and> it_table it = 0
            then (it\<lparr>it_table := 1, it_index := 0\<rparr>, True) else (it, False)
       else (it, True))"

definition slots_left :: "('k, 'v) dict \<Rightarrow> ('k, 'v) dictIterator \<Rightarrow> nat" where
  "slots_left d it =
    (if it_table it = 0
     then nat (int (ht_size (ht0 d)) - it_index it) + ht_size (ht1 d) + 1
     else nat (int (ht_size (ht1 d)) - it_index it))"

lemma iterator_start_same:
  "iterator_start addrs d it = (d1, it1) \<Longrightarrow>
    it_index it1 = it_index it \<and> it_table it1 = it_table it \<and> it_entry it1 = it_entry it
    \<and> it_nextEntry it1 = it_nextEntry it \<and> ht0 d1 = ht0 d \<and> ht1 d1 = ht1 d
    \<and> rehashidx d1 = rehashidx d"
  by (auto simp: iterator_start_def split: if_splits)

lemma iterator_advance_slots:
  "iterator_advance d it = (it', True) \<Longrightarrow> slots_left d it' < slots_left d it
    \<and> it_entry it' = it_entry it"
  by (auto simp: iterator_advance_def slots_left_def Let_def dict_ht_def split: if_splits)

function dictNext :: "64 word \<times> 64 word \<Rightarrow> ('k, 'v) dict \<Rightarrow> ('k, 'v) dictIterator
    \<Rightarrow> ('k, 'v) dict \<times> ('k, 'v) dictIterator \<times> ('k, 'v) dictEntry option" where
  "dictNext addrs d it = (
    case it_entry it of
      [] \<Rightarrow>
        let (d, it) = iterator_start addrs d it;
            (it', more) = iterator_advance d it
        in if \<not> more then (d, it', None)
           else (case ht_table (dict_ht d (it_table it')) ! nat (it_index it') of
             [] \<Rightarrow> dictNext addrs d it'
           | e # rest \<Rightarrow> (d, it'\<lparr>it_entry := e # rest, it_nextEntry := rest\<rparr>, Some e))
    | _ # _ \<Rightarrow>
       (case it_nextEntry it of
          [] \<Rightarrow> dictNext addrs d (it\<lparr>it_entry := []\<rparr>)
        | e # rest \<Rightarrow> (d, it\<lparr>it_entry := e # rest, it_nextEntry := rest\<rparr>, Some e)))"
  by auto
termination
proof (relation "measures [\<lambda>(addrs, d, it). slots_left d it,
    \<lambda>(addrs, d, it). if it_entry it = [] then 0 else 1]", goal_cases)
  case 1
  show ?case by simp
next
  case (2 addrs d it p d1 it1 q it' more)
  then have "iterator_start addrs d it = (d1, it1)" "iterator_advance d1 it1 = (it', True)"
    by auto
  moreover from this have "slots_left d1 it1 = slots_left d it"
    using iterator_start_same [of addrs d it d1 it1] by (simp add: slots_left_def)
  ultimately show ?case using iterator_advance_slots by fastforce
next
  case (3 addrs d it)
  then show ?case by (auto simp: slots_left_def)
qed

declare dictNext.simps [simp del] skip_empty.simps [simp del] dictNextPower_loop.simps [simp del]
  dictClear_loop.simps [simp del]

text \<open>The result is false when the assertion on the fingerprint of an unsafe iterator fails.\<close>

definition dictReleaseIterator :: "64 word \<times> 64 word \<Rightarrow> ('k, 'v) dict \<Rightarrow> ('k, 'v) dictIterator
    \<Rightarrow> ('k, 'v) dict option" where
  "dictReleaseIterator addrs d it = (
    if \<not> (it_index it = -1 \<and> it_table it = 0)
    then if it_safe it then Some (d\<lparr>iterators := iterators d - 1\<rparr>)
         else if it_fingerprint it = dictFingerprint addrs d then Some d else None
    else Some d)"

end
