(* ===== verification/Dict_Map.thy ===== *)
theory Dict_Map
  imports Dict "HOL-Library.Multiset"
begin

text \<open>
  What the dictionary promises: it is a finite map.  The invariant \<open>dict_inv\<close> of the two tables,
  the map \<open>dict_abs\<close> they stand for, and one lemma for each operation of \<^verbatim>\<open>dict.c\<close> saying that it
  never fails an assertion, keeps the invariant and acts on the map; the locale \<open>dict_type\<close>
  is the contract between the dictionary and the functions of its \<^verbatim>\<open>dictType\<close>.
\<close>

definition ht_entries :: "('k, 'v) dictht \<Rightarrow> ('k, 'v) chain" where
  "ht_entries h = concat (ht_table h)"

definition dict_entries :: "('k, 'v) dict \<Rightarrow> ('k, 'v) chain" where
  "dict_entries d = ht_entries (ht0 d) @ ht_entries (ht1 d)"

definition ht_ok :: "('k, 'v) dictType \<Rightarrow> ('k, 'v) dictht \<Rightarrow> bool" where
  "ht_ok t h \<longleftrightarrow> length (ht_table h) = ht_size h \<and> ht_sizemask h = ht_size h - 1
    \<and> ht_used h = length (ht_entries h)
    \<and> (\<forall>i < ht_size h. \<forall>e \<in> set (ht_table h ! i). bucket_of t (de_key e) h = i)"

definition matching :: "('k, 'v) dictType \<Rightarrow> 'k \<Rightarrow> ('k, 'v) dictEntry \<Rightarrow> bool" where
  "matching t k e = dictCompareKeys t k (de_key e)"

definition distinct_keys :: "('k, 'v) dictType \<Rightarrow> ('k, 'v) chain \<Rightarrow> bool" where
  "distinct_keys t es \<longleftrightarrow> (\<forall>k. length (filter (matching t k) es) \<le> 1)"

definition dict_inv :: "('k, 'v) dictType \<Rightarrow> ('k, 'v) dict \<Rightarrow> bool" where
  "dict_inv t d \<longleftrightarrow> ht_ok t (ht0 d) \<and> ht_ok t (ht1 d) \<and> distinct_keys t (dict_entries d)
    \<and> (if dictIsRehashing d
       then ht_size (ht0 d) > 0 \<and> ht_size (ht1 d) > 0 \<and> rehashidx d \<ge> 0
         \<and> (\<forall>i < nat (rehashidx d). i < ht_size (ht0 d) \<longrightarrow> ht_table (ht0 d) ! i = [])
       else ht1 d = dictReset)"

text \<open>The value stored under a key: absent, present but not set yet, or set.\<close>

definition dict_abs :: "('k, 'v) dictType \<Rightarrow> ('k, 'v) dict \<Rightarrow> 'k \<Rightarrow> 'v option option" where
  "dict_abs t d k = map_option de_val (find (matching t k) (dict_entries d))"

section \<open>Tables\<close>

lemma mset_concat_update:
  "i < length xs \<Longrightarrow> mset (concat (xs[i := c])) + mset (xs ! i) = mset (concat xs) + mset c"
proof -
  assume i: "i < length xs"
  have "concat xs = concat (take i xs) @ xs ! i @ concat (drop (Suc i) xs)"
    using id_take_nth_drop [OF i] by (metis concat.simps(2) concat_append)
  moreover have "concat (xs[i := c]) = concat (take i xs) @ c @ concat (drop (Suc i) xs)"
    using i by (simp add: upd_conv_take_nth_drop)
  ultimately show ?thesis by simp
qed

lemma nat_and_le: "(m :: nat) AND n \<le> n"
proof -
  have "int (m AND n) \<le> int n" unfolding of_nat_and_eq by (rule AND_upper2) simp
  then show ?thesis by simp
qed

lemma bucket_of_lt [simp]: "ht_ok t h \<Longrightarrow> 0 < ht_size h \<Longrightarrow> bucket_of t k h < ht_size h"
  using nat_and_le [of "unat (hashFunction t k)" "ht_sizemask h"]
  by (simp add: ht_ok_def bucket_of_def)

lemma bucket_of_cong: "ht_sizemask h' = ht_sizemask h \<Longrightarrow> bucket_of t k h' = bucket_of t k h"
  by (simp add: bucket_of_def)

lemma ht_ok_reset [simp]: "ht_ok t dictReset" "ht_entries dictReset = []"
  by (simp_all add: ht_ok_def dictReset_def ht_entries_def)

lemma ht_ok_set_chain:
  assumes "ht_ok t h" "i < ht_size h" "\<forall>e \<in> set c. bucket_of t (de_key e) h = i"
    and "ht_table h' = (ht_table h)[i := c]" "ht_size h' = ht_size h"
      "ht_sizemask h' = ht_sizemask h" "ht_used h' = length (ht_entries h')"
  shows "ht_ok t h'"
  using assms unfolding ht_ok_def
  by (auto simp: bucket_of_cong [of h' h] nth_list_update split: if_splits)

lemma set_chain_entries:
  assumes "ht_ok t h" "i < ht_size h" "ht_table h' = (ht_table h)[i := c]"
  shows "mset (ht_entries h') + mset (ht_table h ! i) = mset (ht_entries h) + mset c"
  using assms mset_concat_update [of i "ht_table h" c] by (simp add: ht_entries_def ht_ok_def)

lemma ht_push_ok:
  assumes "ht_ok t h" "0 < ht_size h" "bucket_of t (de_key e) h = i"
  shows "ht_ok t (ht_push i e h)" "mset (ht_entries (ht_push i e h)) = add_mset e (mset (ht_entries h))"
    "ht_size (ht_push i e h) = ht_size h" "ht_sizemask (ht_push i e h) = ht_sizemask h"
proof -
  let ?h = "ht_push i e h"
  have i: "i < ht_size h" using assms by auto
  have tab: "ht_table ?h = (ht_table h)[i := e # ht_table h ! i]" by (simp add: ht_push_def)
  show m: "mset (ht_entries ?h) = add_mset e (mset (ht_entries h))"
    using set_chain_entries [OF assms(1) i tab] by simp
  show sz: "ht_size ?h = ht_size h" "ht_sizemask ?h = ht_sizemask h"
    by (simp_all add: ht_push_def)
  have "ht_used ?h = length (ht_entries ?h)"
    using arg_cong [OF m, of size] assms(1) by (simp add: ht_push_def ht_ok_def)
  moreover have "\<forall>e' \<in> set (e # ht_table h ! i). bucket_of t (de_key e') h = i"
    using assms i by (simp add: ht_ok_def)
  ultimately show "ht_ok t ?h" using ht_ok_set_chain [OF assms(1) i _ tab] sz by simp
qed

lemma move_chain_ok:
  assumes "ht_ok t h1" "0 < ht_size h1" "length c \<le> ht_used h0"
  shows "\<exists>h1'. move_chain t c h0 h1 = (h0\<lparr>ht_used := ht_used h0 - length c\<rparr>, h1')
    \<and> ht_ok t h1' \<and> ht_size h1' = ht_size h1
    \<and> mset (ht_entries h1') = mset c + mset (ht_entries h1)"
  using assms
proof (induction c arbitrary: h0 h1)
  case Nil
  then show ?case by simp
next
  case (Cons e c)
  let ?h = "ht_push (bucket_of t (de_key e) h1) e h1"
  note p = ht_push_ok [OF Cons.prems(1,2) refl, of e]
  have "0 < ht_size ?h" "length c \<le> ht_used (h0\<lparr>ht_used := ht_used h0 - 1\<rparr>)"
    using p(3) Cons.prems by simp_all
  from Cons.IH [OF p(1) this]
  obtain h1' where "move_chain t c (h0\<lparr>ht_used := ht_used h0 - 1\<rparr>) ?h
      = (h0\<lparr>ht_used := ht_used h0 - 1 - length c\<rparr>, h1')" "ht_ok t h1'"
    "ht_size h1' = ht_size h1" "mset (ht_entries h1') = mset c + mset (ht_entries ?h)"
    using p(3) by auto
  then show ?case using p(2) by simp
qed

lemma skip_empty_finds:
  assumes "i \<le> j" "j < length tbl" "tbl ! j \<noteq> []"
  shows "\<exists>k. skip_empty tbl i = Some k \<and> i \<le> k \<and> k \<le> j \<and> tbl ! k \<noteq> []
    \<and> (\<forall>l. i \<le> l \<and> l < k \<longrightarrow> tbl ! l = [])"
  using assms
proof (induction "j - i" arbitrary: i)
  case 0
  then have "skip_empty tbl i = Some i" by (subst skip_empty.simps) auto
  then show ?case using 0 by auto
next
  case (Suc n)
  show ?case
  proof (cases "tbl ! i = []")
    case True
    then have "i \<noteq> j" using Suc.prems by auto
    then have "n = j - (i + 1)" "i + 1 \<le> j" using Suc.hyps(2) Suc.prems(1) by arith+
    then obtain k where "skip_empty tbl (i + 1) = Some k" "i + 1 \<le> k" "k \<le> j" "tbl ! k \<noteq> []"
        "\<forall>l. i + 1 \<le> l \<and> l < k \<longrightarrow> tbl ! l = []"
      using Suc.hyps(1) [of "i + 1"] Suc.prems by blast
    moreover have "skip_empty tbl i = skip_empty tbl (i + 1)"
      using True Suc.prems by (subst skip_empty.simps) simp
    ultimately show ?thesis using True
      by (metis Suc_eq_plus1 Suc_leD le_eq_less_or_eq less_eq_Suc_le)
  qed (use Suc.prems in \<open>auto simp: skip_empty.simps [of tbl i]\<close>)
qed

section \<open>Entries and the map\<close>

lemma find_append: "find P (us @ vs) = (case find P us of None \<Rightarrow> find P vs | Some x \<Rightarrow> Some x)"
  by (induction us) auto

lemma length_filter_mset: "length (filter P xs) = size (filter_mset P (mset xs))"
  by (metis mset_filter size_mset)

lemma length_filter_add:
  "mset es' = add_mset e (mset es) \<Longrightarrow>
    length (filter P es') = (if P e then 1 else 0) + length (filter P es)"
  by (simp only: length_filter_mset) simp

lemma distinct_keys_mset:
  "mset xs = mset ys \<Longrightarrow> distinct_keys t xs \<longleftrightarrow> distinct_keys t ys"
  unfolding distinct_keys_def by (metis mset_filter size_mset)

lemma distinct_keys_find:
  assumes "distinct_keys t es"
  shows "find (matching t k) es = Some e \<longleftrightarrow> e \<in> set es \<and> matching t k e"
proof
  assume "find (matching t k) es = Some e"
  then show "e \<in> set es \<and> matching t k e" by (auto simp: find_Some_iff)
next
  assume e: "e \<in> set es \<and> matching t k e"
  then obtain e' where f: "find (matching t k) es = Some e'"
    by (metis find_None_iff not_None_eq)
  have "length (filter (matching t k) es) \<le> 1" using assms by (simp add: distinct_keys_def)
  moreover have "e \<in> set (filter (matching t k) es)" "e' \<in> set (filter (matching t k) es)"
    using e f by (auto simp: find_Some_iff)
  ultimately have "e = e'"
    by (metis One_nat_def in_set_conv_nth le_less_Suc_eq less_Suc0 less_le_trans not_less)
  then show "find (matching t k) es = Some e" using f by simp
qed

lemma dict_abs_mset:
  assumes "distinct_keys t (dict_entries d)" "mset (dict_entries d') = mset (dict_entries d)"
  shows "dict_abs t d' = dict_abs t d"
proof
  fix k
  have "find (matching t k) (dict_entries d') = find (matching t k) (dict_entries d)"
    using distinct_keys_find [of t "dict_entries d"] distinct_keys_find [of t "dict_entries d'"]
      distinct_keys_mset [OF assms(2)] assms mset_eq_setD [OF assms(2)]
    by (metis option.exhaust)
  then show "dict_abs t d' k = dict_abs t d k" by (simp add: dict_abs_def)
qed

text \<open>The same dictionary in other tables.\<close>

definition dict_same :: "('k, 'v) dictType \<Rightarrow> ('k, 'v) dict \<Rightarrow> ('k, 'v) dict \<Rightarrow> bool" where
  "dict_same t d d' \<longleftrightarrow> dict_inv t d' \<and> mset (dict_entries d') = mset (dict_entries d)
    \<and> iterators d' = iterators d \<and> (ht_size (ht0 d) > 0 \<longrightarrow> ht_size (ht0 d') > 0)"

lemma dict_same_refl: "dict_inv t d \<Longrightarrow> dict_same t d d"
  by (simp add: dict_same_def)

lemma dict_same_trans: "dict_same t d d1 \<Longrightarrow> dict_same t d1 d2 \<Longrightarrow> dict_same t d d2"
  by (simp add: dict_same_def)

lemma dict_same_abs: "dict_inv t d \<Longrightarrow> dict_same t d d' \<Longrightarrow> dict_abs t d' = dict_abs t d"
  by (rule dict_abs_mset) (simp_all add: dict_same_def dict_inv_def)

section \<open>Rehashing keeps every entry\<close>

lemma rehash_bucket_same:
  assumes inv: "dict_inv t d" and re: "dictIsRehashing d" and i: "i < ht_size (ht0 d)"
    and below: "\<forall>l < i. ht_table (ht0 d) ! l = []"
  shows "dict_same t d (rehash_bucket t i d)" "dictIsRehashing (rehash_bucket t i d)"
proof -
  let ?c = "ht_table (ht0 d) ! i"
  have ok: "ht_ok t (ht0 d)" "ht_ok t (ht1 d)" "0 < ht_size (ht1 d)" "distinct_keys t (dict_entries d)"
    using inv re by (auto simp: dict_inv_def)
  obtain h0 where h0: "h0 = (ht0 d)\<lparr>ht_used := ht_used (ht0 d) - length ?c,
      ht_table := (ht_table (ht0 d))[i := []]\<rparr>" by simp
  then have h0s: "ht_table h0 = (ht_table (ht0 d))[i := []]" "ht_size h0 = ht_size (ht0 d)"
      "ht_sizemask h0 = ht_sizemask (ht0 d)" "ht_used h0 = ht_used (ht0 d) - length ?c"
    by simp_all
  have m0: "mset (ht_entries h0) + mset ?c = mset (ht_entries (ht0 d))"
    using set_chain_entries [OF ok(1) i h0s(1)] by simp
  have "length (ht_entries h0) + length ?c = length (ht_entries (ht0 d))"
    using arg_cong [OF m0, of size] by simp
  then have len: "length ?c \<le> ht_used (ht0 d)"
      and used: "ht_used (ht0 d) - length ?c = length (ht_entries h0)"
    using ok(1) by (simp_all add: ht_ok_def)
  have ok0: "ht_ok t h0"
    by (rule ht_ok_set_chain [OF ok(1) i, of "[]"]) (simp_all add: h0s used)
  from move_chain_ok [OF ok(2,3) len] obtain h1 where mc: "move_chain t ?c (ht0 d) (ht1 d)
      = ((ht0 d)\<lparr>ht_used := ht_used (ht0 d) - length ?c\<rparr>, h1)"
    and ok1: "ht_ok t h1" "ht_size h1 = ht_size (ht1 d)"
      "mset (ht_entries h1) = mset ?c + mset (ht_entries (ht1 d))" by auto
  have r: "rehash_bucket t i d = d\<lparr>ht0 := h0, ht1 := h1, rehashidx := int i + 1\<rparr>"
    using h0 by (simp add: rehash_bucket_def mc)
  then show re': "dictIsRehashing (rehash_bucket t i d)" by (simp add: dictIsRehashing_def)
  have ms: "mset (dict_entries (rehash_bucket t i d)) = mset (dict_entries d)"
    using m0 ok1(3) by (simp add: dict_entries_def r add.assoc [symmetric])
  then have "distinct_keys t (dict_entries (rehash_bucket t i d))"
    using distinct_keys_mset ok(4) by blast
  moreover have "\<forall>l < i + 1. l < ht_size h0 \<longrightarrow> ht_table h0 ! l = []"
    using below i ok(1) by (auto simp: h0s nth_list_update ht_ok_def less_Suc_eq)
  ultimately show "dict_same t d (rehash_bucket t i d)"
    using ok0 ok1 re' ms i inv re unfolding dict_same_def dict_inv_def
    by (auto simp: r h0s nat_add_distrib)
qed

lemma nonempty_bucket:
  assumes "ht_ok t h" "ht_used h \<noteq> 0"
  obtains j where "j < ht_size h" "ht_table h ! j \<noteq> []"
proof -
  have "concat (ht_table h) \<noteq> []" using assms by (auto simp: ht_ok_def ht_entries_def)
  then obtain c where "c \<in> set (ht_table h)" "c \<noteq> []" by auto
  then show ?thesis using assms that by (auto simp: in_set_conv_nth ht_ok_def)
qed

lemma dictRehash_loop_same:
  "dict_inv t d \<Longrightarrow> dictIsRehashing d \<Longrightarrow>
    \<exists>d' b. dictRehash_loop t n d = Some (d', b) \<and> dict_same t d d' \<and> b = dictIsRehashing d'"
proof (induction n arbitrary: d)
  case 0
  then show ?case by (simp add: dict_same_refl)
next
  case (Suc n)
  then have ok: "ht_ok t (ht0 d)" "ht_ok t (ht1 d)" "0 < ht_size (ht1 d)" "0 \<le> rehashidx d"
    "\<forall>i < nat (rehashidx d). i < ht_size (ht0 d) \<longrightarrow> ht_table (ht0 d) ! i = []"
    by (auto simp: dict_inv_def)
  show ?case
  proof (cases "ht_used (ht0 d) = 0")
    case True
    then have "ht_entries (ht0 d) = []" using ok(1) by (simp add: ht_ok_def)
    then show ?thesis using True Suc.prems ok
      by (auto simp: dict_same_def dict_inv_def dictIsRehashing_def dict_entries_def)
  next
    case False
    obtain j where j: "j < ht_size (ht0 d)" "ht_table (ht0 d) ! j \<noteq> []"
      using nonempty_bucket [OF ok(1) False] by auto
    then have ge: "nat (rehashidx d) \<le> j" using ok(5) by (meson not_less)
    obtain k where k: "skip_empty (ht_table (ht0 d)) (nat (rehashidx d)) = Some k"
        "k \<le> j" "nat (rehashidx d) \<le> k"
        "\<forall>l. nat (rehashidx d) \<le> l \<and> l < k \<longrightarrow> ht_table (ht0 d) ! l = []"
      using skip_empty_finds [OF ge _ j(2)] j(1) ok(1) unfolding ht_ok_def by metis
    have kl: "k < ht_size (ht0 d)" and below: "\<forall>l < k. ht_table (ht0 d) ! l = []"
      using k j ok(5) by (auto simp: not_le [symmetric])
    note s = rehash_bucket_same [OF Suc.prems kl below]
    then have "dict_inv t (rehash_bucket t k d)" by (simp add: dict_same_def)
    from Suc.IH [OF this s(2)] obtain d' b where
      "dictRehash_loop t n (rehash_bucket t k d) = Some (d', b)"
      "dict_same t (rehash_bucket t k d) d'" "b = dictIsRehashing d'" by auto
    then show ?thesis using False k(1) ge j ok(4) dict_same_trans [OF s(1)] by auto
  qed
qed

lemma dictRehash_same:
  "dict_inv t d \<Longrightarrow> \<exists>d' b. dictRehash t n d = Some (d', b) \<and> dict_same t d d' \<and> b = dictIsRehashing d'"
  using dictRehash_loop_same [of t d n] by (auto simp: dictRehash_def dict_same_refl)

lemma rehash_if_same:
  assumes "dict_inv t d"
  obtains d' where "rehash_if t d = Some d'" "dict_same t d d'"
proof -
  obtain d' b where "dictRehash t 1 d = Some (d', b)" "dict_same t d d'"
    using dictRehash_same [OF assms] by blast
  then show ?thesis using that dict_same_refl [OF assms]
    by (cases "dictIsRehashing d \<and> iterators d = 0") (auto simp: rehash_if_def dictRehashStep_def)
qed

section \<open>The contract of the key functions\<close>

locale dict_type =
  fixes t :: "('k, 'v) dictType"
  assumes cmp_refl: "dictCompareKeys t k k"
    and cmp_sym: "dictCompareKeys t k k' \<Longrightarrow> dictCompareKeys t k' k"
    and cmp_trans: "dictCompareKeys t k k' \<Longrightarrow> dictCompareKeys t k' k'' \<Longrightarrow> dictCompareKeys t k k''"
    and hash_cmp: "dictCompareKeys t k k' \<Longrightarrow> hashFunction t k = hashFunction t k'"
    and dup_cmp: "dictCompareKeys t k (dictSetKey t k)"
begin

lemma find_add:
  assumes "distinct_keys t es" "mset es' = add_mset e (mset es)"
    and "\<forall>e' \<in> set es. \<not> dictCompareKeys t (de_key e) (de_key e')"
  shows "distinct_keys t es'"
    and "find (matching t k) es' = (if dictCompareKeys t k (de_key e) then Some e
      else find (matching t k) es)"
proof -
  have none: "length (filter (matching t k) es) = 0" if "matching t k e" for k
    using assms(3) cmp_sym cmp_trans that unfolding matching_def
    by (metis (no_types, lifting) filter_False list.size(3))
  show d: "distinct_keys t es'" unfolding distinct_keys_def
  proof
    fix k
    show "length (filter (matching t k) es') \<le> 1"
      using length_filter_add [OF assms(2), of "matching t k"] none [of k] assms(1)
      by (auto simp: distinct_keys_def split: if_splits)
  qed
  have st: "set es' = insert e (set es)" using assms(2) by (metis set_mset_add_mset_insert set_mset_mset)
  show "find (matching t k) es' = (if dictCompareKeys t k (de_key e) then Some e
      else find (matching t k) es)"
  proof (cases "dictCompareKeys t k (de_key e)")
    case True
    then show ?thesis using distinct_keys_find [OF d] st by (simp add: matching_def)
  next
    case False
    then have "find (matching t k) es' = Some x \<longleftrightarrow> find (matching t k) es = Some x" for x
      unfolding distinct_keys_find [OF d] distinct_keys_find [OF assms(1)]
      by (auto simp: st matching_def)
    then show ?thesis using False by (metis option.exhaust)
  qed
qed

lemma find_remove:
  assumes "distinct_keys t es" "mset es = add_mset e (mset es')"
  shows "distinct_keys t es'"
    and "find (matching t k) es' = (if dictCompareKeys t k (de_key e) then None
      else find (matching t k) es)"
    and "\<forall>e' \<in> set es'. \<not> dictCompareKeys t (de_key e) (de_key e')"
proof -
  note flt = length_filter_add [OF assms(2)]
  show d: "distinct_keys t es'"
    using assms(1) unfolding distinct_keys_def flt by (metis add_leE)
  show no: "\<forall>e' \<in> set es'. \<not> dictCompareKeys t (de_key e) (de_key e')"
  proof -
    have "length (filter (matching t (de_key e)) es') = 0"
    proof -
      have "matching t (de_key e) e" using cmp_refl by (simp add: matching_def)
      then have "length (filter (matching t (de_key e)) es) =
          1 + length (filter (matching t (de_key e)) es')"
        by (simp only: flt if_True)
      moreover have "length (filter (matching t (de_key e)) es) \<le> 1"
        using assms(1) unfolding distinct_keys_def by blast
      ultimately show ?thesis by linarith
    qed
    then show ?thesis by (simp add: matching_def filter_empty_conv)
  qed
  show "find (matching t k) es' = (if dictCompareKeys t k (de_key e) then None
      else find (matching t k) es)"
  proof (cases "dictCompareKeys t k (de_key e)")
    case True
    then have "\<forall>e' \<in> set es'. \<not> matching t k e'"
      using no cmp_sym cmp_trans unfolding matching_def by blast
    then show ?thesis using True by (simp add: find_None_iff)
  next
    case False
    then show ?thesis using find_add(2) [OF d assms(2) no, of k] by simp
  qed
qed

lemma chain_find_find:
  "map_option (\<lambda>p. c ! p) (chain_find t k c) = find (matching t k) c"
  "chain_find t k c = Some p \<Longrightarrow> p < length c"
proof -
  show "map_option (\<lambda>p. c ! p) (chain_find t k c) = find (matching t k) c"
    by (induction c) (auto simp: matching_def option.map_comp comp_def)
  show "chain_find t k c = Some p \<Longrightarrow> p < length c"
    by (induction c arbitrary: p) (auto split: if_splits)
qed

lemma find_concat:
  assumes "b < length xs" "\<And>i. i < length xs \<Longrightarrow> i \<noteq> b \<Longrightarrow> \<forall>x \<in> set (xs ! i). \<not> P x"
  shows "find P (concat xs) = find P (xs ! b)"
proof -
  have out: "\<not> P x" if "c \<in> set (take b xs) \<or> c \<in> set (drop (Suc b) xs)" "x \<in> set c" for c x
  proof -
    from that(1) obtain i where "i < length xs" "i \<noteq> b" "c = xs ! i"
    proof
      assume "c \<in> set (take b xs)"
      then show ?thesis using that by (auto simp: in_set_conv_nth)
    next
      assume "c \<in> set (drop (Suc b) xs)"
      then obtain i where "i < length xs - Suc b" "c = xs ! (Suc b + i)"
        by (auto simp: in_set_conv_nth)
      then show ?thesis using that [of "Suc b + i"] by simp
    qed
    then show ?thesis using assms(2) that(2) by blast
  qed
  then have "find P (concat (take b xs)) = None" "find P (concat (drop (Suc b) xs)) = None"
    unfolding find_None_iff set_concat by blast+
  moreover have "concat xs = concat (take b xs) @ xs ! b @ concat (drop (Suc b) xs)"
    using id_take_nth_drop [OF assms(1)] by (metis concat.simps(2) concat_append)
  ultimately show ?thesis by (simp add: find_append split: option.splits)
qed

lemma search_ht_find:
  assumes ok: "ht_ok t h" and sz: "0 < ht_size h"
  shows "search_ht t k h = Some (bucket_of t k h, chain_find t k (ht_table h ! bucket_of t k h))"
    "find (matching t k) (ht_entries h)
      = map_option (\<lambda>p. ht_table h ! bucket_of t k h ! p) (chain_find t k (ht_table h ! bucket_of t k h))"
proof -
  let ?b = "bucket_of t k h"
  have b: "?b < length (ht_table h)" using bucket_of_lt [OF ok sz] ok by (simp add: ht_ok_def)
  then show "search_ht t k h = Some (?b, chain_find t k (ht_table h ! ?b))"
    by (simp add: search_ht_def Let_def)
  have "find (matching t k) (ht_entries h) = find (matching t k) (ht_table h ! ?b)"
    unfolding ht_entries_def
  proof (rule find_concat [OF b])
    fix i assume i: "i < length (ht_table h)" "i \<noteq> ?b"
    show "\<forall>e \<in> set (ht_table h ! i). \<not> matching t k e"
    proof (intro ballI notI)
      fix e assume e: "e \<in> set (ht_table h ! i)" "matching t k e"
      then have "bucket_of t (de_key e) h = i" using ok i by (simp add: ht_ok_def)
      moreover have "bucket_of t (de_key e) h = ?b"
        using hash_cmp e(2) by (simp add: matching_def bucket_of_def)
      ultimately show False using i by simp
    qed
  qed
  then show "find (matching t k) (ht_entries h)
      = map_option (\<lambda>p. ht_table h ! ?b ! p) (chain_find t k (ht_table h ! ?b))"
    by (simp add: chain_find_find)
qed

text \<open>Where a key is, or where it would go.\<close>

definition located :: "'k \<Rightarrow> ('k, 'v) dict \<Rightarrow> nat \<Rightarrow> nat \<Rightarrow> nat option \<Rightarrow> bool" where
  "located k d n i p \<longleftrightarrow>
    i = bucket_of t k (dict_ht d n) \<and> 0 < ht_size (dict_ht d n) \<and> ht_ok t (dict_ht d n)
    \<and> map_option (\<lambda>p. entry_at d (n, i, p)) p = find (matching t k) (dict_entries d)
    \<and> (\<forall>q. p = Some q \<longrightarrow> q < length (ht_table (dict_ht d n) ! i))
    \<and> (n = 0 \<or> n = 1 \<and> dictIsRehashing d)
    \<and> (p = None \<longrightarrow> n = (if dictIsRehashing d then 1 else 0))"

lemma search_tables_located:
  assumes inv: "dict_inv t d" and sz: "0 < ht_size (ht0 d)"
  obtains n i p where "search_tables t k d = Some (n, i, p)" "located k d n i p"
proof -
  have ok0: "ht_ok t (ht0 d)" using inv by (simp add: dict_inv_def)
  note s0 = search_ht_find [OF ok0 sz, of k]
  let ?p0 = "chain_find t k (ht_table (ht0 d) ! bucket_of t k (ht0 d))"
  show ?thesis
  proof (cases "?p0 \<noteq> None \<or> \<not> dictIsRehashing d")
    case True
    have "find (matching t k) (dict_entries d) = find (matching t k) (ht_entries (ht0 d))"
      using True inv s0(2)
      by (auto simp: dict_entries_def find_append dict_inv_def split: option.splits)
    then have "located k d 0 (bucket_of t k (ht0 d)) ?p0"
      using s0 True ok0 sz chain_find_find(2)
      by (auto simp: located_def dict_ht_def entry_at_def)
    then show ?thesis using that True s0(1) by (simp add: search_tables_def)
  next
    case False
    then have re: "dictIsRehashing d" and p0: "?p0 = None" by simp_all
    have ok1: "ht_ok t (ht1 d)" "0 < ht_size (ht1 d)" using inv re by (auto simp: dict_inv_def)
    note s1 = search_ht_find [OF ok1, of k]
    let ?p1 = "chain_find t k (ht_table (ht1 d) ! bucket_of t k (ht1 d))"
    have "find (matching t k) (dict_entries d) = find (matching t k) (ht_entries (ht1 d))"
      using p0 s0(2) by (simp add: dict_entries_def find_append)
    then have "located k d 1 (bucket_of t k (ht1 d)) ?p1"
      using s1 re ok1 chain_find_find(2)
      by (auto simp: located_def dict_ht_def entry_at_def)
    then show ?thesis using that re p0 s0(1) s1(1) by (simp add: search_tables_def)
  qed
qed

text \<open>
  Replacing one chain: the invariant stays, provided the chain replaced was not one of those
  that rehashing has emptied, and the keys are still distinct.
\<close>

lemma dict_inv_set_chain:
  assumes inv: "dict_inv t d" and n: "n = 0 \<or> n = 1 \<and> dictIsRehashing d"
    and i: "i < ht_size (dict_ht d n)" and c: "\<forall>e \<in> set c. bucket_of t (de_key e) (dict_ht d n) = i"
    and h: "ht_table h = (ht_table (dict_ht d n))[i := c]" "ht_size h = ht_size (dict_ht d n)"
      "ht_sizemask h = ht_sizemask (dict_ht d n)" "ht_used h = length (ht_entries h)"
    and old: "n = 0 \<longrightarrow> dictIsRehashing d \<longrightarrow> ht_table (ht0 d) ! i \<noteq> []"
    and dist: "distinct_keys t (dict_entries (dict_ht_update d n h))"
  shows "dict_inv t (dict_ht_update d n h)"
proof -
  have okn: "ht_ok t (dict_ht d n)" using inv by (simp add: dict_inv_def dict_ht_def)
  have okh: "ht_ok t h" by (rule ht_ok_set_chain [OF okn i c h])
  show ?thesis
  proof (cases "n = 0")
    case True
    have "\<forall>l < nat (rehashidx d). l < ht_size (ht0 d) \<longrightarrow> ht_table h ! l = []"
      if re: "dictIsRehashing d"
    proof -
      have "\<not> i < nat (rehashidx d)" using True old re inv i by (auto simp: dict_inv_def dict_ht_def)
      then show ?thesis using True inv re h(1) by (auto simp: dict_inv_def dict_ht_def nth_list_update)
    qed
    then show ?thesis using True inv okh dist h(2)
      by (auto simp: dict_inv_def dict_ht_update_def dict_ht_def dictIsRehashing_def)
  next
    case False
    then show ?thesis using n inv okh dist h(2)
      by (auto simp: dict_inv_def dict_ht_update_def dict_ht_def dictIsRehashing_def)
  qed
qed

lemma dict_entries_set_chain:
  assumes inv: "dict_inv t d" and i: "i < ht_size (dict_ht d n)"
    and h: "ht_table h = (ht_table (dict_ht d n))[i := c]"
  shows "mset (dict_entries (dict_ht_update d n h)) + mset (ht_table (dict_ht d n) ! i)
    = mset (dict_entries d) + mset c"
proof -
  have okn: "ht_ok t (dict_ht d n)" using inv by (simp add: dict_inv_def dict_ht_def)
  show ?thesis using set_chain_entries [OF okn i h]
    by (auto simp: dict_entries_def dict_ht_update_def dict_ht_def add_ac split: if_splits)
qed

lemma dict_used_entries:
  "ht_ok t h \<Longrightarrow> ht_used h = length (ht_entries h)"
  by (simp add: ht_ok_def)

text \<open>Linking a new entry.\<close>

lemma dict_push:
  assumes inv: "dict_inv t d" and loc: "located k d n i None"
    and key: "dictCompareKeys t k (de_key e)"
  shows "dict_inv t (dict_ht_update d n (ht_push i e (dict_ht d n)))"
    "dict_abs t (dict_ht_update d n (ht_push i e (dict_ht d n)))
      = (\<lambda>k'. if dictCompareKeys t k' k then Some (de_val e) else dict_abs t d k')"
proof -
  let ?h = "ht_push i e (dict_ht d n)" and ?d = "dict_ht_update d n (ht_push i e (dict_ht d n))"
  have dk: "distinct_keys t (dict_entries d)" using inv by (simp add: dict_inv_def)
  have "i = bucket_of t k (dict_ht d n) \<and> 0 < ht_size (dict_ht d n) \<and> ht_ok t (dict_ht d n)"
    using loc unfolding located_def by blast
  then have i: "i = bucket_of t (de_key e) (dict_ht d n)" "0 < ht_size (dict_ht d n)"
      "ht_ok t (dict_ht d n)"
    using hash_cmp [OF key] by (auto simp: bucket_of_def)
  note p = ht_push_ok [OF i(3,2) i(1) [symmetric]]
  have il: "i < ht_size (dict_ht d n)" using bucket_of_lt [OF i(3,2)] i(1) by simp
  have tab: "ht_table ?h = (ht_table (dict_ht d n))[i := e # ht_table (dict_ht d n) ! i]"
    by (simp add: ht_push_def)
  have ms: "mset (dict_entries ?d) = add_mset e (mset (dict_entries d))"
    using dict_entries_set_chain [OF inv il tab] by simp
  have "find (matching t k) (dict_entries d) = None"
    using loc unfolding located_def by simp
  then have "\<forall>e' \<in> set (dict_entries d). \<not> matching t k e'" by (simp add: find_None_iff)
  then have new: "\<forall>e' \<in> set (dict_entries d). \<not> dictCompareKeys t (de_key e) (de_key e')"
    using key cmp_trans unfolding matching_def by blast
  note fa = find_add [OF dk ms new]
  have bk: "\<forall>e' \<in> set (e # ht_table (dict_ht d n) ! i). bucket_of t (de_key e') (dict_ht d n) = i"
    using i il by (auto simp: ht_ok_def)
  show "dict_inv t ?d"
    by (rule dict_inv_set_chain [OF inv _ il bk tab p(3,4) dict_used_entries [OF p(1)] _ fa(1)])
      (use loc in \<open>auto simp: located_def split: if_splits\<close>)
  show "dict_abs t ?d = (\<lambda>k'. if dictCompareKeys t k' k then Some (de_val e) else dict_abs t d k')"
  proof
    fix k'
    have "dictCompareKeys t k' (de_key e) = dictCompareKeys t k' k"
      using key cmp_sym cmp_trans by blast
    then show "dict_abs t ?d k' = (if dictCompareKeys t k' k then Some (de_val e) else dict_abs t d k')"
      by (simp add: dict_abs_def fa(2))
  qed
qed

lemma located_Some:
  assumes "located k d n i (Some q)"
  shows "i = bucket_of t k (dict_ht d n)" "0 < ht_size (dict_ht d n)" "ht_ok t (dict_ht d n)"
    "i < ht_size (dict_ht d n)" "q < length (ht_table (dict_ht d n) ! i)"
    "find (matching t k) (dict_entries d) = Some (entry_at d (n, i, q))"
    "n = 0 \<or> n = 1 \<and> dictIsRehashing d"
    "dictCompareKeys t k (de_key (entry_at d (n, i, q)))"
proof -
  show 1: "i = bucket_of t k (dict_ht d n)" "0 < ht_size (dict_ht d n)" "ht_ok t (dict_ht d n)"
      "q < length (ht_table (dict_ht d n) ! i)" "n = 0 \<or> n = 1 \<and> dictIsRehashing d"
      "find (matching t k) (dict_entries d) = Some (entry_at d (n, i, q))"
    using assms by (auto simp: located_def)
  show "i < ht_size (dict_ht d n)" using bucket_of_lt [OF 1(3,2)] 1(1) by simp
  show "dictCompareKeys t k (de_key (entry_at d (n, i, q)))"
    using 1(6) by (auto simp: find_Some_iff matching_def)
qed

lemma mset_drop_nth: "q < length c \<Longrightarrow> mset c = add_mset (c ! q) (mset (take q c @ drop (Suc q) c))"
  by (metis id_take_nth_drop mset.simps(2) mset_append union_mset_add_mset_right)

text \<open>Unlinking an entry.\<close>

lemma dict_unlink:
  assumes inv: "dict_inv t d" and loc: "located k d n i (Some q)"
  shows "dict_inv t (dict_ht_update d n (ht_unlink i q (dict_ht d n)))"
    "dict_abs t (dict_ht_update d n (ht_unlink i q (dict_ht d n)))
      = (\<lambda>k'. if dictCompareKeys t k' k then None else dict_abs t d k')"
proof -
  let ?e = "entry_at d (n, i, q)" and ?c = "ht_table (dict_ht d n) ! i"
  let ?h = "ht_unlink i q (dict_ht d n)" and ?d = "dict_ht_update d n (ht_unlink i q (dict_ht d n))"
  note l = located_Some [OF loc]
  have dk: "distinct_keys t (dict_entries d)" using inv by (simp add: dict_inv_def)
  have e: "?e = ?c ! q" by (simp add: entry_at_def)
  have tab: "ht_table ?h = (ht_table (dict_ht d n))[i := take q ?c @ drop (Suc q) ?c]"
    by (simp add: ht_unlink_def Let_def)
  note mc = mset_drop_nth [OF l(5)]
  have ms: "mset (dict_entries d) = add_mset ?e (mset (dict_entries ?d))"
    using dict_entries_set_chain [OF inv l(4) tab] unfolding mc e by simp
  have mh: "mset (ht_entries (dict_ht d n)) = add_mset ?e (mset (ht_entries ?h))"
    using set_chain_entries [OF l(3,4) tab] unfolding mc e by simp
  have "Suc (length (ht_entries ?h)) = ht_used (dict_ht d n)"
    using arg_cong [OF mh, of size] dict_used_entries [OF l(3)] by simp
  then have used: "ht_used ?h = length (ht_entries ?h)" by (simp add: ht_unlink_def Let_def)
  note fr = find_remove [OF dk ms]
  have bk: "\<forall>e' \<in> set (take q ?c @ drop (Suc q) ?c). bucket_of t (de_key e') (dict_ht d n) = i"
    using l(3,4) by (auto simp: ht_ok_def dest: in_set_takeD in_set_dropD)
  have sz: "ht_size ?h = ht_size (dict_ht d n)" "ht_sizemask ?h = ht_sizemask (dict_ht d n)"
    by (simp_all add: ht_unlink_def Let_def)
  show "dict_inv t ?d"
    by (rule dict_inv_set_chain [OF inv l(7,4) bk tab sz used _ fr(1)])
      (use l(5) in \<open>auto simp: dict_ht_def\<close>)
  show "dict_abs t ?d = (\<lambda>k'. if dictCompareKeys t k' k then None else dict_abs t d k')"
  proof
    fix k'
    have "dictCompareKeys t k' (de_key ?e) = dictCompareKeys t k' k"
      using l(8) cmp_sym cmp_trans by blast
    then show "dict_abs t ?d k' = (if dictCompareKeys t k' k then None else dict_abs t d k')"
      by (simp add: dict_abs_def fr(2))
  qed
qed

definition val_dup :: "'v \<Rightarrow> 'v" where
  "val_dup v = (case valDup t of Some f \<Rightarrow> f v | None \<Rightarrow> v)"

text \<open>Storing a value in an entry.\<close>

lemma dict_setval:
  assumes inv: "dict_inv t d" and loc: "located k d n i (Some q)"
  shows "dict_inv t (dictSetVal t d (n, i, q) v)"
    "dict_abs t (dictSetVal t d (n, i, q) v)
      = (\<lambda>k'. if dictCompareKeys t k' k then Some (Some (val_dup v)) else dict_abs t d k')"
proof -
  let ?e = "entry_at d (n, i, q)" and ?c = "ht_table (dict_ht d n) ! i"
  let ?e' = "?e\<lparr>de_val := Some (val_dup v)\<rparr>"
  let ?h = "(dict_ht d n)\<lparr>ht_table := (ht_table (dict_ht d n))[i := ?c[q := ?e']]\<rparr>"
  let ?d = "dict_ht_update d n ?h"
  note l = located_Some [OF loc]
  have dk: "distinct_keys t (dict_entries d)" using inv by (simp add: dict_inv_def)
  have sv: "dictSetVal t d (n, i, q) v = ?d"
    by (simp add: dictSetVal_def entry_at_def val_dup_def Let_def)
  have tab: "ht_table ?h = (ht_table (dict_ht d n))[i := ?c[q := ?e']]" by simp
  obtain rest where rest: "mset rest = mset (dict_entries d) - {#?e#}" using ex_mset by blast
  have "?e \<in> set (dict_entries d)" using l(6) by (auto simp: find_Some_iff)
  then have m1: "mset (dict_entries d) = add_mset ?e (mset rest)" by (simp add: rest)
  have mc: "mset (?c[q := ?e']) = add_mset ?e' (mset ?c - {#?e#})"
    using mset_update [OF l(5)] by (simp add: entry_at_def)
  have ec: "?e \<in># mset ?c" using l(5) by (simp add: entry_at_def)
  have cc: "add_mset ?e (mset (?c[q := ?e'])) = add_mset ?e' (mset ?c)"
    using ec by (simp add: mc add_mset_commute [of ?e])
  have "add_mset ?e (mset (dict_entries ?d)) + mset ?c = add_mset ?e' (mset (dict_entries d)) + mset ?c"
    using arg_cong [OF dict_entries_set_chain [OF inv l(4) tab], of "add_mset ?e"] cc
    by (metis add_mset_add_single union_mset_add_mset_left union_mset_add_mset_right)
  then have "add_mset ?e (mset (dict_entries ?d)) = add_mset ?e' (add_mset ?e (mset rest))"
    using m1 by simp
  then have m2: "mset (dict_entries ?d) = add_mset ?e' (mset rest)" by (simp add: add_mset_commute [of ?e'])
  note fr = find_remove [OF dk m1]
  have nomatch: "\<forall>e'' \<in> set rest. \<not> dictCompareKeys t (de_key ?e') (de_key e'')" using fr(3) by simp
  note fa = find_add [OF fr(1) m2 nomatch]
  have bk: "\<forall>e' \<in> set (?c[q := ?e']). bucket_of t (de_key e') (dict_ht d n) = i"
    using l(3,4,5) by (auto simp: ht_ok_def entry_at_def dest!: set_update_subset_insert [THEN subsetD])
  have "length (ht_entries ?h) = length (ht_entries (dict_ht d n))"
    using arg_cong [OF set_chain_entries [OF l(3,4) tab], of size] by simp
  then have used: "ht_used ?h = length (ht_entries ?h)" using dict_used_entries [OF l(3)] by simp
  have "dict_inv t ?d"
    by (rule dict_inv_set_chain [OF inv l(7,4) bk tab _ _ used _ fa(1)])
      (use l(5) in \<open>auto simp: dict_ht_def\<close>)
  then show "dict_inv t (dictSetVal t d (n, i, q) v)" unfolding sv .
  have "dict_abs t ?d k' = (if dictCompareKeys t k' k then Some (Some (val_dup v)) else dict_abs t d k')" for k'
  proof -
    have "dictCompareKeys t k' (de_key ?e) = dictCompareKeys t k' k"
      using l(8) cmp_sym cmp_trans by blast
    then show ?thesis using fr(2) [of k'] by (simp add: dict_abs_def fa(2))
  qed
  then show "dict_abs t (dictSetVal t d (n, i, q) v)
      = (\<lambda>k'. if dictCompareKeys t k' k then Some (Some (val_dup v)) else dict_abs t d k')"
    unfolding sv by blast
qed

section \<open>The operations\<close>

lemma dictNextPower_loop_ge:
  "0 < i \<Longrightarrow> dictNextPower_loop sz i \<ge> sz \<and> dictNextPower_loop sz i \<ge> i
    \<and> (\<exists>k. dictNextPower_loop sz i = i * 2 ^ k)"
proof (induction sz i rule: dictNextPower_loop.induct)
  case (1 sz i)
  show ?case
  proof (cases "i \<ge> sz")
    case True
    then have "dictNextPower_loop sz i = i" by (simp add: dictNextPower_loop.simps)
    then show ?thesis using True by (auto intro: exI [of _ 0])
  next
    case False
    then have eq: "dictNextPower_loop sz i = dictNextPower_loop sz (i * 2)"
      using 1(2) by (subst dictNextPower_loop.simps) simp
    from 1 False obtain k where "dictNextPower_loop sz (i * 2) \<ge> sz"
        "dictNextPower_loop sz (i * 2) \<ge> i * 2" "dictNextPower_loop sz (i * 2) = i * 2 * 2 ^ k"
      by auto
    then show ?thesis unfolding eq by (auto intro: exI [of _ "Suc k"])
  qed
qed

lemma dictNextPower_pos: "0 < dictNextPower sz"
  using dictNextPower_loop_ge [of 4 sz]
  by (auto simp: dictNextPower_def DICT_HT_INITIAL_SIZE_def LONG_MAX_def)

lemma dictExpand_same:
  assumes inv: "dict_inv t d"
  shows "dict_same t d (fst (dictExpand sz d))"
    "snd (dictExpand sz d) = (if dictIsRehashing d \<or> ht_used (ht0 d) > sz then DICT_ERR else DICT_OK)"
    "snd (dictExpand sz d) = DICT_OK \<Longrightarrow> 0 < ht_size (ht0 (fst (dictExpand sz d)))"
proof -
  have new: "ht_entries \<lparr>ht_table = replicate n [], ht_size = n, ht_sizemask = n - 1, ht_used = 0\<rparr> = []"
    for n :: nat by (simp add: ht_entries_def)
  have ok: "ht_ok t \<lparr>ht_table = replicate n [], ht_size = n, ht_sizemask = n - 1, ht_used = 0\<rparr>"
    for n :: nat by (simp add: ht_ok_def ht_entries_def)
  have nil: "ht_size (ht0 d) = 0 \<longleftrightarrow> ht_table (ht0 d) = []"
    using inv by (auto simp: dict_inv_def ht_ok_def)
  show "dict_same t d (fst (dictExpand sz d))"
    using inv dictNextPower_pos ok nil
    by (auto simp: dictExpand_def dict_same_def dict_inv_def dict_entries_def Let_def new
        dictIsRehashing_def ht_entries_def dictReset_def)
  show "snd (dictExpand sz d) = (if dictIsRehashing d \<or> ht_used (ht0 d) > sz then DICT_ERR else DICT_OK)"
    by (simp add: dictExpand_def Let_def)
  show "snd (dictExpand sz d) = DICT_OK \<Longrightarrow> 0 < ht_size (ht0 (fst (dictExpand sz d)))"
    using nil dictNextPower_pos by (auto simp: dictExpand_def Let_def split: if_splits)
qed

lemma dictResize_same: "dict_inv t d \<Longrightarrow> dict_same t d (fst (dictResize can d))"
  using dictExpand_same(1) dict_same_refl by (auto simp: dictResize_def Let_def)

lemma dictExpandIfNeeded_same:
  assumes inv: "dict_inv t d"
  shows "dict_same t d (fst (dictExpandIfNeeded can d))" "snd (dictExpandIfNeeded can d) = DICT_OK"
    "0 < ht_size (ht0 (fst (dictExpandIfNeeded can d)))"
proof -
  have empty: "ht_used (ht0 d) = 0" if "ht_size (ht0 d) = 0"
    using inv that by (auto simp: dict_inv_def ht_ok_def ht_entries_def)
  show "dict_same t d (fst (dictExpandIfNeeded can d))"
    using dictExpand_same(1) [OF inv] dict_same_refl [OF inv] by (simp add: dictExpandIfNeeded_def)
  show ok: "snd (dictExpandIfNeeded can d) = DICT_OK"
    using dictExpand_same(2) [OF inv] empty by (auto simp: dictExpandIfNeeded_def)
  show "0 < ht_size (ht0 (fst (dictExpandIfNeeded can d)))"
    using dictExpand_same(2,3) [OF inv] empty inv
    by (auto simp: dictExpandIfNeeded_def dict_inv_def split: if_splits)
qed

lemma dictFind_ok:
  assumes inv: "dict_inv t d"
  shows "\<exists>d' r. dictFind t k d = Some (d', r) \<and> dict_same t d d'
    \<and> (case r of None \<Rightarrow> dict_abs t d k = None
       | Some (n, i, q) \<Rightarrow> located k d' n i (Some q) \<and> dict_abs t d k = Some (dictGetVal d' (n, i, q)))"
proof (cases "ht_size (ht0 d) = 0")
  case True
  then have "\<not> dictIsRehashing d" "ht_table (ht0 d) = []"
    using inv by (auto simp: dict_inv_def ht_ok_def)
  then have "dict_entries d = []" using inv by (simp add: dict_entries_def dict_inv_def ht_entries_def dictReset_def)
  then show ?thesis using True inv by (simp add: dictFind_def dict_abs_def dict_same_refl)
next
  case False
  obtain d' where r: "rehash_if t d = Some d'" and s: "dict_same t d d'"
    using rehash_if_same [OF inv] by blast
  then have inv': "dict_inv t d'" and sz: "0 < ht_size (ht0 d')" using False by (auto simp: dict_same_def)
  obtain n i p where st: "search_tables t k d' = Some (n, i, p)" and loc: "located k d' n i p"
    using search_tables_located [OF inv' sz] by blast
  have f: "map_option (\<lambda>p. entry_at d' (n, i, p)) p = find (matching t k) (dict_entries d')"
    using loc unfolding located_def by blast
  have "dict_abs t d k = map_option (\<lambda>p. dictGetVal d' (n, i, p)) p"
    unfolding dict_same_abs [OF inv s, symmetric] dict_abs_def f [symmetric]
    by (simp add: option.map_comp comp_def dictGetVal_def)
  then show ?thesis using False r s st loc
    by (cases p) (simp_all add: dictFind_def)
qed

lemma dictFetchValue_ok:
  assumes "dict_inv t d"
  obtains d' where "dictFetchValue t k d = Some (d', Option.bind (dict_abs t d k) id)" "dict_same t d d'"
proof -
  obtain d' r where f: "dictFind t k d = Some (d', r)" "dict_same t d d'"
    and r: "case r of None \<Rightarrow> dict_abs t d k = None
       | Some (n, i, q) \<Rightarrow> located k d' n i (Some q) \<and> dict_abs t d k = Some (dictGetVal d' (n, i, q))"
    using dictFind_ok [OF assms, of k] by blast
  have "Option.bind r (dictGetVal d') = Option.bind (dict_abs t d k) id"
    using r by (cases r) auto
  then show ?thesis using that f by (simp add: dictFetchValue_def)
qed

text \<open>Insertion succeeds exactly for a key that is absent.\<close>

lemma dictAddRaw_ok:
  assumes inv: "dict_inv t d"
  shows "\<exists>d' r. dictAddRaw can t k d = Some (d', r) \<and>
    (if dict_abs t d k = None
     then \<exists>d1 n i. r = Some (n, i, 0) \<and> dict_inv t d1 \<and> dict_abs t d1 = dict_abs t d
       \<and> located k d1 n i None
       \<and> d' = dict_ht_update d1 n (ht_push i \<lparr>de_key = dictSetKey t k, de_val = None\<rparr> (dict_ht d1 n))
     else r = None \<and> dict_same t d d')"
proof -
  obtain d1 where r: "rehash_if t d = Some d1" and s1: "dict_same t d d1"
    using rehash_if_same [OF inv] by blast
  then have inv1: "dict_inv t d1" by (simp add: dict_same_def)
  obtain d2 st where e: "dictExpandIfNeeded can d1 = (d2, st)" by fastforce
  note ex = dictExpandIfNeeded_same [OF inv1, of can, unfolded e fst_conv snd_conv]
  have s2: "dict_same t d d2" by (rule dict_same_trans [OF s1 ex(1)])
  then have inv2: "dict_inv t d2" by (simp add: dict_same_def)
  obtain n i p where st: "search_tables t k d2 = Some (n, i, p)" and loc: "located k d2 n i p"
    using search_tables_located [OF inv2 ex(3)] by blast
  have f: "map_option (\<lambda>p. entry_at d2 (n, i, p)) p = find (matching t k) (dict_entries d2)"
    using loc unfolding located_def by blast
  have abs2: "dict_abs t d2 = dict_abs t d" by (rule dict_same_abs [OF inv s2])
  have present: "dict_abs t d k = None \<longleftrightarrow> p = None"
    unfolding abs2 [symmetric] dict_abs_def f [symmetric] by simp
  have run: "dictAddRaw can t k d = (case p of
      Some _ \<Rightarrow> Some (d2, None)
    | None \<Rightarrow> Some (dict_ht_update d2 n (ht_push i \<lparr>de_key = dictSetKey t k, de_val = None\<rparr> (dict_ht d2 n)),
               Some (n, i, 0)))"
    using loc by (auto simp: dictAddRaw_def dictKeyIndex_def r e ex(2) st Let_def located_def
        split: option.splits)
  show ?thesis
  proof (cases p)
    case None
    then show ?thesis using run present inv2 abs2 loc by auto
  next
    case (Some q)
    then show ?thesis using run present s2 by simp
  qed
qed

lemma dictSetVal_push:
  assumes "i < length (ht_table (dict_ht d n))" "n \<le> 1"
  shows "dictSetVal t (dict_ht_update d n (ht_push i e (dict_ht d n))) (n, i, 0) v
    = dict_ht_update d n (ht_push i (e\<lparr>de_val := Some (val_dup v)\<rparr>) (dict_ht d n))"
  using assms by (auto simp: dictSetVal_def dict_ht_update_def dict_ht_def ht_push_def val_dup_def
      Let_def le_Suc_eq)

lemma dictAdd_ok:
  assumes inv: "dict_inv t d"
  shows "\<exists>d' st. dictAdd can t k v d = Some (d', st) \<and> dict_inv t d'
    \<and> (if dict_abs t d k = None
       then st = DICT_OK \<and> dict_abs t d' =
         (\<lambda>k'. if dictCompareKeys t k' k then Some (Some (val_dup v)) else dict_abs t d k')
       else st = DICT_ERR \<and> dict_abs t d' = dict_abs t d)"
proof (cases "dict_abs t d k = None")
  case True
  let ?e = "\<lparr>de_key = dictSetKey t k, de_val = None\<rparr>"
  from True dictAddRaw_ok [OF inv, of can k] obtain d1 n i where
    run: "dictAddRaw can t k d = Some (dict_ht_update d1 n (ht_push i ?e (dict_ht d1 n)), Some (n, i, 0))"
    and inv1: "dict_inv t d1" and abs1: "dict_abs t d1 = dict_abs t d" and loc: "located k d1 n i None"
    by auto
  have il: "i < length (ht_table (dict_ht d1 n))" "n \<le> 1"
    using loc bucket_of_lt [of t "dict_ht d1 n" k] by (auto simp: located_def ht_ok_def)
  have key: "dictCompareKeys t k (de_key (?e\<lparr>de_val := Some (val_dup v)\<rparr>))" using dup_cmp by simp
  show ?thesis
    using True dict_push [OF inv1 loc key] abs1
    by (simp add: dictAdd_def run dictSetVal_push [OF il] cong: if_cong)
next
  case False
  then obtain d' where "dictAddRaw can t k d = Some (d', None)" "dict_same t d d'"
    using dictAddRaw_ok [OF inv, of can k] by auto
  then show ?thesis using False dict_same_abs [OF inv] by (auto simp: dictAdd_def dict_same_def)
qed

lemma dictReplace_ok:
  assumes inv: "dict_inv t d"
  shows "\<exists>d'. dictReplace can t k v d = Some (d', dict_abs t d k = None) \<and> dict_inv t d'
    \<and> dict_abs t d' = (\<lambda>k'. if dictCompareKeys t k' k then Some (Some (val_dup v)) else dict_abs t d k')"
proof (cases "dict_abs t d k = None")
  case True
  then show ?thesis using dictAdd_ok [OF inv, of can k v] by (auto simp: dictReplace_def)
next
  case False
  then obtain d1 where a: "dictAdd can t k v d = Some (d1, DICT_ERR)" and inv1: "dict_inv t d1"
      and abs1: "dict_abs t d1 = dict_abs t d"
    using dictAdd_ok [OF inv, of can k v] by auto
  obtain d2 n i q where f: "dictFind t k d1 = Some (d2, Some (n, i, q))" and s: "dict_same t d1 d2"
      and loc: "located k d2 n i (Some q)"
    using dictFind_ok [OF inv1, of k] False abs1 by (auto split: option.splits)
  have inv2: "dict_inv t d2" using s by (simp add: dict_same_def)
  have abs2: "dict_abs t d2 = dict_abs t d" using dict_same_abs [OF inv1 s] abs1 by simp
  show ?thesis using False dict_setval [OF inv2 loc, of v]
    by (simp add: dictReplace_def a f abs2 cong: if_cong)
qed

lemma dict_abs_cong: "dictCompareKeys t k k' \<Longrightarrow> dict_abs t d k = dict_abs t d k'"
proof -
  assume "dictCompareKeys t k k'"
  then have "matching t k = matching t k'"
    unfolding matching_def fun_eq_iff using cmp_sym cmp_trans by blast
  then show ?thesis by (simp add: dict_abs_def)
qed

lemma dictGenericDelete_ok:
  assumes inv: "dict_inv t d"
  shows "\<exists>d' st freed. dictGenericDelete t k nofree d = Some (d', st, freed) \<and> dict_inv t d'
    \<and> st = (if dict_abs t d k = None then DICT_ERR else DICT_OK)
    \<and> dict_abs t d' = (\<lambda>k'. if dictCompareKeys t k' k then None else dict_abs t d k')"
proof -
  have absent: "dict_abs t d = (\<lambda>k'. if dictCompareKeys t k' k then None else dict_abs t d k')"
    if "dict_abs t d k = None"
    using that dict_abs_cong by auto
  from dictFind_ok [OF inv, of k] obtain d' r where f: "dictFind t k d = Some (d', r)"
    and s: "dict_same t d d'" and r: "case r of None \<Rightarrow> dict_abs t d k = None
       | Some (n, i, q) \<Rightarrow> located k d' n i (Some q) \<and> dict_abs t d k = Some (dictGetVal d' (n, i, q))"
    by blast
  have run: "dictGenericDelete t k nofree d = Some (case r of
       None \<Rightarrow> (d', DICT_ERR, [])
     | Some (n, i, q) \<Rightarrow> (dict_ht_update d' n (ht_unlink i q (dict_ht d' n)), DICT_OK,
         if nofree then [] else [entry_at d' (n, i, q)]))"
    using f by (auto simp: dictFind_def dictGenericDelete_def
        split: if_splits option.splits Option.bind_splits)
  have inv': "dict_inv t d'" and abs: "dict_abs t d' = dict_abs t d"
    using s dict_same_abs [OF inv s] by (simp_all add: dict_same_def)
  show ?thesis
  proof (cases r)
    case None
    then show ?thesis using run r inv' abs absent by simp
  next
    case (Some x)
    obtain n i q where x: "x = (n, i, q)" by (metis surj_pair)
    then show ?thesis using Some run r inv' abs dict_unlink [OF inv', of k n i q]
      by (simp cong: if_cong)
  qed
qed

end

lemma dict_inv_create: "dict_inv t dictCreate" "dict_abs t dictCreate = (\<lambda>k. None)"
  by (auto simp: dictCreate_def dict_inv_def dict_entries_def distinct_keys_def dictIsRehashing_def
      dict_abs_def)

end
