(* ===== verification/Dict_Ops.thy ===== *)
theory Dict_Ops
  imports Dict_Map
begin

text \<open>
  The dictionary as its users see it: the dictionary types of \<^verbatim>\<open>redis.c\<close> meet the contract of
  \<open>dict_type\<close>, every sequence of operations on a new dictionary answers like the same sequence
  on a map, an iterator returns every entry once, and clearing destroys every entry.
\<close>

section \<open>Dictionary types of the server\<close>

text \<open>
  The keys are the strings that \<^verbatim>\<open>sdsnew\<close> makes of C strings: the text without its terminator.
\<close>

definition dictSdsHash :: "string \<Rightarrow> u32" where
  "dictSdsHash key = dictGenHashFunction key"

definition dictSdsCaseHash :: "string \<Rightarrow> u32" where
  "dictSdsCaseHash key = dictGenCaseHashFunction key"

definition dictSdsKeyCompare :: "string \<Rightarrow> string \<Rightarrow> bool" where
  "dictSdsKeyCompare key1 key2 = (if length key1 \<noteq> length key2 then False else key1 = key2)"

definition dictSdsKeyCaseCompare :: "string \<Rightarrow> string \<Rightarrow> bool" where
  "dictSdsKeyCaseCompare key1 key2 \<longleftrightarrow> map c_tolower key1 = map c_tolower key2"

definition dbDictType :: "(string, 'v) dictType" where
  "dbDictType = \<lparr>hashFunction = dictSdsHash, keyDup = None, valDup = None,
    keyCompare = Some dictSdsKeyCompare\<rparr>"

definition commandTableDictType :: "(string, 'v) dictType" where
  "commandTableDictType = \<lparr>hashFunction = dictSdsCaseHash, keyDup = None, valDup = None,
    keyCompare = Some dictSdsKeyCaseCompare\<rparr>"

lemma case_hash_lower:
  "dictGenCaseHashFunction buf =
    foldl (\<lambda>hash c. (push_bit 5 hash + hash) + of_char c) dict_hash_function_seed (map c_tolower buf)"
  by (simp add: dictGenCaseHashFunction_def foldl_map)

interpretation db_type: dict_type "dbDictType :: (string, 'v) dictType"
  by unfold_locales
    (auto simp: dbDictType_def dictCompareKeys_def dictSdsKeyCompare_def dictSetKey_def split: if_splits)

interpretation command_type: dict_type "commandTableDictType :: (string, 'v) dictType"
  by unfold_locales
    (auto simp: commandTableDictType_def dictCompareKeys_def dictSdsKeyCaseCompare_def dictSetKey_def
      dictSdsCaseHash_def case_hash_lower)

section \<open>Sequences of operations\<close>

datatype ('k, 'v) dict_op = Op_add 'k 'v | Op_replace 'k 'v | Op_delete 'k | Op_find 'k
  | Op_resize | Op_rehash nat

datatype 'v dict_answer = A_status dict_status | A_replaced bool | A_value "'v option" | A_none

definition dict_step :: "bool \<Rightarrow> ('k, 'v) dictType \<Rightarrow> ('k, 'v) dict_op \<Rightarrow> ('k, 'v) dict
    \<Rightarrow> (('k, 'v) dict \<times> 'v dict_answer) option" where
  "dict_step can t op d = (case op of
     Op_add k v \<Rightarrow> map_option (\<lambda>(d, st). (d, A_status st)) (dictAdd can t k v d)
   | Op_replace k v \<Rightarrow> map_option (\<lambda>(d, r). (d, A_replaced r)) (dictReplace can t k v d)
   | Op_delete k \<Rightarrow> map_option (\<lambda>(d, st, _). (d, A_status st)) (dictDelete t k d)
   | Op_find k \<Rightarrow> map_option (\<lambda>(d, v). (d, A_value v)) (dictFetchValue t k d)
   | Op_resize \<Rightarrow> Some (fst (dictResize can d), A_none)
   | Op_rehash n \<Rightarrow> map_option (\<lambda>(d, _). (d, A_none)) (dictRehash t n d))"

fun dict_run :: "bool \<Rightarrow> ('k, 'v) dictType \<Rightarrow> ('k, 'v) dict_op list \<Rightarrow> ('k, 'v) dict
    \<Rightarrow> (('k, 'v) dict \<times> 'v dict_answer list) option" where
  "dict_run can t [] d = Some (d, [])"
| "dict_run can t (op # ops) d = do {
    (d, a) \<leftarrow> dict_step can t op d;
    (d, as) \<leftarrow> dict_run can t ops d;
    Some (d, a # as)
  }"

text \<open>The same operations on a map whose keys are the classes of the comparison function.\<close>

definition map_step :: "('k \<Rightarrow> 'k \<Rightarrow> bool) \<Rightarrow> ('k, 'v) dict_op \<Rightarrow> ('k \<Rightarrow> 'v option)
    \<Rightarrow> ('k \<Rightarrow> 'v option) \<times> 'v dict_answer" where
  "map_step eq op m = (case op of
     Op_add k v \<Rightarrow> (if m k = None then (\<lambda>k'. if eq k' k then Some v else m k', A_status DICT_OK)
                  else (m, A_status DICT_ERR))
   | Op_replace k v \<Rightarrow> (\<lambda>k'. if eq k' k then Some v else m k', A_replaced (m k = None))
   | Op_delete k \<Rightarrow> (\<lambda>k'. if eq k' k then None else m k',
       A_status (if m k = None then DICT_ERR else DICT_OK))
   | Op_find k \<Rightarrow> (m, A_value (m k))
   | Op_resize \<Rightarrow> (m, A_none)
   | Op_rehash n \<Rightarrow> (m, A_none))"

fun map_run :: "('k \<Rightarrow> 'k \<Rightarrow> bool) \<Rightarrow> ('k, 'v) dict_op list \<Rightarrow> ('k \<Rightarrow> 'v option)
    \<Rightarrow> ('k \<Rightarrow> 'v option) \<times> 'v dict_answer list" where
  "map_run eq [] m = (m, [])"
| "map_run eq (op # ops) m = (
    let (m, a) = map_step eq op m; (m, as) = map_run eq ops m in (m, a # as))"

text \<open>The map a dictionary stands for, once every entry has its value.\<close>

definition represents :: "('k, 'v) dictType \<Rightarrow> ('k, 'v) dict \<Rightarrow> ('k \<Rightarrow> 'v option) \<Rightarrow> bool" where
  "represents t d m \<longleftrightarrow> dict_inv t d \<and> dict_abs t d = (\<lambda>k. map_option Some (m k))"

context dict_type
begin

lemma represents_same: "represents t d m \<Longrightarrow> dict_same t d d' \<Longrightarrow> represents t d' m"
  by (metis dict_same_abs dict_same_def represents_def)

lemma dict_step_map:
  assumes r: "represents t d m" and dup: "valDup t = None"
  shows "\<exists>d'. dict_step can t op d = Some (d', snd (map_step (dictCompareKeys t) op m))
    \<and> represents t d' (fst (map_step (dictCompareKeys t) op m))"
proof -
  have inv: "dict_inv t d" and abs: "dict_abs t d = (\<lambda>k. map_option Some (m k))"
    using r by (auto simp: represents_def)
  have vd: "val_dup v = v" for v using dup by (simp add: val_dup_def)
  show ?thesis
  proof (cases op)
    case (Op_add k v)
    then show ?thesis using dictAdd_ok [OF inv, of can k v] abs
      by (auto simp: dict_step_def map_step_def represents_def vd fun_eq_iff split: if_splits)
  next
    case (Op_replace k v)
    then show ?thesis using dictReplace_ok [OF inv, of can k v] abs
      by (auto simp: dict_step_def map_step_def represents_def vd fun_eq_iff split: if_splits)
  next
    case (Op_delete k)
    then show ?thesis using dictGenericDelete_ok [OF inv, of k False] abs
      by (auto simp: dict_step_def map_step_def represents_def dictDelete_def fun_eq_iff split: if_splits)
  next
    case (Op_find k)
    obtain d' where "dictFetchValue t k d = Some (d', Option.bind (dict_abs t d k) id)" "dict_same t d d'"
      using dictFetchValue_ok [OF inv] by blast
    then show ?thesis using Op_find abs represents_same [OF r]
      by (cases "m k") (auto simp: dict_step_def map_step_def)
  next
    case Op_resize
    then show ?thesis using dictResize_same [OF inv] represents_same [OF r]
      by (simp add: dict_step_def map_step_def)
  next
    case (Op_rehash n)
    then show ?thesis using dictRehash_same [OF inv, of n] represents_same [OF r]
      by (auto simp: dict_step_def map_step_def)
  qed
qed

lemma dict_run_map:
  assumes "represents t d m" "valDup t = None"
  shows "\<exists>d'. dict_run can t ops d = Some (d', snd (map_run (dictCompareKeys t) ops m))
    \<and> represents t d' (fst (map_run (dictCompareKeys t) ops m))"
  using assms(1)
proof (induction ops arbitrary: d m)
  case Nil
  then show ?case by simp
next
  case (Cons op ops)
  from dict_step_map [OF Cons.prems assms(2), of can op] obtain d1 where
    s: "dict_step can t op d = Some (d1, snd (map_step (dictCompareKeys t) op m))"
    and r: "represents t d1 (fst (map_step (dictCompareKeys t) op m))" by blast
  from Cons.IH [OF r] s show ?case by (auto simp: Let_def split: prod.splits)
qed

end

lemma represents_create: "represents t dictCreate (\<lambda>k. None)"
  using dict_inv_create [of t] by (simp add: represents_def)

text \<open>
  C15. Whatever the sequence of operations on a new dictionary - additions, replacements,
  deletions, lookups, resizes and rehashing steps, in any order and with the hash table moving
  from one table to the other under them - the code never fails an assertion or leaves a table,
  and every answer is the answer of a map over the classes of keys that the type's comparison
  function does not tell apart.
\<close>
theorem dict_is_a_map:
  assumes "dict_type t" "valDup t = None"
  shows "\<exists>d. dict_run can t ops dictCreate = Some (d, snd (map_run (dictCompareKeys t) ops (\<lambda>k. None)))
    \<and> represents t d (fst (map_run (dictCompareKeys t) ops (\<lambda>k. None)))"
  by (rule dict_type.dict_run_map [OF assms(1) represents_create assms(2)])

theorem dict_is_a_map_witness:
  "dict_type (commandTableDictType :: (string, nat) dictType)
    \<and> (\<exists>d. dict_run True commandTableDictType
        [Op_add ''Ann'' (1::nat), Op_add ''bob'' 2, Op_add ''ANN'' 3, Op_find ''ann'', Op_delete ''Bob'',
         Op_find ''bob''] dictCreate
      = Some (d, [A_status DICT_OK, A_status DICT_OK, A_status DICT_ERR, A_value (Some 1),
          A_status DICT_OK, A_value None]))"
proof -
  have t: "dict_type (commandTableDictType :: (string, nat) dictType)" ..
  moreover have "valDup (commandTableDictType :: (string, nat) dictType) = None"
    by (simp add: commandTableDictType_def)
  moreover have "snd (map_run (dictCompareKeys (commandTableDictType :: (string, nat) dictType))
      [Op_add ''Ann'' (1::nat), Op_add ''bob'' 2, Op_add ''ANN'' 3, Op_find ''ann'', Op_delete ''Bob'',
       Op_find ''bob''] (\<lambda>k. None))
    = [A_status DICT_OK, A_status DICT_OK, A_status DICT_ERR, A_value (Some 1),
          A_status DICT_OK, A_value None]" by code_simp
  ultimately show ?thesis using dict_is_a_map [of commandTableDictType] by metis
qed

section \<open>Iteration\<close>

text \<open>The entries an iterator has still to return.\<close>

definition iter_rest :: "('k, 'v) dict \<Rightarrow> ('k, 'v) dictIterator \<Rightarrow> ('k, 'v) chain" where
  "iter_rest d it = (if it_entry it = [] then [] else it_nextEntry it) @
    (if it_table it = 0
     then concat (drop (nat (it_index it + 1)) (ht_table (ht0 d))) @
       (if dictIsRehashing d then ht_entries (ht1 d) else [])
     else concat (drop (nat (it_index it + 1)) (ht_table (ht1 d))))"

definition iter_ok :: "('k, 'v) dict \<Rightarrow> ('k, 'v) dictIterator \<Rightarrow> bool" where
  "iter_ok d it \<longleftrightarrow> -1 \<le> it_index it \<and> (it_table it = 0 \<or> it_table it = 1 \<and> dictIsRehashing d)
    \<and> length (ht_table (ht0 d)) = ht_size (ht0 d) \<and> length (ht_table (ht1 d)) = ht_size (ht1 d)
    \<and> (dictIsRehashing d \<longrightarrow> 0 < ht_size (ht1 d))"

lemma iter_rest_start:
  "iterator_start addrs d it = (d1, it1) \<Longrightarrow> iter_rest d1 it1 = iter_rest d it \<and> iter_ok d1 it1 = iter_ok d it"
  using iterator_start_same [of addrs d it d1 it1]
  by (simp add: iter_rest_def iter_ok_def dictIsRehashing_def)

lemma concat_drop: "i < length xs \<Longrightarrow> concat (drop i xs) = xs ! i @ concat (drop (Suc i) xs)"
  by (simp add: Cons_nth_drop_Suc [symmetric])

lemma iter_rest_advance:
  assumes "iter_ok d it" "it_entry it = []" "iterator_advance d it = (it', go)"
  shows "it_entry it' = []" "iter_ok d it'"
    "iter_rest d it = (if go then ht_table (dict_ht d (it_table it')) ! nat (it_index it') @ iter_rest d it' else [])"
proof -
  show "it_entry it' = []" "iter_ok d it'"
    using assms by (auto simp: iterator_advance_def iter_ok_def Let_def split: if_splits)
  have suc: "nat (it_index it + 2) = Suc (nat (it_index it + 1))"
  proof -
    have "-1 \<le> it_index it" using assms(1) by (simp add: iter_ok_def)
    then show ?thesis by arith
  qed
  have first: "ht_entries (ht1 d) = ht_table (ht1 d) ! 0 @ concat (drop (Suc 0) (ht_table (ht1 d)))"
    if "0 < length (ht_table (ht1 d))"
    using concat_drop [of 0 "ht_table (ht1 d)"] that by (simp add: ht_entries_def)
  show "iter_rest d it = (if go then ht_table (dict_ht d (it_table it')) ! nat (it_index it') @ iter_rest d it' else [])"
    using assms suc first
    by (auto simp: iterator_advance_def iter_rest_def iter_ok_def Let_def dict_ht_def concat_drop
        add.commute split: if_splits)
qed

lemma dictNext_rest:
  "iter_ok d it \<Longrightarrow> dictNext addrs d it = (d', it', r) \<Longrightarrow>
    iter_ok d' it' \<and> ht0 d' = ht0 d \<and> ht1 d' = ht1 d \<and> rehashidx d' = rehashidx d
    \<and> (case r of None \<Rightarrow> iter_rest d it = [] | Some e \<Rightarrow> iter_rest d it = e # iter_rest d' it')"
proof (induction addrs d it rule: dictNext.induct)
  case (1 addrs d it)
  show ?case
  proof (cases "it_entry it")
    case Nil
    obtain d1 it1 where st: "iterator_start addrs d it = (d1, it1)" by fastforce
    obtain it2 go where ad: "iterator_advance d1 it1 = (it2, go)" by fastforce
    note same = iterator_start_same [OF st] and rs = iter_rest_start [OF st]
    have "iter_ok d1 it1" "it_entry it1 = []" using rs same Nil 1(3) by auto
    note adv = iter_rest_advance [OF this ad]
    note run = 1(4) [unfolded dictNext.simps [of addrs d it]]
    show ?thesis
    proof (cases "ht_table (dict_ht d1 (it_table it2)) ! nat (it_index it2)")
      case empty: Nil
      show ?thesis
      proof (cases go)
        case True
        have "dictNext addrs d1 it2 = (d', it', r)" using run Nil st ad empty True by simp
        from 1(1) [OF Nil _ _ _ _ _ empty adv(2) this] st ad True
        show ?thesis using same rs adv(3) empty by (auto split: option.splits)
      next
        case False
        then show ?thesis using run Nil st ad same rs adv by auto
      qed
    next
      case (Cons e rest)
      then show ?thesis using run Nil st ad same rs adv
        by (auto simp: iter_rest_def iter_ok_def dictIsRehashing_def split: if_splits)
    qed
  next
    case (Cons e0 rest0)
    note run = 1(4) [unfolded dictNext.simps [of addrs d it]]
    show ?thesis
    proof (cases "it_nextEntry it")
      case Nil
      have "dictNext addrs d (it\<lparr>it_entry := []\<rparr>) = (d', it', r)" using run Cons Nil by simp
      moreover have "iter_ok d (it\<lparr>it_entry := []\<rparr>)" using 1(3) by (simp add: iter_ok_def)
      moreover have "iter_rest d (it\<lparr>it_entry := []\<rparr>) = iter_rest d it"
        using Cons Nil by (simp add: iter_rest_def)
      ultimately show ?thesis using 1(2) [OF Cons Nil] by (cases r) simp_all
    next
      case (Cons e rest)
      then show ?thesis using run 1(3) \<open>it_entry it = e0 # rest0\<close>
        by (auto simp: iter_rest_def iter_ok_def)
    qed
  qed
qed

lemma iter_rest_new:
  assumes "dict_inv t d"
  shows "iter_ok d dictGetIterator" "iter_rest d dictGetIterator = dict_entries d"
    "iter_ok d dictGetSafeIterator" "iter_rest d dictGetSafeIterator = dict_entries d"
  using assms by (auto simp: iter_ok_def iter_rest_def dictGetIterator_def dictGetSafeIterator_def
      dict_inv_def ht_ok_def dict_entries_def ht_entries_def dictReset_def)

section \<open>Clearing\<close>

lemma dictClear_loop_drop:
  assumes "length (ht_table h) = ht_size h" "used = length (concat (drop i (ht_table h)))"
  shows "dictClear_loop i used h = concat (drop i (ht_table h))"
  using assms
proof (induction i used h rule: dictClear_loop.induct)
  case (1 i used h)
  show ?case
  proof (cases "i < ht_size h \<and> used > 0")
    case True
    then have "dictClear_loop i used h
        = ht_table h ! i @ dictClear_loop (i + 1) (used - length (ht_table h ! i)) h"
      by (subst dictClear_loop.simps) simp
    then show ?thesis using 1 True concat_drop [of i "ht_table h"] by simp
  next
    case False
    then have "concat (drop i (ht_table h)) = []" using 1(2,3) by (cases "used = 0") auto
    moreover have "dictClear_loop i used h = []" using False by (subst dictClear_loop.simps) auto
    ultimately show ?thesis by simp
  qed
qed

text \<open>Emptying a dictionary destroys each of its entries once and leaves the empty map.\<close>

lemma dictEmpty_ok:
  assumes "dict_inv t d"
  shows "dictEmpty d = (dictCreate, dict_entries d)"
proof -
  have "dictClear h = (dictReset, ht_entries h)" if "ht_ok t h" for h :: "('a, 'b) dictht"
    using that dictClear_loop_drop [of h "ht_used h" 0]
    by (simp add: dictClear_def ht_ok_def ht_entries_def)
  then show ?thesis using assms
    by (cases d) (simp add: dictEmpty_def dict_inv_def dictCreate_def dict_entries_def)
qed

end
