(* ===== verification/Util.thy ===== *)
theory Util
  imports Prelude
begin

text \<open>
  Numbers in decimal (\<^verbatim>\<open>server/src/util.c\<close>): printing and parsing of 64-bit integers, sizes of
  memory with a unit, and the test of file names.  The main fact is that \<^verbatim>\<open>string2ll\<close> accepts
  exactly the strings that \<^verbatim>\<open>ll2string\<close> prints.
\<close>

section \<open>Decimal notation\<close>

text \<open>What \<^verbatim>\<open>%u\<close> and \<^verbatim>\<open>%d\<close> print.\<close>

fun show_nat_rev :: "nat \<Rightarrow> string" where
  "show_nat_rev n = char_of (48 + n mod 10) # (if n < 10 then [] else show_nat_rev (n div 10))"

definition show_nat :: "nat \<Rightarrow> string" where
  "show_nat n = rev (show_nat_rev n)"

definition show_int :: "int \<Rightarrow> string" where
  "show_int i = (if i < 0 then CHR ''-'' # show_nat (nat (- i)) else show_nat (nat i))"

section \<open>The code\<close>

definition is_digit :: "char \<Rightarrow> bool" where
  "is_digit c \<longleftrightarrow> 48 \<le> (of_char c :: nat) \<and> (of_char c :: nat) \<le> 57"

definition digit_val :: "char \<Rightarrow> nat" where
  "digit_val c = of_char c - 48"

text \<open>The loop that writes the digits from the last to the first in front of \<open>p\<close>.\<close>

function ll2string_loop :: "64 word \<Rightarrow> string \<Rightarrow> string" where
  "ll2string_loop v p = (
    let p = char_of (48 + unat (v mod 10)) # p; v = v div 10 in
    if v = 0 then p else ll2string_loop v p)"
  by auto
termination
proof (relation "measure (\<lambda>(v, p). unat v)", goal_cases)
  case (2 v p x xa)
  then have "v \<noteq> 0" by auto
  then show ?case using 2 by (simp add: unat_div unat_eq_0 unat_gt_0 div_less_dividend)
qed simp

declare ll2string_loop.simps [simp del]

text \<open>The characters written to a buffer of \<open>len\<close> characters, without the terminator.\<close>

definition ll2string :: "nat \<Rightarrow> 64 word \<Rightarrow> string" where
  "ll2string len value = (if len = 0 then [] else
    let v = (if sint value < 0 then - value else value);
        p = ll2string_loop v [];
        p = (if sint value < 0 then CHR ''-'' # p else p)
    in if length p + 1 > len then take (len - 1) p else p)"

definition ULLONG_MAX :: "64 word" where "ULLONG_MAX = - 1"
definition LLONG_MAX :: "64 word" where "LLONG_MAX = 0x7FFFFFFFFFFFFFFF"

fun string2ll_loop :: "64 word \<Rightarrow> string \<Rightarrow> (64 word \<times> string) option" where
  "string2ll_loop v [] = Some (v, [])"
| "string2ll_loop v (c # p) = (
    if is_digit c then
      if v > ULLONG_MAX div 10 then None
      else let v = v * 10 in
        if v > ULLONG_MAX - of_nat (digit_val c) then None
        else string2ll_loop (v + of_nat (digit_val c)) p
    else Some (v, c # p))"

definition string2ll :: "string \<Rightarrow> 64 word option" where
  "string2ll s = (
    if s = [] then None
    else if length s = 1 \<and> hd s = CHR ''0'' then Some 0
    else
      let negative = (hd s = CHR ''-''); p = (if negative then tl s else s) in
      if p = [] then None
      else if is_digit (hd p) \<and> hd p \<noteq> CHR ''0'' then
        (case string2ll_loop (of_nat (digit_val (hd p))) (tl p) of None \<Rightarrow> None
         | Some (v, rest) \<Rightarrow>
             if rest \<noteq> [] then None
             else if negative then if v > LLONG_MAX + 1 then None else Some (- v)
             else if v > LLONG_MAX then None else Some v)
      else if hd p = CHR ''0'' \<and> length s = 1 then Some 0
      else None)"

definition string2l :: "string \<Rightarrow> 64 word option" where
  "string2l s = (case string2ll s of None \<Rightarrow> None
    | Some ll \<Rightarrow> if sint ll < - (2 ^ 63) \<or> sint ll > 2 ^ 63 - 1 then None else Some ll)"

section \<open>Digits and values\<close>

declare show_nat_rev.simps [simp del]

lemma show_nat_small: "n < 10 \<Longrightarrow> show_nat n = [char_of (48 + n)]"
  by (simp add: show_nat_def show_nat_rev.simps)

lemma show_nat_snoc: "10 \<le> n \<Longrightarrow> show_nat n = show_nat (n div 10) @ [char_of (48 + n mod 10)]"
  by (simp add: show_nat_def show_nat_rev.simps [of n])

lemma show_nat_rev_length: "n < 10 ^ k \<Longrightarrow> 0 < k \<Longrightarrow> length (show_nat_rev n) \<le> k"
proof (induction n arbitrary: k rule: show_nat_rev.induct)
  case (1 n)
  show ?case
  proof (cases "n < 10")
    case True
    then show ?thesis using 1 by (subst show_nat_rev.simps) simp
  next
    case False
    obtain j where k1: "k = Suc j" using 1(3) by (cases k) auto
    have k: "k = Suc j" "0 < j" using k1 False 1(2) by (cases j; simp)+
    then have "n div 10 < 10 ^ j" using 1(2) by (simp add: less_mult_imp_div_less mult.commute)
    then show ?thesis using 1(1) [OF False _ k(2)] k by (subst show_nat_rev.simps) simp
  qed
qed

lemma show_nat_length: "n < 10 ^ k \<Longrightarrow> 0 < k \<Longrightarrow> length (show_nat n) \<le> k"
  by (simp add: show_nat_def show_nat_rev_length)

definition number :: "nat \<Rightarrow> string \<Rightarrow> nat" where
  "number = foldl (\<lambda>n c. 10 * n + digit_val c)"

lemma number_simps [simp]: "number n [] = n" "number n (c # s) = number (10 * n + digit_val c) s"
    "number n (s @ t) = number (number n s) t"
  by (simp_all add: number_def)

lemma number_ge: "n \<le> number n s"
proof (induction s arbitrary: n)
  case (Cons c s)
  show ?case using Cons.IH [of "10 * n + digit_val c"] by simp
qed simp

lemma digit_char [simp]: "d < 10 \<Longrightarrow> is_digit (char_of (48 + d))" "d < 10 \<Longrightarrow> digit_val (char_of (48 + d)) = d"
  by (simp_all add: is_digit_def digit_val_def of_char_of)

lemma char_digit: "is_digit c \<Longrightarrow> char_of (48 + digit_val c) = c" "is_digit c \<Longrightarrow> digit_val c < 10"
  "is_digit c \<Longrightarrow> digit_val c = 0 \<longleftrightarrow> c = CHR ''0''"
proof -
  assume d: "is_digit c"
  then show "char_of (48 + digit_val c) = c" by (simp add: is_digit_def digit_val_def)
  show "digit_val c < 10" using d unfolding is_digit_def digit_val_def by linarith
  have "digit_val c = 0 \<longleftrightarrow> of_char c = (of_char (CHR ''0'') :: nat)" using d by (auto simp: is_digit_def digit_val_def)
  then show "digit_val c = 0 \<longleftrightarrow> c = CHR ''0''" by (simp only: of_char_eq_iff)
qed

lemma show_nat_number: "number 0 (show_nat n) = n"
proof (induction n rule: less_induct)
  case (less n)
  show ?case
  proof (cases "n < 10")
    case False
    then show ?thesis using less [of "n div 10"] by (simp add: show_nat_snoc)
  qed (simp add: show_nat_small)
qed

lemma show_nat_digits: "list_all is_digit (show_nat n)"
proof (induction n rule: less_induct)
  case (less n)
  show ?case
  proof (cases "n < 10")
    case False
    then show ?thesis using less [of "n div 10"] by (simp add: show_nat_snoc)
  qed (simp add: show_nat_small)
qed

lemma show_nat_hd: "0 < n \<Longrightarrow> \<exists>c s. show_nat n = c # s \<and> c \<noteq> CHR ''0''"
proof (induction n rule: less_induct)
  case (less n)
  show ?case
  proof (cases "n < 10")
    case True
    then have "char_of (48 + n) \<noteq> CHR ''0''" using char_digit(3) [of "char_of (48 + n)"] less.prems by simp
    then show ?thesis using True by (simp add: show_nat_small)
  next
    case False
    then have "\<exists>c s. show_nat (n div 10) = c # s \<and> c \<noteq> CHR ''0''" using less.IH [of "n div 10"] by simp
    then show ?thesis using False by (auto simp: show_nat_snoc)
  qed
qed

text \<open>A string of digits that does not begin with 0 is the notation of its value.\<close>

lemma show_nat_unique:
  assumes "list_all is_digit s" "s \<noteq> []" "hd s \<noteq> CHR ''0''"
  shows "show_nat (number 0 s) = s"
  using assms
proof (induction s rule: rev_induct)
  case (snoc c s)
  have c: "is_digit c" "digit_val c < 10" "char_of (48 + digit_val c) = c" using snoc.prems char_digit by auto
  show ?case
  proof (cases s)
    case Nil
    then show ?thesis using c by (simp add: show_nat_small)
  next
    case (Cons d t)
    then have IH: "show_nat (number 0 s) = s" using snoc by simp
    have "digit_val d \<noteq> 0" using snoc.prems Cons char_digit(3) [of d] by simp
    then have "0 < number 0 s" using number_ge [of "digit_val d" t] Cons by simp
    then show ?thesis using IH c by (simp add: show_nat_snoc)
  qed
qed simp

section \<open>Printing\<close>

lemma ll2string_loop: "ll2string_loop v p = show_nat (unat v) @ p"
proof (induction v p rule: ll2string_loop.induct)
  case (1 v p)
  have d: "unat (v div 10) = unat v div 10" "unat (v mod 10) = unat v mod 10" by (simp_all add: unat_div unat_mod)
  show ?case
  proof (cases "v div 10 = 0")
    case True
    then have "unat v < 10" using d(1) by (simp add: div_eq_0_iff unat_eq_0 [symmetric])
    then show ?thesis using True d by (subst ll2string_loop.simps) (simp add: show_nat_small)
  next
    case False
    then have "10 \<le> unat v" using d(1) by (metis div_eq_0_iff not_less unat_eq_0)
    then show ?thesis using 1 [OF refl refl False] False d by (subst ll2string_loop.simps) (simp add: show_nat_snoc)
  qed
qed

lemma unat_neg:
  fixes v :: "64 word"
  assumes "v \<noteq> 0"
  shows "unat (- v) = 2 ^ 64 - unat v"
proof -
  define n where "n = unat v"
  have n: "n < 2 ^ 64" "n \<noteq> 0" "uint v = int n"
    using assms unsigned_less [of v, where ?'a = nat] by (simp_all add: n_def unat_eq_0)
  have "int (unat (- v)) = (- int n) mod 2 ^ 64" using n(3) by (simp add: uint_word_ariths)
  also have "\<dots> = (2 ^ 64 - int n) mod 2 ^ 64" by (metis add.commute diff_conv_add_uminus mod_add_self2)
  also have "\<dots> = 2 ^ 64 - int n" using n by (intro mod_pos_pos_trivial) simp_all
  finally have "unat (- v) = nat (2 ^ 64 - int n)" by (metis nat_int)
  moreover have "nat (2 ^ 64 - int n) = 2 ^ 64 - n" by (simp add: nat_diff_distrib)
  ultimately show ?thesis by (simp only: n_def)
qed

lemma sint_unat:
  fixes v :: "64 word"
  shows "sint v < 0 \<longleftrightarrow> 2 ^ 63 \<le> unat v" "sint v < 0 \<Longrightarrow> - sint v = int (unat (- v))" "\<not> sint v < 0 \<Longrightarrow> sint v = int (unat v)"
proof -
  define n where "n = unat v"
  have n: "n < 2 ^ 64" "uint v = int n" using unsigned_less [of v, where ?'a = nat] by (simp_all add: n_def)
  have "sint v = take_bit (Suc 63) (uint v + 2 ^ 63) - 2 ^ 63" by (simp add: sint_uint signed_take_bit_eq_take_bit_shift)
  then have s: "sint v = (int n + 2 ^ 63) mod 2 ^ 64 - 2 ^ 63" using n(2) by (simp add: take_bit_eq_mod)
  have m: "(int n + 2 ^ 63) mod 2 ^ 64 = (if n < 2 ^ 63 then int n + 2 ^ 63 else int n - 2 ^ 63)"
  proof (cases "n < 2 ^ 63")
    case False
    define k :: int where "k = int n - 2 ^ 63"
    have "int n + 2 ^ 63 = k + 2 ^ 64" by (simp add: k_def)
    then have "(int n + 2 ^ 63) mod 2 ^ 64 = k mod 2 ^ 64" by (simp only: mod_add_self2)
    also have "\<dots> = k" using False n(1) by (intro mod_pos_pos_trivial) (simp_all add: k_def)
    finally show ?thesis using False by (simp add: k_def)
  qed simp
  have sv: "sint v = (if n < 2 ^ 63 then int n else int n - 2 ^ 64)" unfolding s m by simp
  have neg: "n \<noteq> 0 \<Longrightarrow> int (unat (- v)) = 2 ^ 64 - int n"
    using unat_neg [of v] n by (simp add: n_def flip: unat_eq_0)
  show "sint v < 0 \<longleftrightarrow> 2 ^ 63 \<le> unat v" "sint v < 0 \<Longrightarrow> - sint v = int (unat (- v))" "\<not> sint v < 0 \<Longrightarrow> sint v = int (unat v)"
    using sv n neg by (auto simp flip: n_def split: if_splits)
qed

lemma ll2string_decimal: "ll2string (Suc (length (show_int (sint v)))) v = show_int (sint v)"
    "ll2string len v = take (len - 1) (show_int (sint v))"
proof -
  have "ll2string len v = take (len - 1) (show_int (sint v))" for len
  proof (cases "sint v < 0")
    case True
    then have "nat (- sint v) = unat (- v)" using sint_unat(2) [of v] by simp
    then show ?thesis using True by (auto simp: ll2string_def ll2string_loop show_int_def Let_def)
  next
    case False
    then have "nat (sint v) = unat v" using sint_unat(3) [of v] by simp
    then show ?thesis using False by (auto simp: ll2string_def ll2string_loop show_int_def Let_def)
  qed
  then show "ll2string len v = take (len - 1) (show_int (sint v))"
    "ll2string (Suc (length (show_int (sint v)))) v = show_int (sint v)" by simp_all
qed

lemma show_int_length: "length (show_int (sint (v :: 64 word))) \<le> 20"
proof -
  have "unat w < 10 ^ 20" for w :: "64 word" using unsigned_less [of w, where ?'a = nat] by simp
  then have l: "length (show_nat (unat w)) \<le> 20" for w :: "64 word" using show_nat_length by simp
  show ?thesis
  proof (cases "sint v < 0")
    case True
    have "- 9223372036854775808 \<le> sint v" using sint_ge [of v] by simp
    then have "unat (- v) \<le> 9223372036854775808" using sint_unat(2) [OF True] by linarith
    then have "unat (- v) < 10 ^ 19" by simp
    then have "length (show_nat (unat (- v))) \<le> 19" using show_nat_length by simp
    then show ?thesis using True sint_unat(2) [OF True] by (simp add: show_int_def)
  next
    case False
    then show ?thesis using sint_unat(3) [OF False] l by (simp add: show_int_def)
  qed
qed

section \<open>Parsing\<close>

text \<open>The loop reads digits as long as the value fits 64 bits.\<close>

lemma string2ll_step:
  fixes v :: "64 word"
  assumes "d < 10"
  shows "v \<le> ULLONG_MAX div 10 \<and> v * 10 \<le> ULLONG_MAX - of_nat d \<longleftrightarrow> 10 * unat v + d < 2 ^ 64"
    and "10 * unat v + d < 2 ^ 64 \<Longrightarrow> unat (v * 10 + of_nat d) = 10 * unat v + d"
proof -
  have m: "unat (ULLONG_MAX div 10) = (2 ^ 64 - 1) div 10" by (simp add: ULLONG_MAX_def unat_div)
  have d: "unat (of_nat d :: 64 word) = d" using assms by (simp add: unat_of_nat)
  have "unat (ULLONG_MAX - of_nat d) = 2 ^ 64 - 1 - d"
    using d unat_sub [of "of_nat d" ULLONG_MAX] by (simp add: ULLONG_MAX_def unsigned_minus_1_eq_mask mask_eq_exp_minus_1)
  moreover have "unat (v * 10) = 10 * unat v" if "10 * unat v < 2 ^ 64"
    using that by (simp add: unat_mult_lem [THEN iffD1] mult.commute)
  moreover have "v \<le> ULLONG_MAX div 10 \<longleftrightarrow> 10 * unat v < 2 ^ 64" using m by (auto simp: word_le_nat_alt)
  ultimately show "v \<le> ULLONG_MAX div 10 \<and> v * 10 \<le> ULLONG_MAX - of_nat d \<longleftrightarrow> 10 * unat v + d < 2 ^ 64"
    using assms by (auto simp: word_le_nat_alt)
  show "unat (v * 10 + of_nat d) = 10 * unat v + d" if "10 * unat v + d < 2 ^ 64"
    using that d by (simp add: unat_word_ariths)
qed

lemma string2ll_loop_spec:
  "string2ll_loop v s = Some (w, []) \<longleftrightarrow> list_all is_digit s \<and> number (unat v) s < 2 ^ 64 \<and> unat w = number (unat v) s"
proof (induction s arbitrary: v)
  case Nil
  then show ?case using unsigned_less [of v, where ?'a = nat] by (auto simp: word_unat_eq_iff)
next
  case (Cons c s)
  show ?case
  proof (cases "is_digit c")
    case True
    note st = string2ll_step [OF char_digit(2) [OF True], of v]
    have big: "\<not> number (10 * unat v + digit_val c) s < 2 ^ 64" if "\<not> 10 * unat v + digit_val c < 2 ^ 64"
      using that number_ge [of "10 * unat v + digit_val c" s] by linarith
    have "string2ll_loop v (c # s) = (if 10 * unat v + digit_val c < 2 ^ 64 then string2ll_loop (v * 10 + of_nat (digit_val c)) s else None)"
      using True st(1) by (auto simp: Let_def not_le)
    then show ?thesis using True Cons.IH [of "v * 10 + of_nat (digit_val c)"] st(2) big by (auto split: if_splits)
  qed simp
qed

definition parse_digits :: "string \<Rightarrow> (64 word \<times> string) option" where
  "parse_digits p = (if p \<noteq> [] \<and> is_digit (hd p) \<and> hd p \<noteq> CHR ''0''
    then string2ll_loop (of_nat (digit_val (hd p))) (tl p) else None)"

lemma parse_digits: "parse_digits p = Some (w, []) \<longleftrightarrow> p = show_nat (unat w) \<and> w \<noteq> 0"
proof (cases "p \<noteq> [] \<and> is_digit (hd p) \<and> hd p \<noteq> CHR ''0''")
  case True
  then obtain c t where p: "p = c # t" by (cases p) auto
  have "unat (of_nat (digit_val c) :: 64 word) = digit_val c"
    using True p char_digit(2) [of c] by (simp add: unat_of_nat)
  then have l: "parse_digits p = Some (w, []) \<longleftrightarrow> list_all is_digit p \<and> number 0 p < 2 ^ 64 \<and> unat w = number 0 p"
    using True p by (simp add: parse_digits_def string2ll_loop_spec)
  have "unat w \<noteq> 0" if "unat w = number 0 p"
    using that p True char_digit(3) [of c] number_ge [of "digit_val c" t] by auto
  then show ?thesis using l True show_nat_unique [of p] show_nat_digits [of "unat w"] show_nat_number [of "unat w"]
      unsigned_less [of w, where ?'a = nat] by (auto simp: unat_eq_0)
next
  case False
  moreover have "p \<noteq> show_nat (unat w)" if "w \<noteq> 0"
    using that False show_nat_hd [of "unat w"] show_nat_digits [of "unat w"] by (auto simp: unat_gt_0)
  ultimately show ?thesis by (auto simp: parse_digits_def)
qed

lemma string2ll_alt: "string2ll s = (
    if s = [] then None else if s = ''0'' then Some 0
    else if hd s = CHR ''-'' then (case parse_digits (tl s) of
        Some (w, []) \<Rightarrow> if w > LLONG_MAX + 1 then None else Some (- w) | _ \<Rightarrow> None)
    else (case parse_digits s of Some (w, []) \<Rightarrow> if w > LLONG_MAX then None else Some w | _ \<Rightarrow> None))"
  by (cases s) (auto simp: string2ll_def parse_digits_def Let_def split: option.splits list.splits)

lemma show_nat_0: "show_nat n = ''0'' \<longleftrightarrow> n = 0"
proof
  assume "show_nat n = ''0''"
  then show "n = 0" using show_nat_hd [of n] by (cases n) auto
next
  have "char_of (48 :: nat) = CHR ''0''" using char_of_char [of "CHR ''0''"] by simp
  then show "n = 0 \<Longrightarrow> show_nat n = ''0''" by (simp add: show_nat_small)
qed

lemma show_nat_no_minus: "show_nat n \<noteq> CHR ''-'' # s"
  using show_nat_digits [of n] by (auto simp: is_digit_def)

lemma fits_signed: "(w :: 64 word) > LLONG_MAX \<longleftrightarrow> sint w < 0"
    "w \<noteq> 0 \<and> \<not> w > LLONG_MAX + 1 \<longleftrightarrow> sint (- w) < 0"
proof -
  have m: "unat LLONG_MAX = 2 ^ 63 - 1" "unat (LLONG_MAX + 1) = 2 ^ 63" by (simp_all add: LLONG_MAX_def)
  have "unat w > 2 ^ 63 - 1 \<longleftrightarrow> 2 ^ 63 \<le> unat w" by auto
  then show "w > LLONG_MAX \<longleftrightarrow> sint w < 0" using m(1) by (simp add: sint_unat(1) word_less_nat_alt)
  show "w \<noteq> 0 \<and> \<not> w > LLONG_MAX + 1 \<longleftrightarrow> sint (- w) < 0"
  proof (cases "w = 0")
    case False
    have "unat (- w) = 2 ^ 64 - unat w" "unat w < 2 ^ 64" using unat_neg [OF False] unsigned_less [of w, where ?'a = nat] by simp_all
    then show ?thesis using False m(2) by (simp add: sint_unat(1) word_less_nat_alt) linarith
  qed simp
qed

lemma string2ll_minus: "string2ll (CHR ''-'' # p) = Some v \<longleftrightarrow> p = show_nat (unat (- v)) \<and> sint v < 0"
proof -
  have "string2ll (CHR ''-'' # p) = Some v \<longleftrightarrow> (\<exists>w. parse_digits p = Some (w, []) \<and> \<not> w > LLONG_MAX + 1 \<and> - w = v)"
    by (simp add: string2ll_alt split: option.split list.split)
  also have "\<dots> \<longleftrightarrow> p = show_nat (unat (- v)) \<and> - v \<noteq> 0 \<and> \<not> - v > LLONG_MAX + 1"
    unfolding parse_digits by (metis minus_minus)
  finally show ?thesis using fits_signed(2) [of "- v"] by simp
qed

lemma string2ll_plus:
  assumes "s = [] \<or> hd s \<noteq> CHR ''-''"
  shows "string2ll s = Some v \<longleftrightarrow> s = show_nat (unat v) \<and> \<not> sint v < 0"
proof (cases "s = ''0''")
  case True
  then show ?thesis using show_nat_0 [of "unat v"] by (auto simp: string2ll_alt unat_eq_0)
next
  case False
  have "string2ll s = Some v \<longleftrightarrow> parse_digits s = Some (v, []) \<and> \<not> v > LLONG_MAX"
  proof (cases "s = []")
    case True
    then show ?thesis by (simp add: string2ll_alt parse_digits_def)
  next
    case ne: False
    then show ?thesis using assms False by (simp add: string2ll_alt split: option.split list.split) blast
  qed
  also have "\<dots> \<longleftrightarrow> s = show_nat (unat v) \<and> \<not> sint v < 0"
    using False show_nat_0 [of 0] by (cases "v = 0") (simp_all add: parse_digits fits_signed(1))
  finally show ?thesis .
qed

lemma show_int_cases: "show_int (sint v) = (if sint v < 0 then CHR ''-'' # show_nat (unat (- v)) else show_nat (unat v))"
  for v :: "64 word"
  using sint_unat(2,3) [of v] unfolding show_int_def by (metis nat_int)

lemma string2ll_decimal: "string2ll s = Some v \<longleftrightarrow> s = show_int (sint v)"
proof (cases "s \<noteq> [] \<and> hd s = CHR ''-''")
  case True
  then obtain p where "s = CHR ''-'' # p" by (cases s) auto
  then show ?thesis using string2ll_minus [of p v] show_nat_no_minus [of "unat v" p] by (auto simp: show_int_cases)
next
  case False
  then show ?thesis using string2ll_plus [of s v] by (auto simp: show_int_cases)
qed

text \<open>
  C31. \<^verbatim>\<open>string2ll\<close> accepts a string exactly when it is the decimal notation of a 64-bit integer, with
  no sign but a minus, no leading zeros and no spaces, and returns that integer; \<^verbatim>\<open>ll2string\<close> prints
  that notation, cut to the length of the buffer.
\<close>

theorem string2ll_ll2string:
  "(string2ll s = Some v \<longleftrightarrow> s = ll2string 21 v) \<and> ll2string len v = take (len - 1) (show_int (sint v))"
  using string2ll_decimal ll2string_decimal(2) [of 21 v] ll2string_decimal(2) [of len v] show_int_length [of v] by simp

end
