(* ===== verification/Md5.thy ===== *)
theory Md5
  imports Prelude
begin

text \<open>
  MD5 and HMAC-MD5 as the server computes them (\<^verbatim>\<open>server/src/md5.c\<close>).  The context is a record;
  \<^verbatim>\<open>unsigned long\<close> has 64 bits, of which the algorithm means the lower 32.  A buffer of 64
  bytes is a list; copying more into it than fits makes the list longer, so that keeping the
  length means that nothing is written outside.
\<close>

section \<open>Context\<close>

record md5_context =
  total0 :: "64 word"
  total1 :: "64 word"
  state4 :: "64 word \<times> 64 word \<times> 64 word \<times> 64 word"
  buffer :: "u8 list"
  ipad :: "u8 list"
  opad :: "u8 list"

definition GET_ULONG_LE :: "u8 list \<Rightarrow> nat \<Rightarrow> 64 word" where
  "GET_ULONG_LE b i = ucast (b ! i) OR push_bit 8 (ucast (b ! (i + 1)))
     OR push_bit 16 (ucast (b ! (i + 2))) OR push_bit 24 (ucast (b ! (i + 3)))"

definition PUT_ULONG_LE :: "64 word \<Rightarrow> u8 list" where
  "PUT_ULONG_LE n = [ucast n, ucast (drop_bit 8 n), ucast (drop_bit 16 n), ucast (drop_bit 24 n)]"

definition memcpy_at :: "nat \<Rightarrow> u8 list \<Rightarrow> u8 list \<Rightarrow> u8 list" where
  "memcpy_at off src dst = take off dst @ src @ drop (off + length src) dst"

definition md5_starts :: "md5_context \<Rightarrow> md5_context" where
  "md5_starts ctx = ctx\<lparr>total0 := 0, total1 := 0,
     state4 := (0x67452301, 0xEFCDAB89, 0x98BADCFE, 0x10325476)\<rparr>"

section \<open>One block\<close>

definition md5_S :: "64 word \<Rightarrow> nat \<Rightarrow> 64 word" where
  "md5_S x n = push_bit n x OR drop_bit (32 - n) (x AND 0xFFFFFFFF)"

definition md5_F1 :: "64 word \<Rightarrow> 64 word \<Rightarrow> 64 word \<Rightarrow> 64 word" where
  "md5_F1 x y z = z XOR (x AND (y XOR z))"
definition md5_F2 :: "64 word \<Rightarrow> 64 word \<Rightarrow> 64 word \<Rightarrow> 64 word" where
  "md5_F2 x y z = y XOR (z AND (x XOR y))"
definition md5_F3 :: "64 word \<Rightarrow> 64 word \<Rightarrow> 64 word \<Rightarrow> 64 word" where
  "md5_F3 x y z = x XOR y XOR z"
definition md5_F4 :: "64 word \<Rightarrow> 64 word \<Rightarrow> 64 word \<Rightarrow> 64 word" where
  "md5_F4 x y z = y XOR (x OR NOT z)"

text \<open>
  The operation \<^verbatim>\<open>P\<close> assigns its first register; the calls take the registers in the orders
  ABCD, DABC, CDAB, BCDA, so that a step followed by a rotation of the four is the next call.
\<close>

type_synonym regs64 = "64 word \<times> 64 word \<times> 64 word \<times> 64 word"

definition md5_P :: "(64 word \<Rightarrow> 64 word \<Rightarrow> 64 word \<Rightarrow> 64 word) \<Rightarrow> 64 word list
    \<Rightarrow> nat \<times> nat \<times> 64 word \<Rightarrow> regs64 \<Rightarrow> regs64" where
  "md5_P F X = (\<lambda>(k, s, t) (a, b, c, d).
     (d, md5_S (a + (F b c d + X ! k + t)) s + b, b, c))"

definition md5_round1 :: "(nat \<times> nat \<times> 64 word) list" where
  "md5_round1 = [
    (0, 7, 0xD76AA478), (1, 12, 0xE8C7B756), (2, 17, 0x242070DB), (3, 22, 0xC1BDCEEE),
    (4, 7, 0xF57C0FAF), (5, 12, 0x4787C62A), (6, 17, 0xA8304613), (7, 22, 0xFD469501),
    (8, 7, 0x698098D8), (9, 12, 0x8B44F7AF), (10, 17, 0xFFFF5BB1), (11, 22, 0x895CD7BE),
    (12, 7, 0x6B901122), (13, 12, 0xFD987193), (14, 17, 0xA679438E), (15, 22, 0x49B40821)]"

definition md5_round2 :: "(nat \<times> nat \<times> 64 word) list" where
  "md5_round2 = [
    (1, 5, 0xF61E2562), (6, 9, 0xC040B340), (11, 14, 0x265E5A51), (0, 20, 0xE9B6C7AA),
    (5, 5, 0xD62F105D), (10, 9, 0x02441453), (15, 14, 0xD8A1E681), (4, 20, 0xE7D3FBC8),
    (9, 5, 0x21E1CDE6), (14, 9, 0xC33707D6), (3, 14, 0xF4D50D87), (8, 20, 0x455A14ED),
    (13, 5, 0xA9E3E905), (2, 9, 0xFCEFA3F8), (7, 14, 0x676F02D9), (12, 20, 0x8D2A4C8A)]"

definition md5_round3 :: "(nat \<times> nat \<times> 64 word) list" where
  "md5_round3 = [
    (5, 4, 0xFFFA3942), (8, 11, 0x8771F681), (11, 16, 0x6D9D6122), (14, 23, 0xFDE5380C),
    (1, 4, 0xA4BEEA44), (4, 11, 0x4BDECFA9), (7, 16, 0xF6BB4B60), (10, 23, 0xBEBFBC70),
    (13, 4, 0x289B7EC6), (0, 11, 0xEAA127FA), (3, 16, 0xD4EF3085), (6, 23, 0x04881D05),
    (9, 4, 0xD9D4D039), (12, 11, 0xE6DB99E5), (15, 16, 0x1FA27CF8), (2, 23, 0xC4AC5665)]"

definition md5_round4 :: "(nat \<times> nat \<times> 64 word) list" where
  "md5_round4 = [
    (0, 6, 0xF4292244), (7, 10, 0x432AFF97), (14, 15, 0xAB9423A7), (5, 21, 0xFC93A039),
    (12, 6, 0x655B59C3), (3, 10, 0x8F0CCC92), (10, 15, 0xFFEFF47D), (1, 21, 0x85845DD1),
    (8, 6, 0x6FA87E4F), (15, 10, 0xFE2CE6E0), (6, 15, 0xA3014314), (13, 21, 0x4E0811A1),
    (4, 6, 0xF7537E82), (11, 10, 0xBD3AF235), (2, 15, 0x2AD7D2BB), (9, 21, 0xEB86D391)]"

definition md5_process :: "u8 list \<Rightarrow> md5_context \<Rightarrow> md5_context" where
  "md5_process data ctx = (
     let X = map (\<lambda>i. GET_ULONG_LE data (4 * i)) [0..<16];
         r = fold (md5_P md5_F1 X) md5_round1 (state4 ctx);
         r = fold (md5_P md5_F2 X) md5_round2 r;
         r = fold (md5_P md5_F3 X) md5_round3 r;
         (A, B, C, D) = fold (md5_P md5_F4 X) md5_round4 r;
         (s0, s1, s2, s3) = state4 ctx
     in ctx\<lparr>state4 := (s0 + A, s1 + B, s2 + C, s3 + D)\<rparr>)"

section \<open>Feeding and finishing\<close>

function md5_update_loop :: "u8 list \<Rightarrow> md5_context \<Rightarrow> u8 list \<times> md5_context" where
  "md5_update_loop input ctx = (if length input \<ge> 64
     then md5_update_loop (drop 64 input) (md5_process (take 64 input) ctx) else (input, ctx))"
  by auto
termination
  by (relation "measure (length \<circ> fst)") auto

text \<open>The argument \<^verbatim>\<open>ilen\<close> is the length of the list; the printed trace is left out.\<close>

definition md5_update :: "u8 list \<Rightarrow> md5_context \<Rightarrow> md5_context" where
  "md5_update input ctx = (
     if input = [] then ctx
     else
       let left = unat (total0 ctx AND 0x3F);
           fill = 64 - left;
           ilen = of_nat (length input) :: 64 word;
           ctx = ctx\<lparr>total0 := (total0 ctx + ilen) AND 0xFFFFFFFF\<rparr>;
           ctx = (if total0 ctx < ilen then ctx\<lparr>total1 := total1 ctx + 1\<rparr> else ctx);
           (left, input, ctx) =
             (if left \<noteq> 0 \<and> length input \<ge> fill
              then let ctx = ctx\<lparr>buffer := memcpy_at left (take fill input) (buffer ctx)\<rparr>
                   in (0, drop fill input, md5_process (buffer ctx) ctx)
              else (left, input, ctx));
           (input, ctx) = md5_update_loop input ctx
       in if input \<noteq> [] then ctx\<lparr>buffer := memcpy_at left input (buffer ctx)\<rparr> else ctx)"

definition md5_padding :: "u8 list" where
  "md5_padding = 0x80 # replicate 63 0"

definition md5_finish :: "md5_context \<Rightarrow> u8 list \<times> md5_context" where
  "md5_finish ctx = (
     let high = drop_bit 29 (total0 ctx) OR push_bit 3 (total1 ctx);
         low = push_bit 3 (total0 ctx);
         msglen = PUT_ULONG_LE low @ PUT_ULONG_LE high;
         last = unat (total0 ctx AND 0x3F);
         padn = (if last < 56 then 56 - last else 120 - last);
         ctx = md5_update (take padn md5_padding) ctx;
         ctx = md5_update msglen ctx;
         (s0, s1, s2, s3) = state4 ctx
     in (PUT_ULONG_LE s0 @ PUT_ULONG_LE s1 @ PUT_ULONG_LE s2 @ PUT_ULONG_LE s3, ctx))"

text \<open>The local context starts with whatever the stack holds.\<close>

definition md5 :: "md5_context \<Rightarrow> u8 list \<Rightarrow> u8 list" where
  "md5 ctx input = fst (md5_finish (md5_update input (md5_starts ctx)))"

text \<open>
  What the file system answers: \<open>None\<close> when the file cannot be opened, otherwise the pieces that
  the calls of \<^verbatim>\<open>fread\<close> return up to the first empty one, and whether there was an error.
\<close>

definition md5_file :: "md5_context \<Rightarrow> (u8 list list \<times> bool) option \<Rightarrow> int \<times> u8 list option" where
  "md5_file ctx f = (case f of None \<Rightarrow> (1, None)
     | Some (pieces, ferror) \<Rightarrow>
         let output = fst (md5_finish (fold md5_update pieces (md5_starts ctx)))
         in (if ferror then 2 else 0, Some output))"

section \<open>HMAC\<close>

definition xor_key :: "u8 list \<Rightarrow> u8 list \<Rightarrow> u8 list" where
  "xor_key key pad = foldl (\<lambda>pad i. pad[i := pad ! i XOR key ! i]) pad [0..<length key]"

definition md5_hmac_starts :: "md5_context \<Rightarrow> u8 list \<Rightarrow> md5_context \<Rightarrow> md5_context" where
  "md5_hmac_starts stack key ctx = (
     let key = (if length key > 64 then md5 stack key else key);
         ctx = ctx\<lparr>ipad := xor_key key (replicate 64 0x36), opad := xor_key key (replicate 64 0x5C)\<rparr>
     in md5_update (ipad ctx) (md5_starts ctx))"

definition md5_hmac_update :: "u8 list \<Rightarrow> md5_context \<Rightarrow> md5_context" where
  "md5_hmac_update input ctx = md5_update input ctx"

definition md5_hmac_finish :: "md5_context \<Rightarrow> u8 list" where
  "md5_hmac_finish ctx = (
     let (tmpbuf, ctx) = md5_finish ctx;
         ctx = md5_starts ctx;
         ctx = md5_update (opad ctx) ctx;
         ctx = md5_update tmpbuf ctx
     in fst (md5_finish ctx))"

definition md5_hmac :: "md5_context \<Rightarrow> md5_context \<Rightarrow> u8 list \<Rightarrow> u8 list \<Rightarrow> u8 list" where
  "md5_hmac stack ctx key input = md5_hmac_finish (md5_hmac_update input (md5_hmac_starts stack key ctx))"

section \<open>Hexadecimal digest\<close>

definition hex_lower :: "nat \<Rightarrow> char" where
  "hex_lower n = (if n < 10 then char_of (48 + n) else char_of (87 + n))"

definition str_bytes :: "string \<Rightarrow> u8 list" where
  "str_bytes s = map (\<lambda>c. of_nat (of_char c)) s"

definition mymd5 :: "md5_context \<Rightarrow> string \<Rightarrow> string" where
  "mymd5 ctx str = concat (map (\<lambda>b. [hex_lower (unat b div 16), hex_lower (unat b mod 16)])
     (md5 ctx (str_bytes str)))"

end
