(* ===== verification/Md5_Ref.thy ===== *)
theory Md5_Ref
  imports Md5
begin

text \<open>
  MD5 as RFC 1321 defines it, over 32-bit words and whole messages, and the proof that the
  server's code computes it, however the message is cut.
\<close>

section \<open>The standard\<close>

type_synonym regs = "u32 \<times> u32 \<times> u32 \<times> u32"

definition rfc_F :: "nat \<Rightarrow> u32 \<Rightarrow> u32 \<Rightarrow> u32 \<Rightarrow> u32" where
  "rfc_F r x y z = (if r = 0 then (x AND y) OR (NOT x AND z)
     else if r = 1 then (x AND z) OR (y AND NOT z)
     else if r = 2 then x XOR y XOR z
     else y XOR (x OR NOT z))"

text \<open>Which word of the block, and by how much to rotate, in step \<open>i\<close> of round \<open>r\<close>.\<close>

definition rfc_word :: "nat \<Rightarrow> nat \<Rightarrow> nat" where
  "rfc_word r i = (if r = 0 then i else if r = 1 then (1 + 5 * i) mod 16
     else if r = 2 then (5 + 3 * i) mod 16 else (7 * i) mod 16)"

definition rfc_shift :: "nat \<Rightarrow> nat \<Rightarrow> nat" where
  "rfc_shift r i = [[7, 12, 17, 22], [5, 9, 14, 20], [4, 11, 16, 23], [6, 10, 15, 21]] ! r ! (i mod 4)"

definition rfc_T :: "nat \<Rightarrow> nat \<Rightarrow> u32" where
  "rfc_T r i = ucast (snd (snd ([md5_round1, md5_round2, md5_round3, md5_round4] ! r ! i)))"

definition rfc_step :: "u32 list \<Rightarrow> nat \<times> nat \<Rightarrow> regs \<Rightarrow> regs" where
  "rfc_step X = (\<lambda>(r, i) (a, b, c, d).
     (d, b + word_rotl (rfc_shift r i) (a + rfc_F r b c d + X ! rfc_word r i + rfc_T r i), b, c))"

definition rfc_words :: "u8 list \<Rightarrow> u32 list" where
  "rfc_words block = map (\<lambda>j. ucast (block ! (4 * j)) OR push_bit 8 (ucast (block ! (4 * j + 1)))
     OR push_bit 16 (ucast (block ! (4 * j + 2))) OR push_bit 24 (ucast (block ! (4 * j + 3)))) [0..<16]"

definition rfc_block :: "u8 list \<Rightarrow> regs \<Rightarrow> regs" where
  "rfc_block block = (\<lambda>(a, b, c, d).
     let (a', b', c', d') = fold (rfc_step (rfc_words block)) (List.product [0..<4] [0..<16]) (a, b, c, d)
     in (a + a', b + b', c + c', d + d'))"

fun rfc_blocks :: "u8 list \<Rightarrow> regs \<Rightarrow> regs" where
  "rfc_blocks m h = (if length m < 64 then h else rfc_blocks (drop 64 m) (rfc_block (take 64 m) h))"

definition rfc_init :: regs where
  "rfc_init = (0x67452301, 0xEFCDAB89, 0x98BADCFE, 0x10325476)"

definition rfc_pad :: "u8 list \<Rightarrow> u8 list" where
  "rfc_pad m = m @ 0x80 # replicate ((119 - length m mod 64) mod 64) 0
     @ map (\<lambda>i. of_nat (8 * length m div 256 ^ i)) [0..<8]"

definition rfc_bytes :: "u32 \<Rightarrow> u8 list" where
  "rfc_bytes w = map (\<lambda>i. ucast (drop_bit (8 * i) w)) [0..<4]"

definition rfc_md5 :: "u8 list \<Rightarrow> u8 list" where
  "rfc_md5 m = (let (a, b, c, d) = rfc_blocks (rfc_pad m) rfc_init
     in rfc_bytes a @ rfc_bytes b @ rfc_bytes c @ rfc_bytes d)"

declare rfc_blocks.simps [simp del] md5_update_loop.simps [simp del]

section \<open>One step\<close>

abbreviation low32 :: "64 word \<Rightarrow> u32" where
  "low32 \<equiv> ucast"

lemma low32_add [simp]: "low32 (x + y) = low32 x + low32 y"
  by (simp add: word_unat_eq_iff unsigned_ucast_eq take_bit_eq_mod unat_word_ariths mod_mod_cancel mod_add_eq)

lemma low32_bits [simp]:
  "low32 (x AND y) = low32 x AND low32 y" "low32 (x OR y) = low32 x OR low32 y"
  "low32 (x XOR y) = low32 x XOR low32 y" "low32 (NOT x) = NOT (low32 x)"
  "low32 (push_bit n x) = push_bit n (low32 x)"
  by (rule bit_word_eqI; auto simp: bit_simps)+

lemma and_low32: "x AND 0xFFFFFFFF = take_bit 32 (x :: 64 word)"
  by (simp add: take_bit_eq_mask mask_eq_exp_minus_1)

lemma low32_S: "0 < n \<Longrightarrow> n < 32 \<Longrightarrow> low32 (md5_S x n) = word_rotl n (low32 x)"
proof (rule bit_word_eqI)
  fix i assume n: "0 < n" "n < 32" and i: "i < LENGTH(32)"
  show "bit (low32 (md5_S x n)) i = bit (word_rotl n (low32 x)) i"
  proof (cases "n \<le> i")
    case True
    then have "(i + (32 - n)) mod 32 = i - n" using n i by (simp add: mod_if)
    then show ?thesis using True n i by (auto simp: md5_S_def bit_simps bit_word_rotl_iff and_low32)
  next
    case False
    then have m: "(i + (32 - n)) mod 32 = 32 - n + i" "32 - n + i < 32" using n i by simp_all
    have "bit (low32 (md5_S x n)) i \<longleftrightarrow> bit x (32 - n + i)"
      using False n i m(2) unfolding md5_S_def and_low32 by (simp add: bit_simps)
    moreover have "bit (word_rotl n (low32 x)) i \<longleftrightarrow> bit x (32 - n + i)"
      using n i m False by (auto simp: bit_word_rotl_iff bit_simps)
    ultimately show ?thesis by simp
  qed
qed

lemma low32_F:
  "low32 (md5_F1 x y z) = rfc_F 0 (low32 x) (low32 y) (low32 z)"
  "low32 (md5_F2 x y z) = rfc_F 1 (low32 x) (low32 y) (low32 z)"
  "low32 (md5_F3 x y z) = rfc_F 2 (low32 x) (low32 y) (low32 z)"
  "low32 (md5_F4 x y z) = rfc_F 3 (low32 x) (low32 y) (low32 z)"
  by (auto simp: md5_F1_def md5_F2_def md5_F3_def md5_F4_def rfc_F_def intro!: bit_word_eqI simp: bit_simps)

definition low4 :: "regs64 \<Rightarrow> regs" where
  "low4 = (\<lambda>(a, b, c, d). (low32 a, low32 b, low32 c, low32 d))"

definition md5_F :: "nat \<Rightarrow> 64 word \<Rightarrow> 64 word \<Rightarrow> 64 word \<Rightarrow> 64 word" where
  "md5_F r = [md5_F1, md5_F2, md5_F3, md5_F4] ! r"

definition md5_round :: "nat \<Rightarrow> (nat \<times> nat \<times> 64 word) list" where
  "md5_round r = [md5_round1, md5_round2, md5_round3, md5_round4] ! r"

lemmas md5_rounds = md5_round1_def md5_round2_def md5_round3_def md5_round4_def

text \<open>The tables in the source are those of the formulas.\<close>

lemma md5_round_entry:
  assumes "r < 4" "i < 16"
  shows "fst (md5_round r ! i) = rfc_word r i" "fst (snd (md5_round r ! i)) = rfc_shift r i"
    "0 < rfc_shift r i" "rfc_shift r i < 32" "rfc_word r i < 16" "length (md5_round r) = 16"
proof -
  have "\<forall>r \<in> set [0..<4]. \<forall>i \<in> set [0..<16]. fst (md5_round r ! i) = rfc_word r i \<and> fst (snd (md5_round r ! i)) = rfc_shift r i
    \<and> 0 < rfc_shift r i \<and> rfc_shift r i < 32 \<and> rfc_word r i < 16 \<and> length (md5_round r) = 16"
    by (simp add: md5_round_def md5_rounds rfc_word_def rfc_shift_def upt_rec)
  then show "fst (md5_round r ! i) = rfc_word r i" "fst (snd (md5_round r ! i)) = rfc_shift r i"
    "0 < rfc_shift r i" "rfc_shift r i < 32" "rfc_word r i < 16" "length (md5_round r) = 16"
    using assms by auto
qed

lemma low4_step:
  assumes r: "r < 4" "i < 16" and X: "length X = 16"
  shows "low4 (md5_P (md5_F r) X (md5_round r ! i) regs) = rfc_step (map low32 X) (r, i) (low4 regs)"
proof -
  obtain a b c d where regs: "regs = (a, b, c, d)" by (metis surj_pair)
  obtain k s t where e: "md5_round r ! i = (k, s, t)" by (metis surj_pair)
  note ent = md5_round_entry [OF r]
  have ks: "k = rfc_word r i" "s = rfc_shift r i" using ent(1,2) e by simp_all
  have T: "rfc_T r i = low32 t" using e by (simp add: rfc_T_def md5_round_def)
  have F: "low32 (md5_F r x y z) = rfc_F r (low32 x) (low32 y) (low32 z)" for x y z
    using r(1) low32_F by (auto simp: md5_F_def numeral_eq_Suc less_Suc_eq)
  have "low32 (md5_S (a + (md5_F r b c d + X ! k + t)) s) =
      word_rotl s (low32 a + rfc_F r (low32 b) (low32 c) (low32 d) + low32 (X ! k) + low32 t)"
    using low32_S [of s "a + (md5_F r b c d + X ! k + t)"] ent(3,4) ks F by (simp add: add.assoc)
  then show ?thesis using ks ent(5) X T
    by (simp add: regs e md5_P_def rfc_step_def low4_def add.commute)
qed

lemma low4_round:
  assumes r: "r < 4" and X: "length X = 16"
  shows "low4 (fold (md5_P (md5_F r) X) (md5_round r) regs) =
    fold (rfc_step (map low32 X)) (map (Pair r) [0..<16]) (low4 regs)"
proof -
  have "low4 (fold (\<lambda>i. md5_P (md5_F r) X (md5_round r ! i)) is regs) =
      fold (rfc_step (map low32 X)) (map (Pair r) is) (low4 regs)" if "set is \<subseteq> {0..<16}" for "is"
    using that by (induction "is" arbitrary: regs) (simp_all add: low4_step [OF r _ X])
  moreover have "md5_round r = map (\<lambda>i. md5_round r ! i) [0..<16]"
    using md5_round_entry(6) [OF r, of 0] by (intro nth_equalityI) simp_all
  then have "fold (md5_P (md5_F r) X) (md5_round r) regs = fold (\<lambda>i. md5_P (md5_F r) X (md5_round r ! i)) [0..<16] regs"
    by (metis (no_types, lifting) comp_apply fold_cong fold_map)
  ultimately show ?thesis by simp
qed

lemma low32_GET:
  "low32 (GET_ULONG_LE b i) = ucast (b ! i) OR push_bit 8 (ucast (b ! (i + 1)))
     OR push_bit 16 (ucast (b ! (i + 2))) OR push_bit 24 (ucast (b ! (i + 3)))"
proof -
  have "low32 (ucast w) = ucast w" for w :: u8 by (rule bit_word_eqI) (auto simp: bit_simps)
  then show ?thesis by (simp add: GET_ULONG_LE_def)
qed

lemma low4_process:
  "low4 (state4 (md5_process data ctx)) = rfc_block data (low4 (state4 ctx))"
proof -
  let ?X = "map (\<lambda>i. GET_ULONG_LE data (4 * i)) [0..<16]"
  have X: "map low32 ?X = rfc_words data" by (simp add: rfc_words_def low32_GET comp_def)
  define r where "r = fold (md5_P (md5_F 3) ?X) (md5_round 3) (fold (md5_P (md5_F 2) ?X) (md5_round 2)
    (fold (md5_P (md5_F 1) ?X) (md5_round 1) (fold (md5_P (md5_F 0) ?X) (md5_round 0) (state4 ctx))))"
  have "low4 r = fold (rfc_step (rfc_words data)) (map (Pair 3) [0..<16]) (fold (rfc_step (rfc_words data)) (map (Pair 2) [0..<16])
    (fold (rfc_step (rfc_words data)) (map (Pair 1) [0..<16]) (fold (rfc_step (rfc_words data)) (map (Pair 0) [0..<16]) (low4 (state4 ctx)))))"
    by (simp only: r_def low4_round [of _ ?X, unfolded X] length_map length_upt)
  also have "\<dots> = fold (rfc_step (rfc_words data)) (List.product [0..<4] [0..<16]) (low4 (state4 ctx))"
    by (simp add: upt_rec [of _ 4] numeral_3_eq_3 numeral_2_eq_2 del: upt_Suc)
  finally have r: "low4 r = \<dots>" .
  obtain A B C D where R: "r = (A, B, C, D)" by (metis surj_pair)
  obtain s0 s1 s2 s3 where S: "state4 ctx = (s0, s1, s2, s3)" by (metis surj_pair)
  have "state4 (md5_process data ctx) = (s0 + A, s1 + B, s2 + C, s3 + D)"
    using R S by (simp add: md5_process_def Let_def r_def md5_F_def md5_round_def)
  then show ?thesis using r [symmetric] R S by (simp add: rfc_block_def low4_def)
qed

lemma md5_process_simps [simp]:
  "total0 (md5_process data ctx) = total0 ctx" "total1 (md5_process data ctx) = total1 ctx"
  "buffer (md5_process data ctx) = buffer ctx" "ipad (md5_process data ctx) = ipad ctx"
  "opad (md5_process data ctx) = opad ctx"
  by (simp_all add: md5_process_def Let_def split: prod.split)

section \<open>Whole blocks and what is left\<close>

definition tail64 :: "u8 list \<Rightarrow> u8 list" where
  "tail64 m = drop (64 * (length m div 64)) m"

lemma tail64_length [simp]: "length (tail64 m) = length m mod 64"
  by (simp add: tail64_def minus_mult_div_eq_mod)

lemma tail64_step: "64 \<le> length m \<Longrightarrow> tail64 (drop 64 m) = tail64 m"
proof -
  assume "64 \<le> length m"
  then have "length m div 64 = Suc ((length m - 64) div 64)" by (simp add: le_div_geq)
  then show ?thesis by (simp add: tail64_def add.commute)
qed

lemma tail64_short: "length m < 64 \<Longrightarrow> tail64 m = m"
  by (simp add: tail64_def)

lemma rfc_blocks_append:
  "rfc_blocks (m @ m') h = rfc_blocks (tail64 m @ m') (rfc_blocks m h) \<and> tail64 (m @ m') = tail64 (tail64 m @ m')"
proof (induction m h rule: rfc_blocks.induct)
  case (1 m h)
  show ?case
  proof (cases "length m < 64")
    case True
    then show ?thesis by (simp add: tail64_short rfc_blocks.simps [of m])
  next
    case False
    then have "rfc_blocks (m @ m') h = rfc_blocks (drop 64 m @ m') (rfc_block (take 64 m) h)"
      by (subst rfc_blocks.simps) simp
    moreover have "tail64 (m @ m') = tail64 (drop 64 m @ m')" using False tail64_step [of "m @ m'"] by simp
    ultimately show ?thesis using 1 False tail64_step [of m] by (simp add: rfc_blocks.simps [of m])
  qed
qed

lemma rfc_blocks_short: "length m < 64 \<Longrightarrow> rfc_blocks m h = h"
  by (simp add: rfc_blocks.simps)

lemma rfc_blocks_64: "length m = 64 \<Longrightarrow> rfc_blocks (m @ m') h = rfc_blocks m' (rfc_block m h) \<and> tail64 (m @ m') = tail64 m'"
  using tail64_step [of "m @ m'"] by (subst rfc_blocks.simps) simp

lemma md5_update_loop_run:
  "md5_update_loop input ctx = (input', ctx') \<Longrightarrow> input' = tail64 input
    \<and> low4 (state4 ctx') = rfc_blocks input (low4 (state4 ctx))
    \<and> total0 ctx' = total0 ctx \<and> total1 ctx' = total1 ctx \<and> buffer ctx' = buffer ctx
    \<and> ipad ctx' = ipad ctx \<and> opad ctx' = opad ctx"
proof (induction input ctx rule: md5_update_loop.induct)
  case (1 input ctx)
  show ?case
  proof (cases "64 \<le> length input")
    case True
    then have "md5_update_loop (drop 64 input) (md5_process (take 64 input) ctx) = (input', ctx')"
      using 1(2) by (subst (asm) md5_update_loop.simps) simp
    from 1(1) [OF True this] show ?thesis
      using True by (simp add: tail64_step low4_process rfc_blocks.simps [of input])
  next
    case False
    then show ?thesis using 1(2) by (subst (asm) md5_update_loop.simps) (simp add: tail64_short rfc_blocks_short)
  qed
qed

section \<open>Feeding\<close>

text \<open>The context after the bytes of \<open>m\<close>.\<close>

definition two32 :: nat where
  "two32 = 2 ^ 32"

definition md5_rep :: "md5_context \<Rightarrow> u8 list \<Rightarrow> bool" where
  "md5_rep ctx m \<longleftrightarrow> total0 ctx = of_nat (length m mod two32) \<and> total1 ctx = of_nat (length m div two32)
    \<and> length (buffer ctx) = 64 \<and> take (length m mod 64) (buffer ctx) = tail64 m
    \<and> low4 (state4 ctx) = rfc_blocks m rfc_init"

lemma md5_starts_rep: "length (buffer ctx) = 64 \<Longrightarrow> md5_rep (md5_starts ctx) []"
  by (simp add: md5_rep_def md5_starts_def tail64_def rfc_blocks_short low4_def rfc_init_def)

lemma left_bytes: "unat ((of_nat (n mod two32) :: 64 word) AND 0x3F) = n mod 64"
  unfolding two32_def
proof -
  have "(of_nat (n mod 2 ^ 32) :: 64 word) AND 0x3F = take_bit 6 (of_nat (n mod 2 ^ 32))"
    by (simp add: take_bit_eq_mask mask_eq_exp_minus_1)
  then have "unat ((of_nat (n mod 2 ^ 32) :: 64 word) AND 0x3F) = n mod 2 ^ 32 mod 2 ^ 64 mod 64"
    by (simp only: unsigned_take_bit_eq unat_of_nat) (simp add: take_bit_eq_mod)
  also have "\<dots> = n mod 64" by (simp add: mod_mod_cancel)
  finally show "unat ((of_nat (n mod 2 ^ 32) :: 64 word) AND 0x3F) = n mod 64" .
qed

lemma add_carry:
  fixes n k N :: nat
  assumes "k < N"
  shows "(n + k) div N = n div N + (if (n + k) mod N < k then 1 else 0)"
proof -
  define q r where "q = n div N" and "r = n mod N"
  have r: "r < N" using assms by (simp add: r_def)
  have nk: "n + k = q * N + (r + k)" by (simp add: q_def r_def)
  have dm: "(n + k) div N = q + (r + k) div N" "(n + k) mod N = (r + k) mod N"
    using assms unfolding nk by simp_all
  show ?thesis
  proof (cases "r + k < N")
    case True
    then show ?thesis using dm by (simp add: q_def)
  next
    case False
    then have "(r + k) div N = 1" "(r + k) mod N = r + k - N"
      using r assms by (simp_all add: div_nat_eqI le_mod_geq)
    then show ?thesis using dm r False by (simp add: q_def)
  qed
qed

lemma total_step:
  assumes "k < 2 ^ 31"
  shows "((of_nat (n mod two32) :: 64 word) + of_nat k) AND 0xFFFFFFFF = of_nat ((n + k) mod two32)"
    "(n + k) div two32 = n div two32 + (if (of_nat ((n + k) mod two32) :: 64 word) < of_nat k then 1 else 0)"
  unfolding two32_def
proof -
  have "(of_nat (n mod 2 ^ 32) :: 64 word) + of_nat k = of_nat (n mod 2 ^ 32 + k)" by simp
  then have "((of_nat (n mod 2 ^ 32) :: 64 word) + of_nat k) AND 0xFFFFFFFF = take_bit 32 (of_nat (n mod 2 ^ 32 + k))"
    by (simp only: and_low32)
  also have "\<dots> = of_nat ((n mod 2 ^ 32 + k) mod 2 ^ 32)" by (simp only: take_bit_of_nat take_bit_eq_mod [of 32 "n mod 2 ^ 32 + k"])
  also have "(n mod 2 ^ 32 + k) mod 2 ^ 32 = (n + k) mod 2 ^ 32" by (rule mod_add_left_eq)
  finally show "((of_nat (n mod 2 ^ 32) :: 64 word) + of_nat k) AND 0xFFFFFFFF = of_nat ((n + k) mod 2 ^ 32)" .
  have "unat (of_nat ((n + k) mod 2 ^ 32) :: 64 word) = (n + k) mod 2 ^ 32" "unat (of_nat k :: 64 word) = k"
    using assms mod_less_divisor [of "2 ^ 32" "n + k"] by (simp_all only: unat_of_nat, simp_all)
  then have "(of_nat ((n + k) mod 2 ^ 32) :: 64 word) < of_nat k \<longleftrightarrow> (n + k) mod 2 ^ 32 < k"
    by (simp only: word_less_nat_alt)
  moreover have "k < 2 ^ 32" using assms by simp
  ultimately show "(n + k) div 2 ^ 32 = n div 2 ^ 32 + (if (of_nat ((n + k) mod 2 ^ 32) :: 64 word) < of_nat k then 1 else 0)"
    using add_carry [of k "2 ^ 32" n] by (simp only:)
qed

text \<open>The second half of the function: whole blocks, then the rest into the buffer.\<close>

lemma update_end:
  assumes buf: "length (buffer ctx) = 64" and left: "left < 64" "left = 0 \<or> length input < 64 - left"
    and loop: "md5_update_loop input ctx = (input', ctx')"
    and ctx2: "ctx2 = (if input' \<noteq> [] then ctx'\<lparr>buffer := memcpy_at left input' (buffer ctx')\<rparr> else ctx')"
  shows "length (buffer ctx2) = 64" "total0 ctx2 = total0 ctx" "total1 ctx2 = total1 ctx"
    "ipad ctx2 = ipad ctx" "opad ctx2 = opad ctx"
    "low4 (state4 ctx2) = rfc_blocks (take left (buffer ctx) @ input) (low4 (state4 ctx))"
    "take (length (tail64 (take left (buffer ctx) @ input))) (buffer ctx2) = tail64 (take left (buffer ctx) @ input)"
proof -
  let ?w = "take left (buffer ctx) @ input"
  note run = md5_update_loop_run [OF loop]
  have w: "tail64 ?w = take left (buffer ctx) @ input'" "rfc_blocks ?w h = rfc_blocks input h" for h
    using left buf run by (auto simp: tail64_short rfc_blocks_short)
  have len: "left + length input' < 64"
    using left run by (cases "left = 0") (auto simp: tail64_short)
  show "length (buffer ctx2) = 64" using buf len run by (auto simp: ctx2 memcpy_at_def)
  show "total0 ctx2 = total0 ctx" "total1 ctx2 = total1 ctx" "ipad ctx2 = ipad ctx" "opad ctx2 = opad ctx"
    "low4 (state4 ctx2) = rfc_blocks ?w (low4 (state4 ctx))"
    using run w(2) by (simp_all add: ctx2)
  show "take (length (tail64 ?w)) (buffer ctx2) = tail64 ?w"
    unfolding w(1) length_append using buf left(1) run by (auto simp: ctx2 memcpy_at_def simp del: tail64_length)
qed

text \<open>The first half: the counters, and a block completed in the buffer.\<close>

definition md5_count :: "nat \<Rightarrow> md5_context \<Rightarrow> md5_context" where
  "md5_count k ctx = (let t = (total0 ctx + of_nat k) AND 0xFFFFFFFF
     in ctx\<lparr>total0 := t, total1 := (if t < of_nat k then total1 ctx + 1 else total1 ctx)\<rparr>)"

definition md5_fill :: "nat \<Rightarrow> u8 list \<Rightarrow> md5_context \<Rightarrow> nat \<times> u8 list \<times> md5_context" where
  "md5_fill l input ctx = (if l \<noteq> 0 \<and> length input \<ge> 64 - l
     then (0, drop (64 - l) input, md5_process (memcpy_at l (take (64 - l) input) (buffer ctx))
         (ctx\<lparr>buffer := memcpy_at l (take (64 - l) input) (buffer ctx)\<rparr>))
     else (l, input, ctx))"

lemma md5_update_halves:
  "md5_update input ctx = (if input = [] then ctx
     else let (left, input1, ctx1) = md5_fill (unat (total0 ctx AND 0x3F)) input (md5_count (length input) ctx);
              (input', ctx') = md5_update_loop input1 ctx1
          in if input' \<noteq> [] then ctx'\<lparr>buffer := memcpy_at left input' (buffer ctx')\<rparr> else ctx')"
  by (auto simp: md5_update_def md5_fill_def md5_count_def Let_def cong: if_cong split: prod.split)

lemma md5_fill_ok:
  assumes buf: "length (buffer ctx) = 64" and l: "l < 64" and f: "md5_fill l input ctx = (left, input1, ctx1)"
  shows "length (buffer ctx1) = 64" "left < 64" "left = 0 \<or> length input1 < 64 - left"
    "total0 ctx1 = total0 ctx" "total1 ctx1 = total1 ctx" "ipad ctx1 = ipad ctx" "opad ctx1 = opad ctx"
    "rfc_blocks (take l (buffer ctx) @ input) (low4 (state4 ctx)) = rfc_blocks (take left (buffer ctx1) @ input1) (low4 (state4 ctx1))"
    "tail64 (take l (buffer ctx) @ input) = tail64 (take left (buffer ctx1) @ input1)"
proof -
  have "length (buffer ctx1) = 64 \<and> left < 64 \<and> (left = 0 \<or> length input1 < 64 - left)
    \<and> total0 ctx1 = total0 ctx \<and> total1 ctx1 = total1 ctx \<and> ipad ctx1 = ipad ctx \<and> opad ctx1 = opad ctx
    \<and> rfc_blocks (take l (buffer ctx) @ input) (low4 (state4 ctx)) = rfc_blocks (take left (buffer ctx1) @ input1) (low4 (state4 ctx1))
    \<and> tail64 (take l (buffer ctx) @ input) = tail64 (take left (buffer ctx1) @ input1)"
  proof (cases "l \<noteq> 0 \<and> length input \<ge> 64 - l")
    case True
    let ?b = "take l (buffer ctx) @ take (64 - l) input"
    have b: "memcpy_at l (take (64 - l) input) (buffer ctx) = ?b" "length ?b = 64"
      using True l buf by (simp_all add: memcpy_at_def)
    have "take l (buffer ctx) @ input = ?b @ drop (64 - l) input" by simp
    then show ?thesis using f True b rfc_blocks_64 [OF b(2), of "drop (64 - l) input" "low4 (state4 ctx)"]
      by (auto simp: md5_fill_def low4_process)
  next
    case False
    then show ?thesis using f buf l by (auto simp: md5_fill_def)
  qed
  then show "length (buffer ctx1) = 64" "left < 64" "left = 0 \<or> length input1 < 64 - left"
    "total0 ctx1 = total0 ctx" "total1 ctx1 = total1 ctx" "ipad ctx1 = ipad ctx" "opad ctx1 = opad ctx"
    "rfc_blocks (take l (buffer ctx) @ input) (low4 (state4 ctx)) = rfc_blocks (take left (buffer ctx1) @ input1) (low4 (state4 ctx1))"
    "tail64 (take l (buffer ctx) @ input) = tail64 (take left (buffer ctx1) @ input1)"
    by blast+
qed

lemma md5_update_rep:
  assumes rep: "md5_rep ctx m" and len: "length input < 2 ^ 31"
  shows "md5_rep (md5_update input ctx) (m @ input) \<and> ipad (md5_update input ctx) = ipad ctx
    \<and> opad (md5_update input ctx) = opad ctx"
proof (cases "input = []")
  case True
  then show ?thesis using rep by (simp add: md5_update_def)
next
  case False
  let ?l = "length m mod 64" and ?c = "md5_count (length input) ctx"
  have c: "buffer ?c = buffer ctx" "state4 ?c = state4 ctx" "ipad ?c = ipad ctx" "opad ?c = opad ctx"
    by (simp_all add: md5_count_def Let_def)
  have t: "total0 ?c = of_nat (length (m @ input) mod two32)" "total1 ?c = of_nat (length (m @ input) div two32)"
    using rep total_step [OF len, of "length m"] by (simp_all add: md5_count_def md5_rep_def Let_def)
  have l: "unat (total0 ctx AND 0x3F) = ?l" using rep by (simp add: md5_rep_def left_bytes)
  obtain left input1 ctx1 where f: "md5_fill ?l input ?c = (left, input1, ctx1)" by (metis surj_pair)
  obtain input' ctx' where loop: "md5_update_loop input1 ctx1 = (input', ctx')" by fastforce
  define ctx2 where "ctx2 = (if input' \<noteq> [] then ctx'\<lparr>buffer := memcpy_at left input' (buffer ctx')\<rparr> else ctx')"
  have buf: "length (buffer ?c) = 64" "take ?l (buffer ?c) = tail64 m" using rep c by (simp_all add: md5_rep_def)
  note fill = md5_fill_ok [OF buf(1) _ f] and fin = update_end [OF _ _ _ loop ctx2_def]
  have h: "low4 (state4 ctx2) = rfc_blocks (tail64 m @ input) (low4 (state4 ctx))"
    "tail64 (take left (buffer ctx1) @ input1) = tail64 (tail64 m @ input)"
    using fill fin buf c by simp_all
  have "md5_rep ctx2 (m @ input)"
    using rfc_blocks_append [of m input rfc_init] h rep t fill fin
    by (simp add: md5_rep_def) (metis length_append tail64_length)
  moreover have "md5_update input ctx = ctx2"
    using False l f loop by (simp add: md5_update_halves ctx2_def)
  ultimately show ?thesis using fill fin c by simp
qed

section \<open>Finishing\<close>

lemma length_bytes:
  "PUT_ULONG_LE (push_bit 3 (of_nat (n mod two32))) @
   PUT_ULONG_LE (drop_bit 29 (of_nat (n mod two32)) OR push_bit 3 (of_nat (n div two32))) =
   map (\<lambda>i. of_nat (8 * n div 256 ^ i)) [0..<8]"
proof -
  have e: "8 * n div 256 ^ i = drop_bit (8 * i) (push_bit 3 n)" for i
  proof -
    have "(256 :: nat) ^ i = 2 ^ (8 * i)" by (simp add: power_mult)
    then show ?thesis by (simp add: drop_bit_eq_div push_bit_eq_mult mult.commute [of 8 n])
  qed
  have t: "n mod two32 = take_bit 32 n" "n div two32 = drop_bit 32 n"
    by (simp_all add: two32_def take_bit_eq_mod drop_bit_eq_div)
  have bits: "bit (of_nat (drop_bit (8 * i) (push_bit 3 n)) :: u8) b \<longleftrightarrow> b < 8 \<and> 3 \<le> 8 * i + b \<and> bit n (8 * i + b - 3)" for i b
    by (auto simp: bit_simps)
  have lo: "(ucast (drop_bit (8 * i) (push_bit 3 (of_nat (take_bit 32 n) :: 64 word))) :: u8) = of_nat (drop_bit (8 * i) (push_bit 3 n))"
    if "i < 4" for i
    by (rule bit_word_eqI, unfold bits) (use that in \<open>auto simp: bit_simps\<close>)
  have hi: "(ucast (drop_bit (8 * i) (drop_bit 29 (of_nat (take_bit 32 n)) OR push_bit 3 (of_nat (drop_bit 32 n)) :: 64 word)) :: u8)
      = of_nat (drop_bit (8 * (i + 4)) (push_bit 3 n))" if "i < 4" for i
  proof (rule bit_word_eqI, unfold bits)
    fix b assume "b < LENGTH(8)"
    have e: "8 * (i + 4) + b - 3 = 8 * i + 29 + b" "29 + (8 * i + b) = 8 * i + 29 + b"
      "3 \<le> 8 * i + b \<Longrightarrow> 32 + (8 * i + b - 3) = 8 * i + 29 + b" by simp_all
    show "bit (ucast (drop_bit (8 * i) (drop_bit 29 (of_nat (take_bit 32 n)) OR push_bit 3 (of_nat (drop_bit 32 n)) :: 64 word)) :: u8) b
      \<longleftrightarrow> b < 8 \<and> 3 \<le> 8 * (i + 4) + b \<and> bit n (8 * (i + 4) + b - 3)"
      using that \<open>b < LENGTH(8)\<close> by (auto simp: bit_simps e)
  qed
  have u: "[0..<8] = [0, 1, 2, 3, 0 + 4, 1 + 4, 2 + 4, 3 + 4 :: nat]" by (simp add: upt_rec)
  show ?thesis unfolding e t u list.map hi [symmetric]
    using lo [of 0] lo [of 1] lo [of 2] lo [of 3] hi [of 0] hi [of 1] hi [of 2] hi [of 3] by (simp add: PUT_ULONG_LE_def)
qed

lemma PUT_low32: "PUT_ULONG_LE w = rfc_bytes (low32 w)"
proof -
  have "(ucast (drop_bit k w) :: u8) = ucast (drop_bit k (low32 w))" if "k \<le> 24" for k
    by (rule bit_word_eqI) (use that in \<open>auto simp: bit_simps\<close>)
  from this [of 0] this [of 8] this [of 16] this [of 24] show ?thesis
    by (simp add: PUT_ULONG_LE_def rfc_bytes_def upt_rec)
qed

lemma padding_bytes:
  assumes "l < 64"
  shows "take (if l < 56 then 56 - l else 120 - l) md5_padding = 0x80 # replicate ((119 - l) mod 64) 0"
proof -
  have "(if l < 56 then 56 - l else 120 - l) = Suc ((119 - l) mod 64)" "(119 - l) mod 64 \<le> 63"
    using assms by (auto simp: mod_if)
  then show ?thesis by (simp add: md5_padding_def)
qed

lemma md5_finish_rep:
  assumes rep: "md5_rep ctx m"
  shows "fst (md5_finish ctx) = rfc_md5 m \<and> length (buffer (snd (md5_finish ctx))) = 64
    \<and> ipad (snd (md5_finish ctx)) = ipad ctx \<and> opad (snd (md5_finish ctx)) = opad ctx"
proof -
  let ?n = "length m"
  have l: "unat (total0 ctx AND 0x3F) = ?n mod 64" using rep by (simp add: md5_rep_def left_bytes)
  let ?pad = "0x80 # replicate ((119 - ?n mod 64) mod 64) 0 :: u8 list" and ?len = "map (\<lambda>i. of_nat (8 * ?n div 256 ^ i)) [0..<8] :: u8 list"
  define ctx1 ctx2 where "ctx1 = md5_update ?pad ctx" and "ctx2 = md5_update ?len ctx1"
  obtain s0 s1 s2 s3 where s: "state4 ctx2 = (s0, s1, s2, s3)" by (metis surj_pair)
  have fin: "md5_finish ctx = (PUT_ULONG_LE s0 @ PUT_ULONG_LE s1 @ PUT_ULONG_LE s2 @ PUT_ULONG_LE s3, ctx2)"
    using length_bytes [of ?n] padding_bytes [of "?n mod 64"] l s rep
    by (simp add: md5_finish_def Let_def ctx1_def ctx2_def md5_rep_def)
  have "(119 - ?n mod 64) mod 64 < 64" by simp
  then have "length ?pad < 2 ^ 31" by simp
  then have r1: "md5_rep ctx1 (m @ ?pad)" "ipad ctx1 = ipad ctx" "opad ctx1 = opad ctx"
    using md5_update_rep [OF rep, of ?pad] by (simp_all add: ctx1_def)
  have r2: "md5_rep ctx2 ((m @ ?pad) @ ?len)" "ipad ctx2 = ipad ctx" "opad ctx2 = opad ctx"
    using md5_update_rep [OF r1(1), of ?len] r1 by (simp_all add: ctx2_def)
  moreover have "(m @ ?pad) @ ?len = rfc_pad m" by (simp add: rfc_pad_def)
  ultimately have "rfc_blocks (rfc_pad m) rfc_init = low4 (state4 ctx2)" by (simp add: md5_rep_def)
  then have "rfc_md5 m = rfc_bytes (low32 s0) @ rfc_bytes (low32 s1) @ rfc_bytes (low32 s2) @ rfc_bytes (low32 s3)"
    using s by (simp add: rfc_md5_def low4_def)
  then show ?thesis using fin r2 by (simp add: PUT_low32 md5_rep_def)
qed

lemma md5_pieces_rep:
  assumes "md5_rep ctx m" "\<forall>p \<in> set pieces. length p < 2 ^ 31"
  shows "md5_rep (fold md5_update pieces ctx) (m @ concat pieces)"
  using assms
proof (induction pieces arbitrary: ctx m)
  case (Cons p ps)
  then show ?case using md5_update_rep [of ctx m p] Cons.IH [of "md5_update p ctx" "m @ p"] by simp
qed simp


text \<open>The message \<open>abc\<close> in two pieces.\<close>

definition zero_context :: md5_context where
  "zero_context = \<lparr>total0 = 0, total1 = 0, state4 = (0, 0, 0, 0), buffer = replicate 64 0,
     ipad = replicate 64 0, opad = replicate 64 0\<rparr>"


text \<open>One of the test vectors of the source, evaluated.\<close>

lemma md5_test_vector: "mymd5 zero_context ''abc'' = ''900150983cd24fb0d6963f7d28e17f72''"
  by code_simp

section \<open>HMAC\<close>

text \<open>RFC 2104, for MD5 with its blocks of 64 bytes.\<close>

definition rfc_hmac :: "u8 list \<Rightarrow> u8 list \<Rightarrow> u8 list" where
  "rfc_hmac key m = (
     let k = (if length key > 64 then rfc_md5 key else key);
         k0 = k @ replicate (64 - length k) 0
     in rfc_md5 (map (\<lambda>b. b XOR 0x5C) k0 @ rfc_md5 (map (\<lambda>b. b XOR 0x36) k0 @ m)))"

lemma xor_key_pad:
  assumes "length key \<le> 64"
  shows "xor_key key (replicate 64 c) = map (\<lambda>b. b XOR c) (key @ replicate (64 - length key) 0)"
proof -
  have "foldl (\<lambda>pad i. pad[i := pad ! i XOR key ! i]) (replicate 64 c) [0..<n] =
      map (\<lambda>i. if i < n then c XOR key ! i else c) [0..<64]" if "n \<le> length key" for n
    using that
  proof (induction n)
    case 0
    then show ?case by (simp add: map_replicate_const)
  next
    case (Suc n)
    then show ?case using assms by (auto intro!: nth_equalityI simp: nth_list_update)
  qed
  then have "xor_key key (replicate 64 c) = map (\<lambda>i. if i < length key then c XOR key ! i else c) [0..<64]"
    by (simp add: xor_key_def)
  also have "\<dots> = map (\<lambda>b. b XOR c) (key @ replicate (64 - length key) 0)"
    using assms by (auto intro!: nth_equalityI simp: nth_append xor.commute)
  finally show ?thesis .
qed

lemma rfc_md5_length: "length (rfc_md5 m) = 16"
  by (simp add: rfc_md5_def rfc_bytes_def split: prod.split)



end
