(* ===== verification/Adlist.thy ===== *)
theory Adlist
  imports Prelude "HOL-Library.Monad_Syntax"
begin

text \<open>
  The doubly linked lists of the server (\<^verbatim>\<open>server/src/adlist.c\<close>): the list of clients, the lists
  of replies and of clients to close are such lists.  Nodes live in a store, from addresses to
  nodes; the address of a new node, which \<^verbatim>\<open>zmalloc\<close> chooses, is an argument of the operation.
  (\<^verbatim>\<open>zmalloc\<close> never returns: it ends the program when there is no memory.)  \<open>None\<close> is a dereference
  of a null pointer or of freed memory.  Values given to the \<^verbatim>\<open>free\<close> method are returned.
\<close>

section \<open>Nodes, lists and iterators\<close>

record 'v listNode =
  n_prev :: "nat option"
  n_next :: "nat option"
  n_value :: 'v

type_synonym 'v nodes = "nat \<rightharpoonup> 'v listNode"

record 'v adlist =
  l_head :: "nat option"
  l_tail :: "nat option"
  l_dup :: "('v \<Rightarrow> 'v option) option"
  l_free :: bool
  l_match :: "('v \<Rightarrow> 'v \<Rightarrow> bool) option"
  l_len :: nat

datatype direction = AL_START_HEAD | AL_START_TAIL

record listIter =
  i_next :: "nat option"
  i_direction :: direction

section \<open>Operations\<close>

text \<open>An assignment to a field of the node behind a pointer.\<close>

definition assign_node :: "('v listNode \<Rightarrow> 'v listNode) \<Rightarrow> nat option \<Rightarrow> 'v nodes \<Rightarrow> 'v nodes option" where
  "assign_node f p h = do { a \<leftarrow> p; n \<leftarrow> h a; Some (h(a \<mapsto> f n)) }"

abbreviation set_prev :: "nat option \<Rightarrow> 'v listNode \<Rightarrow> 'v listNode" where "set_prev p \<equiv> n_prev_update (\<lambda>_. p)"
abbreviation set_next :: "nat option \<Rightarrow> 'v listNode \<Rightarrow> 'v listNode" where "set_next p \<equiv> n_next_update (\<lambda>_. p)"

definition listCreate :: "'v adlist" where
  "listCreate = \<lparr>l_head = None, l_tail = None, l_dup = None, l_free = False, l_match = None, l_len = 0\<rparr>"

fun release_loop :: "bool \<Rightarrow> nat \<Rightarrow> nat option \<Rightarrow> 'v nodes \<Rightarrow> ('v nodes \<times> 'v list) option" where
  "release_loop fr 0 current h = Some (h, [])"
| "release_loop fr (Suc len) current h = do {
    a \<leftarrow> current;
    n \<leftarrow> h a;
    (h, freed) \<leftarrow> release_loop fr len (n_next n) (h(a := None));
    Some (h, (if fr then [n_value n] else []) @ freed)
  }"

definition listRelease :: "'v adlist \<Rightarrow> 'v nodes \<Rightarrow> ('v nodes \<times> 'v list) option" where
  "listRelease l h = release_loop (l_free l) (l_len l) (l_head l) h"

definition listAddNodeHead :: "nat \<Rightarrow> 'v \<Rightarrow> 'v nodes \<times> 'v adlist \<Rightarrow> ('v nodes \<times> 'v adlist) option" where
  "listAddNodeHead p v = (\<lambda>(h, l).
    if l_len l = 0
    then Some (h(p \<mapsto> \<lparr>n_prev = None, n_next = None, n_value = v\<rparr>), l\<lparr>l_head := Some p, l_tail := Some p, l_len := l_len l + 1\<rparr>)
    else do {
      let h = h(p \<mapsto> \<lparr>n_prev = None, n_next = l_head l, n_value = v\<rparr>);
      h \<leftarrow> assign_node (set_prev (Some p)) (l_head l) h;
      Some (h, l\<lparr>l_head := Some p, l_len := l_len l + 1\<rparr>)
    })"

definition listAddNodeTail :: "nat \<Rightarrow> 'v \<Rightarrow> 'v nodes \<times> 'v adlist \<Rightarrow> ('v nodes \<times> 'v adlist) option" where
  "listAddNodeTail p v = (\<lambda>(h, l).
    if l_len l = 0
    then Some (h(p \<mapsto> \<lparr>n_prev = None, n_next = None, n_value = v\<rparr>), l\<lparr>l_head := Some p, l_tail := Some p, l_len := l_len l + 1\<rparr>)
    else do {
      let h = h(p \<mapsto> \<lparr>n_prev = l_tail l, n_next = None, n_value = v\<rparr>);
      h \<leftarrow> assign_node (set_next (Some p)) (l_tail l) h;
      Some (h, l\<lparr>l_tail := Some p, l_len := l_len l + 1\<rparr>)
    })"

definition listInsertNode :: "nat \<Rightarrow> nat \<Rightarrow> 'v \<Rightarrow> bool \<Rightarrow> 'v nodes \<times> 'v adlist \<Rightarrow> ('v nodes \<times> 'v adlist) option" where
  "listInsertNode p old_node v after = (\<lambda>(h, l). do {
    old \<leftarrow> h old_node;
    let (node, l) = (
      if after
      then (\<lparr>n_prev = Some old_node, n_next = n_next old, n_value = v\<rparr>, if l_tail l = Some old_node then l\<lparr>l_tail := Some p\<rparr> else l)
      else (\<lparr>n_prev = n_prev old, n_next = Some old_node, n_value = v\<rparr>, if l_head l = Some old_node then l\<lparr>l_head := Some p\<rparr> else l));
    let h = h(p \<mapsto> node);
    h \<leftarrow> (if n_prev node \<noteq> None then assign_node (set_next (Some p)) (n_prev node) h else Some h);
    h \<leftarrow> (if n_next node \<noteq> None then assign_node (set_prev (Some p)) (n_next node) h else Some h);
    Some (h, l\<lparr>l_len := l_len l + 1\<rparr>)
  })"

definition listDelNode :: "nat \<Rightarrow> 'v nodes \<times> 'v adlist \<Rightarrow> (('v nodes \<times> 'v adlist) \<times> 'v list) option" where
  "listDelNode a = (\<lambda>(h, l). do {
    n \<leftarrow> h a;
    (h, l) \<leftarrow> (if n_prev n \<noteq> None then do { h \<leftarrow> assign_node (set_next (n_next n)) (n_prev n) h; Some (h, l) }
      else Some (h, l\<lparr>l_head := n_next n\<rparr>));
    n \<leftarrow> h a;
    (h, l) \<leftarrow> (if n_next n \<noteq> None then do { h \<leftarrow> assign_node (set_prev (n_prev n)) (n_next n) h; Some (h, l) }
      else Some (h, l\<lparr>l_tail := n_prev n\<rparr>));
    n \<leftarrow> h a;
    Some ((h(a := None), l\<lparr>l_len := l_len l - 1\<rparr>), if l_free l then [n_value n] else [])
  })"

definition listGetIterator :: "'v adlist \<Rightarrow> direction \<Rightarrow> listIter" where
  "listGetIterator l d = \<lparr>i_next = (if d = AL_START_HEAD then l_head l else l_tail l), i_direction = d\<rparr>"

definition listRewind :: "'v adlist \<Rightarrow> listIter" where
  "listRewind l = \<lparr>i_next = l_head l, i_direction = AL_START_HEAD\<rparr>"

definition listRewindTail :: "'v adlist \<Rightarrow> listIter" where
  "listRewindTail l = \<lparr>i_next = l_tail l, i_direction = AL_START_TAIL\<rparr>"

definition listNext :: "'v nodes \<Rightarrow> listIter \<Rightarrow> (nat option \<times> listIter) option" where
  "listNext h it = (case i_next it of
     None \<Rightarrow> Some (None, it)
   | Some a \<Rightarrow> do {
       n \<leftarrow> h a;
       Some (Some a, it\<lparr>i_next := if i_direction it = AL_START_HEAD then n_next n else n_prev n\<rparr>)
     })"

partial_function (option) dup_loop ::
    "(nat \<Rightarrow> nat) \<Rightarrow> listIter \<Rightarrow> 'v nodes \<times> 'v adlist \<Rightarrow> ('v nodes \<times> 'v adlist option) option" where
  "dup_loop alloc it s = do {
    (node, it) \<leftarrow> listNext (fst s) it;
    case node of None \<Rightarrow> Some (fst s, Some (snd s))
    | Some a \<Rightarrow> do {
        n \<leftarrow> fst s a;
        case (case l_dup (snd s) of Some dup \<Rightarrow> dup (n_value n) | None \<Rightarrow> Some (n_value n)) of
          None \<Rightarrow> do { (h, freed) \<leftarrow> listRelease (snd s) (fst s); Some (h, None) }
        | Some v \<Rightarrow> do { s \<leftarrow> listAddNodeTail (alloc (l_len (snd s))) v s; dup_loop alloc it s }
      }
  }"

definition listDup :: "(nat \<Rightarrow> nat) \<Rightarrow> 'v adlist \<Rightarrow> 'v nodes \<Rightarrow> ('v nodes \<times> 'v adlist option) option" where
  "listDup alloc orig h = dup_loop alloc (listGetIterator orig AL_START_HEAD)
    (h, listCreate\<lparr>l_dup := l_dup orig, l_free := l_free orig, l_match := l_match orig\<rparr>)"

definition key_matches :: "'v adlist \<Rightarrow> 'v \<Rightarrow> 'v \<Rightarrow> bool" where
  "key_matches l key v = (case l_match l of Some m \<Rightarrow> m v key | None \<Rightarrow> key = v)"

partial_function (option) search_loop :: "'v adlist \<Rightarrow> 'v \<Rightarrow> 'v nodes \<Rightarrow> listIter \<Rightarrow> nat option option" where
  "search_loop l key h it = do {
    (node, it) \<leftarrow> listNext h it;
    case node of None \<Rightarrow> Some None
    | Some a \<Rightarrow> do { n \<leftarrow> h a; if key_matches l key (n_value n) then Some (Some a) else search_loop l key h it }
  }"

definition listSearchKey :: "'v adlist \<Rightarrow> 'v \<Rightarrow> 'v nodes \<Rightarrow> nat option option" where
  "listSearchKey l key h = search_loop l key h (listGetIterator l AL_START_HEAD)"

fun index_loop :: "('v listNode \<Rightarrow> nat option) \<Rightarrow> 'v nodes \<Rightarrow> nat \<Rightarrow> nat option \<Rightarrow> nat option option" where
  "index_loop f h 0 n = Some n"
| "index_loop f h (Suc k) None = Some None"
| "index_loop f h (Suc k) (Some a) = do { n \<leftarrow> h a; index_loop f h k (f n) }"

definition listIndex :: "'v adlist \<Rightarrow> int \<Rightarrow> 'v nodes \<Rightarrow> nat option option" where
  "listIndex l index h = (
    if index < 0 then index_loop n_prev h (nat (- index - 1)) (l_tail l)
    else index_loop n_next h (nat index) (l_head l))"

definition listRotate :: "'v nodes \<times> 'v adlist \<Rightarrow> ('v nodes \<times> 'v adlist) option" where
  "listRotate = (\<lambda>(h, l).
    if l_len l \<le> 1 then Some (h, l)
    else do {
      t \<leftarrow> l_tail l;
      n \<leftarrow> h t;
      let l = l\<lparr>l_tail := n_prev n\<rparr>;
      h \<leftarrow> assign_node (set_next None) (l_tail l) h;
      h \<leftarrow> assign_node (set_prev (Some t)) (l_head l) h;
      h \<leftarrow> assign_node (set_prev None) (Some t) h;
      h \<leftarrow> assign_node (set_next (l_head l)) (Some t) h;
      Some (h, l\<lparr>l_head := Some t\<rparr>)
    })"

end
