(* ===== verification/Adlist_Ref.thy ===== *)
theory Adlist_Ref
  imports Adlist
begin

text \<open>
  The linked lists represent sequences: which store and header represent a sequence of nodes, and
  that every operation of \<^verbatim>\<open>adlist.c\<close> acts on the sequence as its comment says.
\<close>

section \<open>Chains of nodes\<close>

definition first_of :: "(nat \<times> 'v) list \<Rightarrow> nat option \<Rightarrow> nat option" where
  "first_of xs n = (case xs of [] \<Rightarrow> n | x # _ \<Rightarrow> Some (fst x))"

definition last_of :: "nat option \<Rightarrow> (nat \<times> 'v) list \<Rightarrow> nat option" where
  "last_of p xs = (if xs = [] then p else Some (fst (last xs)))"

lemma first_of_simps [simp]: "first_of [] n = n" "first_of (x # xs) n = Some (fst x)"
  "first_of (xs @ ys) n = first_of xs (first_of ys n)"
  by (simp_all add: first_of_def split: list.split)

lemma last_of_simps [simp]: "last_of p [] = p" "last_of p (x # xs) = last_of (Some (fst x)) xs"
  "last_of p (xs @ ys) = last_of (last_of p xs) ys"
  by (simp_all add: last_of_def)

text \<open>The nodes of \<open>xs\<close> are linked in this order, between the neighbours \<open>p\<close> and \<open>n\<close>.\<close>

fun chain :: "'v nodes \<Rightarrow> nat option \<Rightarrow> (nat \<times> 'v) list \<Rightarrow> nat option \<Rightarrow> bool" where
  "chain h p [] n = True"
| "chain h p (x # xs) n \<longleftrightarrow> h (fst x) = Some \<lparr>n_prev = p, n_next = first_of xs n, n_value = snd x\<rparr> \<and> chain h (Some (fst x)) xs n"

lemma chain_append: "chain h p (xs @ ys) n \<longleftrightarrow> chain h p xs (first_of ys n) \<and> chain h (last_of p xs) ys n"
  by (induction xs arbitrary: p) auto

lemma chain_cong: "(\<And>a. a \<in> fst ` set xs \<Longrightarrow> h' a = h a) \<Longrightarrow> chain h' p xs n = chain h p xs n"
  by (induction xs arbitrary: p) auto

lemma chain_frame [simp]: "a \<notin> fst ` set xs \<Longrightarrow> chain (h(a := c)) p xs n = chain h p xs n"
  by (rule chain_cong) auto

lemma chain_live: "chain h p xs n \<Longrightarrow> x \<in> set xs \<Longrightarrow> \<exists>m. h (fst x) = Some m \<and> n_value m = snd x"
  by (induction xs arbitrary: p) auto

definition is_list :: "'v nodes \<Rightarrow> 'v adlist \<Rightarrow> (nat \<times> 'v) list \<Rightarrow> bool" where
  "is_list h l xs \<longleftrightarrow> distinct (map fst xs) \<and> chain h None xs None
    \<and> l_head l = first_of xs None \<and> l_tail l = last_of None xs \<and> l_len l = length xs"

lemma is_listD:
  assumes "is_list h l xs"
  shows "distinct (map fst xs)" "chain h None xs None" "l_head l = first_of xs None" "l_tail l = last_of None xs" "l_len l = length xs"
  using assms by (simp_all add: is_list_def)

lemma list_fresh: "is_list h l xs \<Longrightarrow> h p = None \<Longrightarrow> p \<notin> fst ` set xs"
  using chain_live [of h None xs None] by (fastforce simp: is_list_def)

text \<open>Relinking the first or the last node of a chain.\<close>

lemma relink_first:
  assumes "chain h p (x # xs) n" "fst x \<notin> fst ` set xs"
  shows "\<exists>h'. assign_node (set_prev p') (Some (fst x)) h = Some h' \<and> chain h' p' (x # xs) n \<and> (\<forall>a. a \<noteq> fst x \<longrightarrow> h' a = h a)"
  using assms by (auto simp: assign_node_def)

lemma relink_last:
  assumes "chain h p (xs @ [x]) n" "fst x \<notin> fst ` set xs"
  shows "\<exists>h'. assign_node (set_next n') (Some (fst x)) h = Some h' \<and> chain h' p (xs @ [x]) n' \<and> (\<forall>a. a \<noteq> fst x \<longrightarrow> h' a = h a)"
  using assms by (auto simp: assign_node_def chain_append)

section \<open>Operations that change the list\<close>

lemma add_head_list:
  assumes "is_list h l xs" "h p = None"
  shows "\<exists>h' l'. listAddNodeHead p v (h, l) = Some (h', l') \<and> is_list h' l' ((p, v) # xs) \<and> (\<forall>a. a \<notin> insert p (fst ` set xs) \<longrightarrow> h' a = h a)"
proof (cases xs)
  case Nil
  then show ?thesis using assms by (auto simp: listAddNodeHead_def is_list_def)
next
  case (Cons y ys)
  note l = is_listD [OF assms(1)] list_fresh [OF assms]
  let ?h = "h(p \<mapsto> \<lparr>n_prev = None, n_next = l_head l, n_value = v\<rparr>)"
  have "chain ?h None (y # ys) None" using l Cons by simp
  then obtain h' where h': "assign_node (set_prev (Some p)) (Some (fst y)) ?h = Some h'" "chain h' (Some p) (y # ys) None" "\<forall>a. a \<noteq> fst y \<longrightarrow> h' a = ?h a"
    using relink_first [of ?h None y ys None "Some p"] l(1) Cons by auto
  then show ?thesis using l Cons by (auto simp: listAddNodeHead_def is_list_def)
qed

lemma add_tail_list:
  assumes "is_list h l xs" "h p = None"
  shows "\<exists>h' l'. listAddNodeTail p v (h, l) = Some (h', l') \<and> is_list h' l' (xs @ [(p, v)])
    \<and> (\<forall>a. a \<notin> insert p (fst ` set xs) \<longrightarrow> h' a = h a) \<and> l_dup l' = l_dup l \<and> l_free l' = l_free l \<and> l_match l' = l_match l"
proof (cases xs rule: rev_cases)
  case Nil
  then show ?thesis using assms by (auto simp: listAddNodeTail_def is_list_def)
next
  case (snoc ys y)
  note l = is_listD [OF assms(1)] list_fresh [OF assms]
  let ?h = "h(p \<mapsto> \<lparr>n_prev = l_tail l, n_next = None, n_value = v\<rparr>)"
  have "chain ?h None (ys @ [y]) None" using l snoc by simp
  then obtain h' where h': "assign_node (set_next (Some p)) (Some (fst y)) ?h = Some h'" "chain h' None (ys @ [y]) (Some p)" "\<forall>a. a \<noteq> fst y \<longrightarrow> h' a = ?h a"
    using relink_last [of ?h None ys y None "Some p"] l(1) snoc by auto
  then have "chain h' None (ys @ [y, (p, v)]) None" using l snoc by (auto simp: chain_append)
  then show ?thesis using l snoc h' by (auto simp: listAddNodeTail_def is_list_def)
qed

text \<open>
  The general form of linking and unlinking: the neighbours of a gap between \<open>us\<close> and \<open>vs\<close> get new links.
\<close>

definition relink_prev :: "nat option \<Rightarrow> nat option \<Rightarrow> 'v nodes \<Rightarrow> 'v nodes option" where
  "relink_prev p q h = (if p \<noteq> None then assign_node (set_next q) p h else Some h)"

definition relink_next :: "nat option \<Rightarrow> nat option \<Rightarrow> 'v nodes \<Rightarrow> 'v nodes option" where
  "relink_next n q h = (if n \<noteq> None then assign_node (set_prev q) n h else Some h)"

lemma relink_prev_chain:
  assumes "chain h None us n" "distinct (map fst us)"
  shows "\<exists>h'. relink_prev (last_of None us) q h = Some h' \<and> chain h' None us q \<and> (\<forall>a. a \<notin> fst ` set us \<longrightarrow> h' a = h a)"
proof (cases us rule: rev_cases)
  case (snoc ys y)
  then obtain h' where "assign_node (set_next q) (Some (fst y)) h = Some h'" "chain h' None (ys @ [y]) q" "\<forall>a. a \<noteq> fst y \<longrightarrow> h' a = h a"
    using relink_last [of h None ys y n q] assms by auto
  then show ?thesis using snoc by (simp add: relink_prev_def)
qed (simp add: relink_prev_def)

lemma relink_next_chain:
  assumes "chain h p vs None" "distinct (map fst vs)"
  shows "\<exists>h'. relink_next (first_of vs None) q h = Some h' \<and> chain h' q vs None \<and> (\<forall>a. a \<notin> fst ` set vs \<longrightarrow> h' a = h a)"
proof (cases vs)
  case (Cons y ys)
  then obtain h' where "assign_node (set_prev q) (Some (fst y)) h = Some h'" "chain h' q (y # ys) None" "\<forall>a. a \<noteq> fst y \<longrightarrow> h' a = h a"
    using relink_first [of h p y ys None q] assms by auto
  then show ?thesis using Cons by (simp add: relink_next_def)
qed (simp add: relink_next_def)

lemma relink_gap:
  assumes "chain h None us n" "chain h p vs None" "distinct (map fst us)" "distinct (map fst vs)" "fst ` set us \<inter> fst ` set vs = {}"
  shows "\<exists>h1 h2. relink_prev (last_of None us) q h = Some h1 \<and> relink_next (first_of vs None) q' h1 = Some h2
    \<and> chain h2 None us q \<and> chain h2 q' vs None \<and> (\<forall>a. a \<notin> fst ` set (us @ vs) \<longrightarrow> h1 a = h a \<and> h2 a = h a)"
proof -
  obtain h1 where h1: "relink_prev (last_of None us) q h = Some h1" "chain h1 None us q" "\<forall>a. a \<notin> fst ` set us \<longrightarrow> h1 a = h a"
    using relink_prev_chain [OF assms(1,3)] by metis
  have "chain h1 p vs None" using chain_cong [of vs h1 h] h1(3) assms(2,5) by blast
  then obtain h2 where h2: "relink_next (first_of vs None) q' h1 = Some h2" "chain h2 q' vs None" "\<forall>a. a \<notin> fst ` set vs \<longrightarrow> h2 a = h1 a"
    using relink_next_chain [OF _ assms(4)] by metis
  have "chain h2 None us q" using chain_cong [of us h2 h1] h1(2) h2(3) assms(5) by blast
  moreover have "h1 a = h a \<and> h2 a = h a" if "a \<notin> fst ` set (us @ vs)" for a
    using that h1(3) h2(3) by (simp add: image_Un)
  ultimately show ?thesis using h1(1) h2(1,2) by blast
qed

lemma listDelNode_relink:
  "listDelNode a (h, l) = do {
    n \<leftarrow> h a;
    h1 \<leftarrow> relink_prev (n_prev n) (n_next n) h;
    n1 \<leftarrow> h1 a;
    h2 \<leftarrow> relink_next (n_next n1) (n_prev n1) h1;
    n2 \<leftarrow> h2 a;
    Some ((h2(a := None), l\<lparr>l_head := if n_prev n = None then n_next n else l_head l,
      l_tail := if n_next n1 = None then n_prev n1 else l_tail l, l_len := l_len l - 1\<rparr>), if l_free l then [n_value n2] else [])
  }"
  by (auto simp: listDelNode_def relink_prev_def relink_next_def split: Option.bind_split)

lemma del_list:
  assumes "is_list h l (us @ (a, v) # vs)"
  shows "\<exists>h' l'. listDelNode a (h, l) = Some ((h', l'), if l_free l then [v] else []) \<and> is_list h' l' (us @ vs)
    \<and> h' a = None \<and> (\<forall>b. b \<notin> fst ` set (us @ (a, v) # vs) \<longrightarrow> h' b = h b)"
proof -
  note l = is_listD [OF assms]
  have ha: "h a = Some \<lparr>n_prev = last_of None us, n_next = first_of vs None, n_value = v\<rparr>"
    using l(2) by (simp add: chain_append)
  have dj: "fst ` set us \<inter> fst ` set vs = {}" "a \<notin> fst ` set (us @ vs)" "distinct (map fst us)" "distinct (map fst vs)"
    using l(1) by auto
  obtain h1 h2 where r: "relink_prev (last_of None us) (first_of vs None) h = Some h1"
      "relink_next (first_of vs None) (last_of None us) h1 = Some h2"
      "chain h2 None us (first_of vs None)" "chain h2 (last_of None us) vs None"
      "\<forall>b. b \<notin> fst ` set (us @ vs) \<longrightarrow> h1 b = h b \<and> h2 b = h b"
    using relink_gap [of h us "Some a" "Some a" vs "first_of vs None" "last_of None us"] l(2) dj by (auto simp: chain_append)
  then have a12: "h1 a = h a" "h2 a = h a" using dj(2) by blast+
  have "is_list (h2(a := None)) (l\<lparr>l_head := if last_of None us = None then first_of vs None else l_head l,
      l_tail := if first_of vs None = None then last_of None us else l_tail l, l_len := l_len l - 1\<rparr>) (us @ vs)"
    using l dj r(3,4) by (cases us rule: rev_cases; cases vs) (auto simp: is_list_def chain_append)
  then show ?thesis using ha a12 r(1,2,5) by (auto simp: listDelNode_relink)
qed

lemma insert_list_after:
  assumes "is_list h l (us @ (a, w) # vs)" "h p = None"
  shows "\<exists>h' l'. listInsertNode p a v True (h, l) = Some (h', l') \<and> is_list h' l' (us @ (a, w) # (p, v) # vs)
    \<and> (\<forall>b. b \<notin> insert p (fst ` set (us @ (a, w) # vs)) \<longrightarrow> h' b = h b)"
proof -
  note l = is_listD [OF assms(1)] list_fresh [OF assms]
  let ?us = "us @ [(a, w)]" and ?h = "h(p \<mapsto> \<lparr>n_prev = Some a, n_next = first_of vs None, n_value = v\<rparr>)"
  have ha: "h a = Some \<lparr>n_prev = last_of None us, n_next = first_of vs None, n_value = w\<rparr>"
    using l(2) by (simp add: chain_append)
  have dj: "fst ` set ?us \<inter> fst ` set vs = {}" "distinct (map fst ?us)" "distinct (map fst vs)" "p \<notin> fst ` set ?us" "p \<notin> fst ` set vs"
    using l(1,6) by auto
  have "chain ?h None ?us (first_of vs None)" "chain ?h (Some a) vs None" using l(2) dj(4,5) by (auto simp: chain_append)
  then obtain h1 h2 where r: "relink_prev (Some a) (Some p) ?h = Some h1" "relink_next (first_of vs None) (Some p) h1 = Some h2"
      "chain h2 None ?us (Some p)" "chain h2 (Some p) vs None" "\<forall>b. b \<notin> fst ` set (?us @ vs) \<longrightarrow> h1 b = ?h b \<and> h2 b = ?h b"
    using relink_gap [of ?h ?us "first_of vs None" "Some a" vs "Some p" "Some p"] dj by auto
  have "h2 p = ?h p" using r(5) dj(4,5) by auto
  moreover have "l_tail l = Some a \<longleftrightarrow> vs = []" using l(1,4) by (cases vs rule: rev_cases) auto
  ultimately have "is_list h2 ((if l_tail l = Some a then l\<lparr>l_tail := Some p\<rparr> else l)\<lparr>l_len := l_len l + 1\<rparr>) (?us @ (p, v) # vs)"
    using l dj r(3,4) by (cases vs rule: rev_cases) (auto simp: is_list_def chain_append)
  moreover have "listInsertNode p a v True (h, l)
      = Some (h2, (if l_tail l = Some a then l\<lparr>l_tail := Some p\<rparr> else l)\<lparr>l_len := l_len l + 1\<rparr>)"
    using ha r(1,2) by (cases "first_of vs None") (simp_all add: listInsertNode_def Let_def relink_prev_def relink_next_def)
  moreover have "\<forall>b. b \<notin> insert p (fst ` set (us @ (a, w) # vs)) \<longrightarrow> h2 b = h b" using r(5) by simp
  ultimately show ?thesis by simp
qed

lemma insert_list_before:
  assumes "is_list h l (us @ (a, w) # vs)" "h p = None"
  shows "\<exists>h' l'. listInsertNode p a v False (h, l) = Some (h', l') \<and> is_list h' l' (us @ (p, v) # (a, w) # vs)
    \<and> (\<forall>b. b \<notin> insert p (fst ` set (us @ (a, w) # vs)) \<longrightarrow> h' b = h b)"
proof -
  note l = is_listD [OF assms(1)] list_fresh [OF assms]
  let ?vs = "(a, w) # vs" and ?h = "h(p \<mapsto> \<lparr>n_prev = last_of None us, n_next = Some a, n_value = v\<rparr>)"
  have ha: "h a = Some \<lparr>n_prev = last_of None us, n_next = first_of vs None, n_value = w\<rparr>"
    using l(2) by (simp add: chain_append)
  have dj: "fst ` set us \<inter> fst ` set ?vs = {}" "distinct (map fst us)" "distinct (map fst ?vs)" "p \<notin> fst ` set us" "p \<notin> fst ` set ?vs"
    using l(1,6) by auto
  have "chain ?h None us (Some a)" "chain ?h (last_of None us) ?vs None" using l(2) dj(4,5) by (auto simp: chain_append)
  then obtain h1 h2 where r: "relink_prev (last_of None us) (Some p) ?h = Some h1" "relink_next (Some a) (Some p) h1 = Some h2"
      "chain h2 None us (Some p)" "chain h2 (Some p) ?vs None" "\<forall>b. b \<notin> fst ` set (us @ ?vs) \<longrightarrow> h1 b = ?h b \<and> h2 b = ?h b"
    using relink_gap [of ?h us "Some a" "last_of None us" ?vs "Some p" "Some p"] dj by auto
  have "h2 p = ?h p" using r(5) dj(4,5) by auto
  moreover have "l_head l = Some a \<longleftrightarrow> us = []" using l(1,3) by (cases us) auto
  ultimately have "is_list h2 ((if l_head l = Some a then l\<lparr>l_head := Some p\<rparr> else l)\<lparr>l_len := l_len l + 1\<rparr>) (us @ (p, v) # ?vs)"
    using l dj r(3,4) by (cases us) (auto simp: is_list_def chain_append)
  moreover have "listInsertNode p a v False (h, l)
      = Some (h2, (if l_head l = Some a then l\<lparr>l_head := Some p\<rparr> else l)\<lparr>l_len := l_len l + 1\<rparr>)"
    using ha r(1,2) by (cases "last_of None us") (simp_all add: listInsertNode_def Let_def relink_prev_def relink_next_def)
  moreover have "\<forall>b. b \<notin> insert p (fst ` set (us @ (a, w) # vs)) \<longrightarrow> h2 b = h b" using r(5) by simp
  ultimately show ?thesis by simp
qed

lemma rotate_list:
  assumes "is_list h l xs"
  shows "\<exists>h' l'. listRotate (h, l) = Some (h', l') \<and> is_list h' l' (if length xs \<le> 1 then xs else last xs # butlast xs)
    \<and> (\<forall>b. b \<notin> fst ` set xs \<longrightarrow> h' b = h b)"
proof (cases "length xs \<le> 1")
  case True
  then show ?thesis using assms by (simp add: listRotate_def is_list_def)
next
  case False
  then obtain us y where xs: "xs = us @ [y]" "us \<noteq> []" by (cases xs rule: rev_cases) auto
  note l = is_listD [OF assms]
  obtain t v where y: "y = (t, v)" by fastforce
  have ht: "h t = Some \<lparr>n_prev = last_of None us, n_next = None, n_value = v\<rparr>" "chain h None us (Some t)"
    using l(2) xs y by (auto simp: chain_append)
  have d: "distinct (map fst us)" "t \<notin> fst ` set us" using l(1) xs y by auto
  obtain h1 where h1: "relink_prev (last_of None us) None h = Some h1" "chain h1 None us None" "\<forall>a. a \<notin> fst ` set us \<longrightarrow> h1 a = h a"
    using relink_prev_chain [OF ht(2) d(1)] by metis
  obtain h2 where h2: "relink_next (first_of us None) (Some t) h1 = Some h2" "chain h2 (Some t) us None" "\<forall>a. a \<notin> fst ` set us \<longrightarrow> h2 a = h1 a"
    using relink_next_chain [OF h1(2) d(1)] by metis
  have t2: "h2 t = h t" using h1(3) h2(3) d(2) by simp
  have ne: "last_of None us \<noteq> None" "first_of us None \<noteq> None" using xs(2) by (auto simp: last_of_def first_of_def split: list.split)
  let ?h = "h2(t \<mapsto> \<lparr>n_prev = None, n_next = first_of us None, n_value = v\<rparr>)"
  have hd: "l_head l = first_of us None" using l(3) xs by (cases us) auto
  have "listRotate (h, l) = Some (?h, l\<lparr>l_tail := last_of None us, l_head := Some t\<rparr>)"
    using False l(4,5) xs y ht(1) h1(1) h2(1) t2 ne hd
    by (simp add: listRotate_def relink_prev_def relink_next_def assign_node_def [of _ "Some t"])
  moreover have "is_list ?h (l\<lparr>l_tail := last_of None us, l_head := Some t\<rparr>) (y # us)"
    using l(5) d h2(2) xs y by (auto simp: is_list_def last_of_def)
  moreover have "\<forall>b. b \<notin> fst ` set xs \<longrightarrow> ?h b = h b" using h1(3) h2(3) xs y by auto
  ultimately show ?thesis using False xs by auto
qed

section \<open>Walking over the list\<close>

lemma index_forward:
  "chain h p xs None \<Longrightarrow> index_loop n_next h k (first_of xs None) = Some (if k < length xs then Some (fst (xs ! k)) else None)"
proof (induction k arbitrary: p xs)
  case 0
  then show ?case by (cases xs) auto
next
  case (Suc k)
  then show ?case by (cases xs) auto
qed

lemma index_backward:
  "chain h None xs n \<Longrightarrow>
    index_loop n_prev h k (last_of None xs) = Some (if k < length xs then Some (fst (xs ! (length xs - 1 - k))) else None)"
proof (induction k arbitrary: n xs)
  case 0
  then show ?case by (cases xs rule: rev_cases) auto
next
  case (Suc k)
  show ?case
  proof (cases xs rule: rev_cases)
    case (snoc ys y)
    then show ?thesis using Suc.IH [of ys "Some (fst y)"] Suc.prems by (auto simp: chain_append nth_append)
  qed simp
qed

lemma index_list:
  assumes "is_list h l xs"
  shows "listIndex l i h = Some (
    if 0 \<le> i \<and> i < int (length xs) then Some (fst (xs ! nat i))
    else if i < 0 \<and> - i \<le> int (length xs) then Some (fst (xs ! nat (int (length xs) + i))) else None)"
proof -
  have "length xs - 1 - nat (- i - 1) = nat (int (length xs) + i)" if "i < 0" "- i \<le> int (length xs)" using that by linarith
  then show ?thesis
    using index_forward [of h None xs "nat i"] index_backward [of h xs None "nat (- i - 1)"] is_listD(2-4) [OF assms]
    by (auto simp: listIndex_def)
qed

lemma search_chain:
  "chain h p xs None \<Longrightarrow> search_loop l key h \<lparr>i_next = first_of xs None, i_direction = AL_START_HEAD\<rparr>
    = Some (map_option fst (find (\<lambda>x. key_matches l key (snd x)) xs))"
proof (induction xs arbitrary: p)
  case Nil
  then show ?case by (subst search_loop.simps) (simp add: listNext_def)
next
  case (Cons x xs)
  then show ?case using Cons.IH [of "Some (fst x)"] by (subst search_loop.simps) (simp add: listNext_def)
qed

lemma search_list:
  "is_list h l xs \<Longrightarrow> listSearchKey l key h = Some (map_option fst (find (\<lambda>x. key_matches l key (snd x)) xs))"
  using search_chain [of h None xs] by (simp add: listSearchKey_def listGetIterator_def is_list_def)

text \<open>Iterating with \<^verbatim>\<open>listNext\<close> gives the nodes in the order of the list, or in the opposite order.\<close>

lemma iterate_forward:
  assumes "chain h p (x # xs) None"
  shows "listNext h \<lparr>i_next = first_of (x # xs) None, i_direction = AL_START_HEAD\<rparr>
    = Some (Some (fst x), \<lparr>i_next = first_of xs None, i_direction = AL_START_HEAD\<rparr>)"
  using assms by (simp add: listNext_def)

lemma iterate_backward:
  assumes "chain h None (xs @ [x]) n"
  shows "listNext h \<lparr>i_next = last_of None (xs @ [x]), i_direction = AL_START_TAIL\<rparr>
    = Some (Some (fst x), \<lparr>i_next = last_of None xs, i_direction = AL_START_TAIL\<rparr>)"
  using assms by (simp add: listNext_def chain_append)

section \<open>Releasing and copying a list\<close>

lemma release_chain:
  "chain h p xs None \<Longrightarrow> distinct (map fst xs) \<Longrightarrow>
    release_loop fr (length xs) (first_of xs None) h = Some (h |` (- fst ` set xs), if fr then map snd xs else [])"
proof (induction xs arbitrary: p h)
  case (Cons x xs)
  have c: "chain (h(fst x := None)) (Some (fst x)) xs None" using Cons.prems by (subst chain_frame) auto
  have "release_loop fr (length xs) (first_of xs None) (h(fst x := None))
      = Some (h(fst x := None) |` (- fst ` set xs), if fr then map snd xs else [])"
    by (rule Cons.IH [OF c]) (use Cons.prems in auto)
  moreover have "h(fst x := None) |` (- fst ` set xs) = h |` (- fst ` set (x # xs))" by (auto simp: restrict_map_def)
  ultimately show ?case using Cons.prems by auto
qed (simp add: restrict_map_def)

lemma release_list:
  "is_list h l xs \<Longrightarrow> listRelease l h = Some (h |` (- fst ` set xs), if l_free l then map snd xs else [])"
  using release_chain [of h None xs] by (simp add: is_list_def listRelease_def)

text \<open>What \<^verbatim>\<open>listDup\<close> makes of a value.\<close>

definition dup_value :: "'v adlist \<Rightarrow> 'v \<Rightarrow> 'v option" where
  "dup_value l v = (case l_dup l of Some dup \<Rightarrow> dup v | None \<Rightarrow> Some v)"

definition dup_result :: "(nat \<Rightarrow> nat) \<Rightarrow> 'v nodes \<Rightarrow> 'v list option \<Rightarrow> 'v nodes \<times> 'v adlist option \<Rightarrow> bool" where
  "dup_result alloc h vs r \<longleftrightarrow> (\<forall>a. a \<notin> range alloc \<longrightarrow> fst r a = h a) \<and> (case (vs, snd r) of
     (Some vs, Some c) \<Rightarrow> is_list (fst r) c (zip (map alloc [0..<length vs]) vs)
   | (None, None) \<Rightarrow> True
   | _ \<Rightarrow> False)"

lemma add_tail_alloc:
  assumes "is_list h c (zip (map alloc [0..<length ws]) ws)" "inj alloc" "\<forall>k \<ge> length ws. h (alloc k) = None"
  shows "\<exists>h' c'. listAddNodeTail (alloc (length ws)) w (h, c) = Some (h', c')
    \<and> is_list h' c' (zip (map alloc [0..<length (ws @ [w])]) (ws @ [w])) \<and> (\<forall>a. a \<notin> range alloc \<longrightarrow> h' a = h a)
    \<and> (\<forall>k \<ge> length (ws @ [w]). h' (alloc k) = None) \<and> l_dup c' = l_dup c"
proof -
  let ?ys = "zip (map alloc [0..<length ws]) ws"
  have sub: "fst ` set ?ys \<subseteq> alloc ` {0..<length ws}" by (force dest: set_zip_leftD)
  have z: "?ys @ [(alloc (length ws), w)] = zip (map alloc [0..<length (ws @ [w])]) (ws @ [w])" by simp
  obtain h' c' where t: "listAddNodeTail (alloc (length ws)) w (h, c) = Some (h', c')"
      "is_list h' c' (zip (map alloc [0..<length (ws @ [w])]) (ws @ [w]))"
      "\<forall>a. a \<notin> insert (alloc (length ws)) (fst ` set ?ys) \<longrightarrow> h' a = h a" "l_dup c' = l_dup c"
    using add_tail_list [OF assms(1) assms(3) [rule_format, OF order.refl], of w] unfolding z by blast
  have fr: "h' a = h a" if "a \<notin> range alloc" for a
  proof -
    have "a \<notin> insert (alloc (length ws)) (fst ` set ?ys)" using that sub by auto
    then show ?thesis by (rule t(3) [rule_format])
  qed
  have "h' (alloc k) = None" if k: "k \<ge> length (ws @ [w])" for k
  proof -
    have "alloc k \<noteq> alloc (length ws)" "alloc k \<notin> alloc ` {0..<length ws}" using k assms(2) by (auto simp: inj_eq)
    then have "alloc k \<notin> insert (alloc (length ws)) (fst ` set ?ys)" using sub by blast
    then have "h' (alloc k) = h (alloc k)" by (rule t(3) [rule_format])
    then show ?thesis using assms(3) k by simp
  qed
  then show ?thesis using t(1,2,4) fr by blast
qed

lemma dup_chain:
  assumes "chain h p xs None" "fst ` set xs \<inter> range alloc = {}" "inj alloc"
    and "is_list h c (zip (map alloc [0..<length ws]) ws)" "\<forall>k \<ge> length ws. h (alloc k) = None"
  shows "\<exists>r. dup_loop alloc \<lparr>i_next = first_of xs None, i_direction = AL_START_HEAD\<rparr> (h, c) = Some r
    \<and> dup_result alloc h (map_option ((@) ws) (those (map (dup_value c \<circ> snd) xs))) r"
  using assms
proof (induction xs arbitrary: p h c ws)
  case Nil
  then show ?case by (subst dup_loop.simps) (simp add: listNext_def dup_result_def)
next
  case (Cons x xs)
  let ?ys = "zip (map alloc [0..<length ws]) ws"
  have len: "l_len c = length ws" using is_listD(5) [OF Cons.prems(4)] by simp
  note step = dup_loop.simps [of alloc "\<lparr>i_next = Some (fst x), i_direction = AL_START_HEAD\<rparr>" "(h, c)", folded dup_value_def]
    iterate_forward [OF Cons.prems(1), simplified]
  show ?case
  proof (cases "dup_value c (snd x)")
    case None
    have sub: "fst ` set ?ys \<subseteq> range alloc" by (force dest: set_zip_leftD)
    have "dup_loop alloc \<lparr>i_next = Some (fst x), i_direction = AL_START_HEAD\<rparr> (h, c) = Some (h |` (- fst ` set ?ys), None)"
      using None Cons.prems(1) release_list [OF Cons.prems(4)] by (simp add: step)
    moreover have "dup_result alloc h None (h |` (- fst ` set ?ys), None)"
      using sub by (auto simp: dup_result_def restrict_map_def)
    ultimately show ?thesis using None by simp
  next
    case (Some w)
    obtain h' c' where t: "listAddNodeTail (alloc (length ws)) w (h, c) = Some (h', c')"
        "is_list h' c' (zip (map alloc [0..<length (ws @ [w])]) (ws @ [w]))" "\<forall>a. a \<notin> range alloc \<longrightarrow> h' a = h a"
        "\<forall>k \<ge> length (ws @ [w]). h' (alloc k) = None" "l_dup c' = l_dup c"
      using add_tail_alloc [OF Cons.prems(4,3,5), of w] by blast
    have "chain h' (Some (fst x)) xs None = chain h (Some (fst x)) xs None"
      by (rule chain_cong) (use Cons.prems(2) t(3) in auto)
    then have ch: "chain h' (Some (fst x)) xs None" using Cons.prems(1) by simp
    have dj: "fst ` set xs \<inter> range alloc = {}" using Cons.prems(2) by auto
    obtain r where r: "dup_loop alloc \<lparr>i_next = first_of xs None, i_direction = AL_START_HEAD\<rparr> (h', c') = Some r"
        "dup_result alloc h' (map_option ((@) (ws @ [w])) (those (map (dup_value c' \<circ> snd) xs))) r"
      using Cons.IH [OF ch dj Cons.prems(3) t(2,4)] by blast
    have dc: "dup_value c' = dup_value c" using t(5) by (simp add: dup_value_def fun_eq_iff)
    have eq: "map_option ((@) ws) (those (map (dup_value c \<circ> snd) (x # xs)))
        = map_option ((@) (ws @ [w])) (those (map (dup_value c' \<circ> snd) xs))"
      using Some dc by (cases "those (map (dup_value c \<circ> snd) xs)") (simp_all add: comp_def)
    have "dup_result alloc h (map_option ((@) ws) (those (map (dup_value c \<circ> snd) (x # xs)))) r"
      using r(2) t(3) unfolding eq by (simp add: dup_result_def)
    moreover have "dup_loop alloc \<lparr>i_next = first_of (x # xs) None, i_direction = AL_START_HEAD\<rparr> (h, c) = Some r"
      using Some Cons.prems(1) t(1) len r(1) by (simp add: step)
    ultimately show ?thesis by blast
  qed
qed

lemma dup_list:
  assumes "is_list h l xs" "inj alloc" "\<forall>k. h (alloc k) = None"
  shows "\<exists>r. listDup alloc l h = Some r \<and> dup_result alloc h (those (map (dup_value l \<circ> snd) xs)) r"
proof -
  let ?c = "listCreate\<lparr>l_dup := l_dup l, l_free := l_free l, l_match := l_match l\<rparr>"
  have dj: "fst ` set xs \<inter> range alloc = {}" using list_fresh [OF assms(1)] assms(3) by (metis disjoint_iff rangeE)
  have c: "is_list h ?c (zip (map alloc [0..<length []]) [])" by (simp add: is_list_def listCreate_def)
  obtain r where r: "dup_loop alloc \<lparr>i_next = first_of xs None, i_direction = AL_START_HEAD\<rparr> (h, ?c) = Some r"
      "dup_result alloc h (map_option ((@) []) (those (map (dup_value ?c \<circ> snd) xs))) r"
    using dup_chain [OF is_listD(2) [OF assms(1)] dj assms(2) c] assms(3) by blast
  have "map_option ((@) []) y = y" for y :: "'a list option" by (cases y) auto
  moreover have "dup_value ?c = dup_value l" by (simp add: dup_value_def fun_eq_iff)
  ultimately show ?thesis using r is_listD(3) [OF assms(1)] by (simp add: listDup_def listGetIterator_def)
qed

section \<open>The list as a sequence\<close>

datatype 'v list_op = AddHead nat 'v | AddTail nat 'v | Insert nat nat 'v bool | Del nat | Rotate | Index int | Search 'v

text \<open>An operation with its answer: a node, and the values given to the \<^verbatim>\<open>free\<close> method.\<close>

fun list_step :: "'v list_op \<Rightarrow> 'v nodes \<times> 'v adlist \<Rightarrow> (('v nodes \<times> 'v adlist) \<times> nat option \<times> 'v list) option" where
  "list_step (AddHead p v) s = map_option (\<lambda>s. (s, None, [])) (listAddNodeHead p v s)"
| "list_step (AddTail p v) s = map_option (\<lambda>s. (s, None, [])) (listAddNodeTail p v s)"
| "list_step (Insert p a v after) s = map_option (\<lambda>s. (s, None, [])) (listInsertNode p a v after s)"
| "list_step (Del a) s = map_option (\<lambda>(s, freed). (s, None, freed)) (listDelNode a s)"
| "list_step Rotate s = map_option (\<lambda>s. (s, None, [])) (listRotate s)"
| "list_step (Index i) s = map_option (\<lambda>r. (s, r, [])) (listIndex (snd s) i (fst s))"
| "list_step (Search key) s = map_option (\<lambda>r. (s, r, [])) (listSearchKey (snd s) key (fst s))"

text \<open>The same on sequences.\<close>

fun seq_insert :: "nat \<Rightarrow> nat \<Rightarrow> 'v \<Rightarrow> bool \<Rightarrow> (nat \<times> 'v) list \<Rightarrow> (nat \<times> 'v) list" where
  "seq_insert p a v after [] = []"
| "seq_insert p a v after (x # xs) = (
    if fst x = a then (if after then x # (p, v) # xs else (p, v) # x # xs) else x # seq_insert p a v after xs)"

fun seq_step :: "'v list_op \<Rightarrow> (nat \<times> 'v) list \<Rightarrow> (nat \<times> 'v) list" where
  "seq_step (AddHead p v) xs = (p, v) # xs"
| "seq_step (AddTail p v) xs = xs @ [(p, v)]"
| "seq_step (Insert p a v after) xs = seq_insert p a v after xs"
| "seq_step (Del a) xs = filter (\<lambda>x. fst x \<noteq> a) xs"
| "seq_step Rotate xs = (if length xs \<le> 1 then xs else last xs # butlast xs)"
| "seq_step _ xs = xs"

fun seq_answer :: "'v adlist \<Rightarrow> 'v list_op \<Rightarrow> (nat \<times> 'v) list \<Rightarrow> nat option \<times> 'v list" where
  "seq_answer l (Del a) xs = (None, if l_free l then map snd (filter (\<lambda>x. fst x = a) xs) else [])"
| "seq_answer l (Index i) xs = (
    if 0 \<le> i \<and> i < int (length xs) then Some (fst (xs ! nat i))
    else if i < 0 \<and> - i \<le> int (length xs) then Some (fst (xs ! nat (int (length xs) + i))) else None, [])"
| "seq_answer l (Search key) xs = (map_option fst (find (\<lambda>x. key_matches l key (snd x)) xs), [])"
| "seq_answer l _ xs = (None, [])"

fun new_node :: "'v list_op \<Rightarrow> nat set" where
  "new_node (AddHead p v) = {p}"
| "new_node (AddTail p v) = {p}"
| "new_node (Insert p a v after) = {p}"
| "new_node _ = {}"

fun old_node :: "'v list_op \<Rightarrow> nat set" where
  "old_node (Insert p a v after) = {a}"
| "old_node (Del a) = {a}"
| "old_node _ = {}"

lemma seq_split:
  assumes "a \<in> fst ` set xs" "distinct (map fst xs)"
  obtains us w vs where "xs = us @ (a, w) # vs" "a \<notin> fst ` set us" "a \<notin> fst ` set vs"
proof -
  obtain w where "(a, w) \<in> set xs" using assms(1) by auto
  then obtain us vs where "xs = us @ (a, w) # vs" by (meson split_list)
  then show thesis using that assms(2) by auto
qed

lemma seq_insert_split:
  "a \<notin> fst ` set us \<Longrightarrow> seq_insert p a v after (us @ (a, w) # vs)
    = us @ (if after then (a, w) # (p, v) # vs else (p, v) # (a, w) # vs)"
  by (induction us) auto

lemma insert_list:
  assumes "is_list h l (us @ (a, w) # vs)" "h p = None" "a \<notin> fst ` set us"
  shows "\<exists>h' l'. listInsertNode p a v after (h, l) = Some (h', l') \<and> is_list h' l' (seq_insert p a v after (us @ (a, w) # vs))
    \<and> (\<forall>b. b \<notin> insert p (fst ` set (us @ (a, w) # vs)) \<longrightarrow> h' b = h b)"
  using insert_list_after [OF assms(1,2), of v] insert_list_before [OF assms(1,2), of v] seq_insert_split [OF assms(3), of p v after w vs]
  by (cases after) simp_all

lemma filter_other: "a \<notin> fst ` set xs \<Longrightarrow> filter (\<lambda>x. fst x \<noteq> a) xs = xs \<and> filter (\<lambda>x. fst x = a) xs = []"
  by (induction xs) auto

text \<open>
  C39. A linked list behaves as the sequence of its nodes: in a store that represents a list, every
  operation on a node of the list, with a new node at a free address, succeeds, gives the answer of
  the sequence (with negative indices from the end, and the first match of a search), represents
  the changed sequence, and touches no other node of the store.
\<close>

theorem linked_list_is_a_sequence:
  assumes "is_list h l xs" "\<forall>p \<in> new_node op. h p = None" "old_node op \<subseteq> fst ` set xs"
  shows "\<exists>h' l'. list_step op (h, l) = Some ((h', l'), seq_answer l op xs) \<and> is_list h' l' (seq_step op xs)
    \<and> (\<forall>a. a \<notin> new_node op \<union> fst ` set xs \<longrightarrow> h' a = h a)"
proof (cases op)
  case (AddHead p v)
  then have "h p = None" using assms(2) by simp
  then obtain h' l' where "listAddNodeHead p v (h, l) = Some (h', l')" "is_list h' l' ((p, v) # xs)"
      "\<forall>a. a \<notin> insert p (fst ` set xs) \<longrightarrow> h' a = h a"
    using add_head_list [OF assms(1)] by blast
  then show ?thesis using AddHead by simp
next
  case (AddTail p v)
  then have "h p = None" using assms(2) by simp
  then obtain h' l' where "listAddNodeTail p v (h, l) = Some (h', l')" "is_list h' l' (xs @ [(p, v)])"
      "\<forall>a. a \<notin> insert p (fst ` set xs) \<longrightarrow> h' a = h a"
    using add_tail_list [OF assms(1)] by blast
  then show ?thesis using AddTail by simp
next
  case (Insert p a v after)
  then have "a \<in> fst ` set xs" using assms(3) by simp
  then obtain us w vs where s: "xs = us @ (a, w) # vs" "a \<notin> fst ` set us"
    using seq_split is_listD(1) [OF assms(1)] by metis
  have "h p = None" using assms(2) Insert by simp
  then obtain h' l' where "listInsertNode p a v after (h, l) = Some (h', l')" "is_list h' l' (seq_insert p a v after xs)"
      "\<forall>a. a \<notin> insert p (fst ` set xs) \<longrightarrow> h' a = h a"
    using insert_list [OF assms(1) [unfolded s(1)] _ s(2)] s(1) by blast
  then show ?thesis using Insert by simp
next
  case (Del a)
  then have "a \<in> fst ` set xs" using assms(3) by simp
  then obtain us w vs where s: "xs = us @ (a, w) # vs" "a \<notin> fst ` set us" "a \<notin> fst ` set vs"
    using seq_split is_listD(1) [OF assms(1)] by metis
  then obtain h' l' where "listDelNode a (h, l) = Some ((h', l'), if l_free l then [w] else [])" "is_list h' l' (us @ vs)"
      "\<forall>b. b \<notin> fst ` set xs \<longrightarrow> h' b = h b"
    using del_list [OF assms(1) [unfolded s(1)]] s(1) by blast
  then show ?thesis using Del s filter_other [of a us] filter_other [of a vs] by simp
next
  case Rotate
  obtain h' l' where "listRotate (h, l) = Some (h', l')" "is_list h' l' (seq_step op xs)" "\<forall>b. b \<notin> fst ` set xs \<longrightarrow> h' b = h b"
    using rotate_list [OF assms(1)] Rotate by auto
  then show ?thesis using Rotate by simp
next
  case (Index i)
  then show ?thesis using assms(1) index_list [OF assms(1), of i] by simp
next
  case (Search key)
  then show ?thesis using assms(1) search_list [OF assms(1), of key] by simp
qed

definition two_nodes :: "string nodes" where
  "two_nodes = [1 \<mapsto> \<lparr>n_prev = None, n_next = Some 2, n_value = ''a''\<rparr>, 2 \<mapsto> \<lparr>n_prev = Some 1, n_next = None, n_value = ''b''\<rparr>]"

definition two_list :: "string adlist" where
  "two_list = listCreate\<lparr>l_head := Some 1, l_tail := Some 2, l_len := 2\<rparr>"

theorem linked_list_is_a_sequence_witness:
  "\<exists>h' l'. list_step (Insert 3 1 ''c'' True) (two_nodes, two_list) = Some ((h', l'), None, [])
    \<and> is_list h' l' [(1, ''a''), (3, ''c''), (2, ''b'')] \<and> (\<forall>a. a \<notin> {1, 2, 3} \<longrightarrow> h' a = None)"
  using linked_list_is_a_sequence [of two_nodes two_list "[(1, ''a''), (2, ''b'')]" "Insert 3 1 ''c'' True"]
  by (auto simp: is_list_def two_nodes_def two_list_def listCreate_def)

end
