(* ===== verification/Myuser.thy ===== *)
theory Myuser
  imports Dict_Ops
begin

text \<open>
  The directory of users and their nodes (\<^verbatim>\<open>server/src/mydictuser.c\<close>, \<^verbatim>\<open>myuser.h\<close>).  The
  \<^verbatim>\<open>MyNodeUserInfo\<close> structures live in a heap that only grows; their addresses are stored both in
  the dictionary \<^verbatim>\<open>myuserdict\<close>, by user name, and in a linked list of all users.  An operation
  returns \<open>None\<close> where the code would write past a character array, follow a wild pointer or
  leave a table of the dictionary.
\<close>

section \<open>Data\<close>

definition MY_NAME_LENGTH :: nat where [num_consts]: "MY_NAME_LENGTH = 256"
definition MYNODE_MAX_NODES :: nat where [num_consts]: "MYNODE_MAX_NODES = 6"
definition LINE_LENGTH :: nat where [num_consts]: "LINE_LENGTH = 10"

record MyNodeInfo =
  ni_name :: string
  ni_line :: string

record MyNodeUserInfo =
  ui_name :: string
  ui_userid :: string
  ui_line :: string
  ui_nodes :: "MyNodeInfo list"
  ui_index :: nat
  ui_next :: "nat option"

record users =
  us_heap :: "MyNodeUserInfo list"
  us_dict :: "(string, nat) dict"
  us_all :: "nat option"
  us_count :: nat

datatype info_operation = OPERATION_GET_INFO | OPERATION_SET_INFO

definition no_users :: users where
  "no_users = \<lparr>us_heap = [], us_dict = dictCreate, us_all = None, us_count = 0\<rparr>"

text \<open>\<^verbatim>\<open>strcpy\<close> and \<^verbatim>\<open>sprintf\<close> into an array of \<open>n\<close> characters, with room for the terminator.\<close>

definition store_str :: "nat \<Rightarrow> string \<Rightarrow> string option" where
  "store_str n s = (if length s < n then Some s else None)"

definition deref :: "users \<Rightarrow> nat \<Rightarrow> MyNodeUserInfo option" where
  "deref us a = (if a < length (us_heap us) then Some (us_heap us ! a) else None)"

definition assign :: "nat \<Rightarrow> MyNodeUserInfo \<Rightarrow> users \<Rightarrow> users" where
  "assign a u us = us\<lparr>us_heap := (us_heap us)[a := u]\<rparr>"

section \<open>Operations\<close>

text \<open>The cells of the node array are not read before they are written.\<close>

definition newMyNodeUserInfo :: MyNodeUserInfo where
  "newMyNodeUserInfo = \<lparr>ui_name = [], ui_userid = [], ui_line = [],
    ui_nodes = replicate MYNODE_MAX_NODES \<lparr>ni_name = [], ni_line = []\<rparr>, ui_index = 0, ui_next = None\<rparr>"

text \<open>\<^verbatim>\<open>dictFetchValue(myuserdict, sdsnew(username))\<close>, which every operation begins with.\<close>

definition fetch_user :: "string \<Rightarrow> users \<Rightarrow> (users \<times> nat option) option" where
  "fetch_user username us = do {
    (d, a) \<leftarrow> dictFetchValue commandTableDictType username (us_dict us);
    Some (us\<lparr>us_dict := d\<rparr>, a)
  }"

definition insertUserInfo :: "bool \<Rightarrow> string \<Rightarrow> string \<Rightarrow> users \<Rightarrow> users option" where
  "insertUserInfo can userid username us = do {
    (us, nodeuseinfo) \<leftarrow> fetch_user username us;
    case nodeuseinfo of Some _ \<Rightarrow> Some us
    | None \<Rightarrow> do {
        name \<leftarrow> store_str MY_NAME_LENGTH username;
        uid \<leftarrow> store_str MY_NAME_LENGTH userid;
        let a = length (us_heap us);
        let u = newMyNodeUserInfo\<lparr>ui_name := name, ui_userid := uid, ui_line := ''off'',
              ui_index := 0, ui_next := us_all us\<rparr>;
        (d, _) \<leftarrow> dictAdd can commandTableDictType username a (us_dict us);
        Some (us\<lparr>us_heap := us_heap us @ [u], us_dict := d, us_count := us_count us + 1,
          us_all := Some a\<rparr>)
      }
  }"

text \<open>The loop over the nodes of a user that compares names.\<close>

definition node_index :: "string \<Rightarrow> MyNodeUserInfo \<Rightarrow> nat option" where
  "node_index nodename u = find (\<lambda>j. nodename = ni_name (ui_nodes u ! j)) [0..<ui_index u]"

definition insertNodeToUserInfo :: "string \<Rightarrow> string \<Rightarrow> users \<Rightarrow> (users \<times> int) option" where
  "insertNodeToUserInfo username nodename us = do {
    (us, p) \<leftarrow> fetch_user username us;
    case p of None \<Rightarrow> Some (us, -2)
    | Some a \<Rightarrow> do {
        u \<leftarrow> deref us a;
        if node_index nodename u \<noteq> None then Some (us, 0)
        else if ui_index u \<ge> MYNODE_MAX_NODES then Some (us, -1)
        else do {
          name \<leftarrow> store_str MY_NAME_LENGTH nodename;
          Some (assign a (u\<lparr>ui_nodes := (ui_nodes u)[ui_index u := \<lparr>ni_name = name, ni_line = ''off''\<rparr>],
            ui_index := ui_index u + 1\<rparr>) us, 1)
        }
      }
  }"

definition getUserNodeSize :: "string \<Rightarrow> users \<Rightarrow> (users \<times> nat) option" where
  "getUserNodeSize username us = do {
    (us, p) \<leftarrow> fetch_user username us;
    case p of None \<Rightarrow> Some (us, 0)
    | Some a \<Rightarrow> do { u \<leftarrow> deref us a; Some (us, ui_index u) }
  }"

text \<open>
  The walk along the list of all users; its result is the addresses met, so that a list with a
  cycle, on which the loop would not end, has none.
\<close>

partial_function (option) walk_users :: "users \<Rightarrow> nat option \<Rightarrow> nat list option" where
  "walk_users us p = (case p of None \<Rightarrow> Some []
    | Some a \<Rightarrow> do {
        u \<leftarrow> deref us a;
        as \<leftarrow> walk_users us (ui_next u);
        Some (a # as)
      })"

definition crlf :: string where
  "crlf = [CHR 0x0D, CHR 0x0A]"

definition userinfo_line :: "string \<Rightarrow> string \<Rightarrow> string" where
  "userinfo_line name line = ''userinfo ok '' @ name @ '' '' @ line @ crlf"

definition nodeinfo_line :: "string \<Rightarrow> string \<Rightarrow> string" where
  "nodeinfo_line name line = ''nodeinfo ok '' @ name @ '' '' @ line @ crlf"

text \<open>A sequence of \<^verbatim>\<open>sprintf\<close> into the same 256 characters, each followed by a reply.\<close>

fun print_all :: "string list \<Rightarrow> string list option" where
  "print_all [] = Some []"
| "print_all (s # ss) = do { s \<leftarrow> store_str 256 s; ss \<leftarrow> print_all ss; Some (s # ss) }"

definition chatUserInfo :: "users \<Rightarrow> string list option" where
  "chatUserInfo us = do {
    as \<leftarrow> walk_users us (us_all us);
    print_all (map (\<lambda>a. userinfo_line (ui_name (us_heap us ! a)) (ui_line (us_heap us ! a))) as)
  }"

definition getAllNodeInfo :: "string \<Rightarrow> users \<Rightarrow> (users \<times> string list) option" where
  "getAllNodeInfo username us = do {
    (us, p) \<leftarrow> fetch_user username us;
    case p of None \<Rightarrow> Some (us, [])
    | Some a \<Rightarrow> do {
        u \<leftarrow> deref us a;
        ls \<leftarrow> print_all (map (\<lambda>j. nodeinfo_line (ni_name (ui_nodes u ! j)) (ni_line (ui_nodes u ! j)))
          [0..<ui_index u]);
        Some (us, ls)
      }
  }"

definition getUseridByName :: "string \<Rightarrow> users \<Rightarrow> (users \<times> string option) option" where
  "getUseridByName username us = do {
    (us, p) \<leftarrow> fetch_user username us;
    case p of None \<Rightarrow> Some (us, None)
    | Some a \<Rightarrow> do { u \<leftarrow> deref us a; Some (us, Some (ui_userid u)) }
  }"

definition getNameByUserid :: "string \<Rightarrow> users \<Rightarrow> string option option" where
  "getNameByUserid userid us = do {
    as \<leftarrow> walk_users us (us_all us);
    Some (map_option (\<lambda>a. ui_name (us_heap us ! a)) (find (\<lambda>a. userid = ui_userid (us_heap us ! a)) as))
  }"

text \<open>Both take the caller's state buffer and return it, written to by the get operation.\<close>

definition chatSetOrGetUserInfo :: "string \<Rightarrow> string \<Rightarrow> info_operation \<Rightarrow> users
    \<Rightarrow> (users \<times> string) option" where
  "chatSetOrGetUserInfo username state operation us = do {
    (us, p) \<leftarrow> fetch_user username us;
    case p of None \<Rightarrow> Some (us, state)
    | Some a \<Rightarrow> do {
        u \<leftarrow> deref us a;
        case operation of
          OPERATION_GET_INFO \<Rightarrow> Some (us, ui_line u)
        | OPERATION_SET_INFO \<Rightarrow> do {
            l \<leftarrow> store_str MY_NAME_LENGTH state;
            Some (assign a (u\<lparr>ui_line := l\<rparr>) us, state)
          }
      }
  }"

definition chatSetOrGetNodeInfo :: "string \<Rightarrow> string \<Rightarrow> string \<Rightarrow> info_operation \<Rightarrow> users
    \<Rightarrow> (users \<times> string) option" where
  "chatSetOrGetNodeInfo username nodename state operation us = do {
    (us, p) \<leftarrow> fetch_user username us;
    case p of None \<Rightarrow> Some (us, state)
    | Some a \<Rightarrow> do {
        u \<leftarrow> deref us a;
        case node_index nodename u of None \<Rightarrow> Some (us, state)
        | Some j \<Rightarrow> (case operation of
            OPERATION_GET_INFO \<Rightarrow> Some (us, ni_line (ui_nodes u ! j))
          | OPERATION_SET_INFO \<Rightarrow> do {
              l \<leftarrow> store_str LINE_LENGTH state;
              Some (assign a (u\<lparr>ui_nodes := (ui_nodes u)[j := (ui_nodes u ! j)\<lparr>ni_line := l\<rparr>]\<rparr>) us, state)
            })
      }
  }"

section \<open>Loading the directory from the database\<close>

text \<open>
  The rows of the tables \<^verbatim>\<open>alluser\<close> and \<^verbatim>\<open>node\<close> as the database returns them: for each user
  the identifier, the name and the node names.  The queries themselves are made of strings.
\<close>

definition sq :: string where
  "sq = [CHR 0x27]"

definition insert_all_node :: "string \<Rightarrow> string \<Rightarrow> string list \<Rightarrow> users \<Rightarrow> users option" where
  "insert_all_node userid username rows us = do {
    _ \<leftarrow> store_str 256 (''select  nodeid  from node where userid='' @ sq @ userid @ sq @ '' ;'');
    foldl (\<lambda>us row. do {
        us \<leftarrow> us;
        _ \<leftarrow> store_str 256 row;
        map_option fst (insertNodeToUserInfo username row us)
      }) (Some us) rows
  }"

definition do_mysql_dump_redis :: "bool \<Rightarrow> (string \<times> string \<times> string list) list \<Rightarrow> users \<Rightarrow> users option" where
  "do_mysql_dump_redis can rows us =
    foldl (\<lambda>us (userid, username, nodes). do {
        us \<leftarrow> us;
        us \<leftarrow> insertUserInfo can userid username us;
        insert_all_node userid username nodes us
      }) (Some us) rows"

end
