(* ===== verification/Myuser_Inv.thy ===== *)
theory Myuser_Inv
  imports Myuser
begin

text \<open>
  The invariant of the user directory and what each operation of \<^verbatim>\<open>mydictuser.c\<close> does under it:
  the dictionary and the linked list hold the same users, no two users have names that differ
  only in case, and no user has more nodes than the array has room for.
\<close>

abbreviation user_type :: "(string, nat) dictType" where
  "user_type \<equiv> commandTableDictType"

abbreviation same_name :: "string \<Rightarrow> string \<Rightarrow> bool" where
  "same_name \<equiv> dictSdsKeyCaseCompare"

definition user_addr :: "users \<Rightarrow> string \<Rightarrow> nat option" where
  "user_addr us k = find (\<lambda>a. same_name k (ui_name (us_heap us ! a))) [0..<length (us_heap us)]"

definition node_ok :: "MyNodeInfo \<Rightarrow> bool" where
  "node_ok nd \<longleftrightarrow> length (ni_name nd) < MY_NAME_LENGTH \<and> ni_line nd \<in> {''on'', ''off''}"

definition user_ok :: "MyNodeUserInfo \<Rightarrow> bool" where
  "user_ok u \<longleftrightarrow> length (ui_name u) < MY_NAME_LENGTH \<and> length (ui_userid u) < MY_NAME_LENGTH
    \<and> ui_line u \<in> {''on'', ''off''} \<and> length (ui_nodes u) = MYNODE_MAX_NODES
    \<and> ui_index u \<le> MYNODE_MAX_NODES \<and> (\<forall>nd \<in> set (take (ui_index u) (ui_nodes u)). node_ok nd)
    \<and> distinct (map ni_name (take (ui_index u) (ui_nodes u)))"

definition users_inv :: "users \<Rightarrow> bool" where
  "users_inv us \<longleftrightarrow> represents user_type (us_dict us) (user_addr us)
    \<and> (\<forall>a < length (us_heap us). \<forall>b < length (us_heap us).
         same_name (ui_name (us_heap us ! a)) (ui_name (us_heap us ! b)) \<longrightarrow> a = b)
    \<and> us_all us = (if us_heap us = [] then None else Some (length (us_heap us) - 1))
    \<and> (\<forall>a < length (us_heap us). ui_next (us_heap us ! a) = (if a = 0 then None else Some (a - 1)))
    \<and> us_count us = length (us_heap us)
    \<and> (\<forall>u \<in> set (us_heap us). user_ok u)"

lemma same_name_refl [simp]: "same_name k k"
  by (simp add: dictSdsKeyCaseCompare_def)

lemma same_name_sym: "same_name k k' \<Longrightarrow> same_name k' k"
  by (simp add: dictSdsKeyCaseCompare_def)

lemma same_name_trans: "same_name k k' \<Longrightarrow> same_name k' k'' \<Longrightarrow> same_name k k''"
  by (simp add: dictSdsKeyCaseCompare_def)

lemma user_type_simps: "dictCompareKeys user_type = same_name" "valDup user_type = None"
  by (auto simp: commandTableDictType_def dictCompareKeys_def fun_eq_iff)

lemma user_addr_Some:
  "user_addr us k = Some a \<Longrightarrow> a < length (us_heap us) \<and> same_name k (ui_name (us_heap us ! a))"
  by (auto simp: user_addr_def find_Some_iff)

lemma user_addr_iff:
  assumes "users_inv us"
  shows "user_addr us k = Some a \<longleftrightarrow> a < length (us_heap us) \<and> same_name k (ui_name (us_heap us ! a))"
proof
  assume a: "a < length (us_heap us) \<and> same_name k (ui_name (us_heap us ! a))"
  then have "user_addr us k \<noteq> None" by (auto simp: user_addr_def find_None_iff)
  then obtain b where b: "user_addr us k = Some b" by blast
  then have "a = b" using a user_addr_Some [OF b] assms same_name_sym same_name_trans
    unfolding users_inv_def by metis
  then show "user_addr us k = Some a" using b by simp
qed (rule user_addr_Some)

lemma user_addr_cong: "same_name k k' \<Longrightarrow> user_addr us k = user_addr us k'"
  by (simp add: user_addr_def dictSdsKeyCaseCompare_def)

lemma user_addr_self:
  "users_inv us \<Longrightarrow> a < length (us_heap us) \<Longrightarrow> user_addr us (ui_name (us_heap us ! a)) = Some a"
  by (simp add: user_addr_iff)

lemma users_inv_ok: "users_inv us \<Longrightarrow> a < length (us_heap us) \<Longrightarrow> user_ok (us_heap us ! a)"
  by (simp add: users_inv_def)

section \<open>Lookups\<close>

text \<open>The same directory, up to a step of rehashing.\<close>

definition users_same :: "users \<Rightarrow> users \<Rightarrow> bool" where
  "users_same us us' \<longleftrightarrow> users_inv us' \<and> us_heap us' = us_heap us"

lemma users_same_addr: "users_same us us' \<Longrightarrow> user_addr us' = user_addr us"
  by (auto simp: users_same_def user_addr_def)

lemma users_same_refl: "users_inv us \<Longrightarrow> users_same us us"
  by (simp add: users_same_def)

lemma fetch_user_ok:
  assumes inv: "users_inv us"
  obtains us' where "fetch_user k us = Some (us', user_addr us k)" "users_same us us'"
proof -
  have r: "represents user_type (us_dict us) (user_addr us)" using inv by (simp add: users_inv_def)
  obtain d' where f: "dict_step True user_type (Op_find k) (us_dict us) = Some (d', A_value (user_addr us k))"
      and r': "represents user_type d' (user_addr us)"
    using command_type.dict_step_map [OF r user_type_simps(2), of True "Op_find k"]
    by (auto simp: map_step_def)
  have fv: "dictFetchValue user_type k (us_dict us) = Some (d', user_addr us k)"
    using f by (auto simp: dict_step_def)
  have "user_addr (us\<lparr>us_dict := d'\<rparr>) = user_addr us" by (auto simp: user_addr_def)
  then have "users_same us (us\<lparr>us_dict := d'\<rparr>)"
    using inv r' by (simp add: users_same_def users_inv_def)
  then show ?thesis using that fv by (simp add: fetch_user_def)
qed

lemma deref_addr:
  "users_same us us' \<Longrightarrow> user_addr us k = Some a \<Longrightarrow> deref us' a = Some (us_heap us ! a)"
  using user_addr_Some by (auto simp: deref_def users_same_def)

lemma walk_users_down:
  assumes "users_inv us" "n \<le> length (us_heap us)"
  shows "walk_users us (if n = 0 then None else Some (n - 1)) = Some (rev [0..<n])"
  using assms(2)
proof (induction n)
  case 0
  then show ?case by (simp add: walk_users.simps)
next
  case (Suc n)
  have "ui_next (us_heap us ! n) = (if n = 0 then None else Some (n - 1))"
    using assms(1) Suc.prems by (simp add: users_inv_def)
  then show ?case using Suc by (subst walk_users.simps) (simp add: deref_def)
qed

lemma walk_users_all:
  "users_inv us \<Longrightarrow> walk_users us (us_all us) = Some (rev [0..<length (us_heap us)])"
  using walk_users_down [of us "length (us_heap us)"] by (simp add: users_inv_def)

lemma getUserNodeSize_ok:
  assumes "users_inv us"
  obtains us' where "getUserNodeSize k us = Some (us', case user_addr us k of None \<Rightarrow> 0
      | Some a \<Rightarrow> ui_index (us_heap us ! a))" "users_same us us'"
proof -
  obtain us' where "fetch_user k us = Some (us', user_addr us k)" and s: "users_same us us'"
    using fetch_user_ok [OF assms] .
  then show ?thesis using that deref_addr [OF s]
    by (cases "user_addr us k") (auto simp: getUserNodeSize_def)
qed

lemma getUseridByName_ok:
  assumes "users_inv us"
  obtains us' where "getUseridByName k us = Some (us', map_option (\<lambda>a. ui_userid (us_heap us ! a)) (user_addr us k))"
    "users_same us us'"
proof -
  obtain us' where "fetch_user k us = Some (us', user_addr us k)" and s: "users_same us us'"
    using fetch_user_ok [OF assms] .
  then show ?thesis using that deref_addr [OF s]
    by (cases "user_addr us k") (auto simp: getUseridByName_def)
qed

text \<open>The newest user with the given identifier.\<close>

definition userid_addr :: "users \<Rightarrow> string \<Rightarrow> nat option" where
  "userid_addr us i = find (\<lambda>a. i = ui_userid (us_heap us ! a)) (rev [0..<length (us_heap us)])"

lemma userid_addr_Some:
  "userid_addr us i = Some a \<Longrightarrow> a < length (us_heap us) \<and> ui_userid (us_heap us ! a) = i"
  by (auto simp: userid_addr_def find_Some_iff rev_nth)

lemma getNameByUserid_ok:
  "users_inv us \<Longrightarrow> getNameByUserid i us = Some (map_option (\<lambda>a. ui_name (us_heap us ! a)) (userid_addr us i))"
  by (simp add: getNameByUserid_def walk_users_all userid_addr_def)

lemma print_all_ok: "\<forall>s \<in> set ss. length s < 256 \<Longrightarrow> print_all ss = Some ss"
  by (induction ss) (auto simp: store_str_def)

section \<open>Updates\<close>

lemma users_inv_assign:
  assumes inv: "users_inv us" and a: "a < length (us_heap us)" and u: "user_ok u"
    and same: "ui_name u = ui_name (us_heap us ! a)" "ui_next u = ui_next (us_heap us ! a)"
  shows "users_inv (assign a u us)" "user_addr (assign a u us) = user_addr us"
proof -
  have nm: "ui_name ((us_heap us)[a := u] ! b) = ui_name (us_heap us ! b)"
    and nx: "ui_next ((us_heap us)[a := u] ! b) = ui_next (us_heap us ! b)" for b
    using same a by (cases "b = a"; simp)+
  show addr: "user_addr (assign a u us) = user_addr us"
    by (auto simp: user_addr_def assign_def nm)
  have "\<forall>v \<in> set ((us_heap us)[a := u]). user_ok v"
    using inv u set_update_subset_insert [of "us_heap us" a u] by (auto simp: users_inv_def)
  then show "users_inv (assign a u us)"
    using inv unfolding users_inv_def addr by (simp add: assign_def nm nx)
qed

lemma chatSetOrGetUserInfo_get:
  assumes "users_inv us"
  obtains us' where "chatSetOrGetUserInfo k st OPERATION_GET_INFO us = Some (us', case user_addr us k of
      None \<Rightarrow> st | Some a \<Rightarrow> ui_line (us_heap us ! a))" "users_same us us'"
proof -
  obtain us' where "fetch_user k us = Some (us', user_addr us k)" and s: "users_same us us'"
    using fetch_user_ok [OF assms] .
  then show ?thesis using that deref_addr [OF s]
    by (cases "user_addr us k") (auto simp: chatSetOrGetUserInfo_def)
qed

text \<open>What setting a line state does to the heap.\<close>

definition set_line :: "string \<Rightarrow> nat \<Rightarrow> MyNodeUserInfo list \<Rightarrow> MyNodeUserInfo list" where
  "set_line st a h = h[a := (h ! a)\<lparr>ui_line := st\<rparr>]"

lemma chatSetOrGetUserInfo_set:
  assumes inv: "users_inv us" and st: "st \<in> {''on'', ''off''}"
  obtains us' where "chatSetOrGetUserInfo k st OPERATION_SET_INFO us = Some (us', st)" "users_inv us'"
    "us_heap us' = (case user_addr us k of None \<Rightarrow> us_heap us | Some a \<Rightarrow> set_line st a (us_heap us))"
    "user_addr us' = user_addr us"
proof -
  obtain us1 where f: "fetch_user k us = Some (us1, user_addr us k)" and s: "users_same us us1"
    using fetch_user_ok [OF inv] .
  have inv1: "users_inv us1" and h1: "us_heap us1 = us_heap us" using s by (auto simp: users_same_def)
  show ?thesis
  proof (cases "user_addr us k")
    case None
    then show ?thesis using that [of us1] f s users_same_addr [OF s] by (simp add: chatSetOrGetUserInfo_def users_same_def)
  next
    case (Some a)
    let ?u = "(us_heap us ! a)\<lparr>ui_line := st\<rparr>"
    have al: "a < length (us_heap us1)" using user_addr_Some [OF Some] h1 by simp
    have u: "user_ok ?u" using users_inv_ok [OF inv1 al] st h1 by (auto simp: user_ok_def)
    have "store_str MY_NAME_LENGTH st = Some st" using st by (auto simp: store_str_def num_consts)
    then show ?thesis
      using that [of "assign a ?u us1"] f Some deref_addr [OF s Some] users_same_addr [OF s]
        users_inv_assign [OF inv1 al u] h1
      by (simp add: chatSetOrGetUserInfo_def set_line_def assign_def)
  qed
qed

text \<open>The nodes of a user, and the place of a node among them.\<close>

lemma node_index_Some:
  "node_index n u = Some j \<Longrightarrow> j < ui_index u \<and> ni_name (ui_nodes u ! j) = n"
  by (auto simp: node_index_def find_Some_iff)

lemma node_index_None: "node_index n u = None \<longleftrightarrow> (\<forall>j < ui_index u. ni_name (ui_nodes u ! j) \<noteq> n)"
  by (auto simp: node_index_def find_None_iff)

lemma chatSetOrGetNodeInfo_get:
  assumes "users_inv us"
  obtains us' where "chatSetOrGetNodeInfo k n st OPERATION_GET_INFO us = Some (us', case user_addr us k of
      None \<Rightarrow> st | Some a \<Rightarrow> (case node_index n (us_heap us ! a) of None \<Rightarrow> st
        | Some j \<Rightarrow> ni_line (ui_nodes (us_heap us ! a) ! j)))" "users_same us us'"
proof -
  obtain us' where "fetch_user k us = Some (us', user_addr us k)" and s: "users_same us us'"
    using fetch_user_ok [OF assms] .
  then show ?thesis using that [of us'] deref_addr [OF s]
    by (cases "user_addr us k"; cases "node_index n (us_heap us ! the (user_addr us k))")
      (simp_all add: chatSetOrGetNodeInfo_def)
qed

definition set_node_line :: "string \<Rightarrow> string \<Rightarrow> nat \<Rightarrow> MyNodeUserInfo list \<Rightarrow> MyNodeUserInfo list" where
  "set_node_line n st a h = (case node_index n (h ! a) of None \<Rightarrow> h
    | Some j \<Rightarrow> h[a := (h ! a)\<lparr>ui_nodes := (ui_nodes (h ! a))[j := (ui_nodes (h ! a) ! j)\<lparr>ni_line := st\<rparr>]\<rparr>])"

lemma user_ok_set_node:
  assumes u: "user_ok u" and j: "j < ui_index u" and st: "st \<in> {''on'', ''off''}"
  shows "user_ok (u\<lparr>ui_nodes := (ui_nodes u)[j := (ui_nodes u ! j)\<lparr>ni_line := st\<rparr>]\<rparr>)"
proof -
  let ?ns = "take (ui_index u) (ui_nodes u)"
  have t: "take (ui_index u) ((ui_nodes u)[j := x]) = ?ns[j := x]" for x
    by (simp add: take_update_swap)
  have jl: "j < length ?ns" using u j by (simp add: user_ok_def)
  have nj: "ui_nodes u ! j = ?ns ! j" using j by simp
  have names: "map ni_name (?ns[j := (ui_nodes u ! j)\<lparr>ni_line := st\<rparr>]) = map ni_name ?ns"
  proof -
    have "ni_name ((ui_nodes u ! j)\<lparr>ni_line := st\<rparr>) = map ni_name ?ns ! j" using jl j by simp
    then show ?thesis by (simp only: map_update list_update_id)
  qed
  have "node_ok ((ui_nodes u ! j)\<lparr>ni_line := st\<rparr>)"
    using u st jl nth_mem [OF jl] unfolding nj by (auto simp: user_ok_def node_ok_def)
  then have "\<forall>nd \<in> set (?ns[j := (ui_nodes u ! j)\<lparr>ni_line := st\<rparr>]). node_ok nd"
    using u set_update_subset_insert [of ?ns j] by (auto simp: user_ok_def)
  then show ?thesis using u names by (simp add: user_ok_def t)
qed

lemma chatSetOrGetNodeInfo_set:
  assumes inv: "users_inv us" and st: "st \<in> {''on'', ''off''}"
  obtains us' where "chatSetOrGetNodeInfo k n st OPERATION_SET_INFO us = Some (us', st)" "users_inv us'"
    "us_heap us' = (case user_addr us k of None \<Rightarrow> us_heap us | Some a \<Rightarrow> set_node_line n st a (us_heap us))"
    "user_addr us' = user_addr us"
proof -
  obtain us1 where f: "fetch_user k us = Some (us1, user_addr us k)" and s: "users_same us us1"
    using fetch_user_ok [OF inv] .
  have inv1: "users_inv us1" and h1: "us_heap us1 = us_heap us" and ad1: "user_addr us1 = user_addr us"
    using s users_same_addr [OF s] by (auto simp: users_same_def)
  show ?thesis
  proof (cases "user_addr us k")
    case None
    then show ?thesis using that [of us1] f inv1 h1 ad1 by (simp add: chatSetOrGetNodeInfo_def)
  next
    case (Some a)
    have al: "a < length (us_heap us1)" using user_addr_Some [OF Some] h1 by simp
    show ?thesis
    proof (cases "node_index n (us_heap us ! a)")
      case None
      then show ?thesis using that [of us1] f Some inv1 h1 ad1 deref_addr [OF s Some]
        by (simp add: chatSetOrGetNodeInfo_def set_node_line_def)
    next
      case (Some j)
      let ?u = "(us_heap us ! a)\<lparr>ui_nodes := (ui_nodes (us_heap us ! a))[j := (ui_nodes (us_heap us ! a) ! j)\<lparr>ni_line := st\<rparr>]\<rparr>"
      have u: "user_ok ?u"
        by (rule user_ok_set_node) (use users_inv_ok [OF inv1 al] h1 node_index_Some [OF Some] st in auto)
      have "store_str LINE_LENGTH st = Some st" using st by (auto simp: store_str_def num_consts)
      then show ?thesis
        using that [of "assign a ?u us1"] f \<open>user_addr us k = Some a\<close> Some
          deref_addr [OF s \<open>user_addr us k = Some a\<close>] ad1 users_inv_assign [OF inv1 al u] h1
        by (simp add: chatSetOrGetNodeInfo_def set_node_line_def assign_def)
    qed
  qed
qed

section \<open>New users and new nodes\<close>

definition new_user :: "string \<Rightarrow> string \<Rightarrow> nat option \<Rightarrow> MyNodeUserInfo" where
  "new_user userid username nxt = newMyNodeUserInfo\<lparr>ui_name := username, ui_userid := userid,
     ui_line := ''off'', ui_index := 0, ui_next := nxt\<rparr>"

lemma new_user_simps [simp]:
  "ui_name (new_user i n p) = n" "ui_userid (new_user i n p) = i" "ui_next (new_user i n p) = p"
  "ui_line (new_user i n p) = ''off''" "ui_index (new_user i n p) = 0"
  by (simp_all add: new_user_def)

lemma new_user_ok:
  "length username < MY_NAME_LENGTH \<Longrightarrow> length userid < MY_NAME_LENGTH \<Longrightarrow> user_ok (new_user userid username nxt)"
  by (simp add: new_user_def newMyNodeUserInfo_def user_ok_def)

lemma insertUserInfo_ok:
  assumes inv: "users_inv us" and len: "length username < MY_NAME_LENGTH" "length userid < MY_NAME_LENGTH"
  obtains us' where "insertUserInfo can userid username us = Some us'" "users_inv us'"
    "us_heap us' = us_heap us @ (if user_addr us username = None
       then [new_user userid username (us_all us)] else [])"
proof -
  obtain us1 where f: "fetch_user username us = Some (us1, user_addr us username)" and s: "users_same us us1"
    using fetch_user_ok [OF inv] .
  have inv1: "users_inv us1" and h1: "us_heap us1 = us_heap us" and ad1: "user_addr us1 = user_addr us"
    using s users_same_addr [OF s] by (auto simp: users_same_def)
  show ?thesis
  proof (cases "user_addr us username")
    case (Some a)
    then show ?thesis using that [of us1] f inv1 h1 by (simp add: insertUserInfo_def)
  next
    case None
    let ?n = "length (us_heap us)" and ?u = "new_user userid username (us_all us1)"
    have r1: "represents user_type (us_dict us1) (user_addr us)"
      using inv1 ad1 by (simp add: users_inv_def)
    let ?m = "\<lambda>k. if same_name k username then Some ?n else user_addr us k"
    obtain d' where add: "dictAdd can user_type username ?n (us_dict us1) = Some (d', DICT_OK)"
        and r': "represents user_type d' ?m"
      using command_type.dict_step_map [OF r1 user_type_simps(2), of can "Op_add username ?n"] None
      by (auto simp: map_step_def dict_step_def user_type_simps)
    let ?us = "us1\<lparr>us_heap := us_heap us1 @ [?u], us_dict := d', us_count := us_count us1 + 1, us_all := Some ?n\<rparr>"
    have addr: "user_addr ?us k = ?m k" for k
    proof -
      have old: "find (\<lambda>a. same_name k (ui_name ((us_heap us @ [?u]) ! a))) [0..<?n] = user_addr us k"
        unfolding user_addr_def by (rule find_cong) (auto simp: nth_append)
      have "user_addr ?us k = find (\<lambda>a. same_name k (ui_name ((us_heap us @ [?u]) ! a))) ([0..<?n] @ [?n])"
        unfolding user_addr_def by (simp add: h1)
      then have "user_addr ?us k = (case user_addr us k of None \<Rightarrow> if same_name k username then Some ?n else None
          | Some b \<Rightarrow> Some b)"
        unfolding find_append old by (simp cong: option.case_cong)
      moreover have "\<not> same_name k username" if "user_addr us k = Some b" for b
        using that None user_addr_cong [of k username us] by auto
      ultimately show ?thesis by (auto split: option.splits)
    qed
    have fresh: "\<not> same_name username (ui_name (us_heap us ! a))" if "a < ?n" for a
      using None that by (auto simp: user_addr_def find_None_iff)
    then have fresh': "\<not> same_name (ui_name (us_heap us ! a)) username" if "a < ?n" for a
      using that same_name_sym by blast
    have dist: "\<forall>a < Suc ?n. \<forall>b < Suc ?n. same_name (ui_name ((us_heap us @ [?u]) ! a))
        (ui_name ((us_heap us @ [?u]) ! b)) \<longrightarrow> a = b"
      using inv fresh fresh' by (auto simp: users_inv_def nth_append less_Suc_eq)
    have nxt: "\<forall>a < Suc ?n. ui_next ((us_heap us @ [?u]) ! a) = (if a = 0 then None else Some (a - 1))"
      using inv1 h1 by (auto simp: users_inv_def nth_append less_Suc_eq)
    have inv': "users_inv ?us"
      using inv1 r' dist nxt new_user_ok [OF len] h1
      unfolding users_inv_def addr [abs_def] by (simp add: users_inv_def)
    have run: "insertUserInfo can userid username us = Some ?us"
      using f None add h1 len by (simp add: insertUserInfo_def store_str_def new_user_def Let_def)
    have "us_all us1 = us_all us" using inv inv1 h1 by (simp add: users_inv_def)
    then show ?thesis using that [OF run inv'] h1 None by simp
  qed
qed

definition add_node :: "string \<Rightarrow> MyNodeUserInfo \<Rightarrow> MyNodeUserInfo" where
  "add_node n u = u\<lparr>ui_nodes := (ui_nodes u)[ui_index u := \<lparr>ni_name = n, ni_line = ''off''\<rparr>],
     ui_index := ui_index u + 1\<rparr>"

lemma add_node_ok:
  assumes "user_ok u" "node_index n u = None" "ui_index u < MYNODE_MAX_NODES" "length n < MY_NAME_LENGTH"
  shows "user_ok (add_node n u)"
proof -
  have len: "ui_index u < length (ui_nodes u)" using assms by (simp add: user_ok_def)
  have t: "take (Suc (ui_index u)) ((ui_nodes u)[ui_index u := x]) = take (ui_index u) (ui_nodes u) @ [x]" for x
    using len by (simp add: take_Suc_conv_app_nth)
  have "n \<notin> set (map ni_name (take (ui_index u) (ui_nodes u)))"
    using assms(2) len by (auto simp: node_index_None in_set_conv_nth) blast
  then show ?thesis using assms by (auto simp: add_node_def user_ok_def t node_ok_def)
qed

text \<open>The answer of \<^verbatim>\<open>insertNodeToUserInfo\<close>.\<close>

definition node_answer :: "users \<Rightarrow> string \<Rightarrow> string \<Rightarrow> int" where
  "node_answer us k n = (case user_addr us k of None \<Rightarrow> -2
    | Some a \<Rightarrow> (let u = us_heap us ! a in
        if node_index n u \<noteq> None then 0 else if ui_index u \<ge> MYNODE_MAX_NODES then -1 else 1))"

lemma insertNodeToUserInfo_ok:
  assumes inv: "users_inv us" and len: "length n < MY_NAME_LENGTH"
  obtains us' where "insertNodeToUserInfo k n us = Some (us', node_answer us k n)" "users_inv us'"
    "user_addr us' = user_addr us"
    "us_heap us' = (if node_answer us k n = 1
       then (us_heap us)[the (user_addr us k) := add_node n (us_heap us ! the (user_addr us k))]
       else us_heap us)"
proof -
  obtain us1 where f: "fetch_user k us = Some (us1, user_addr us k)" and s: "users_same us us1"
    using fetch_user_ok [OF inv] .
  have inv1: "users_inv us1" and h1: "us_heap us1 = us_heap us" and ad1: "user_addr us1 = user_addr us"
    using s users_same_addr [OF s] by (auto simp: users_same_def)
  show ?thesis
  proof (cases "node_answer us k n = 1")
    case False
    have "insertNodeToUserInfo k n us = Some (us1, node_answer us k n)"
    proof (cases "user_addr us k")
      case None
      then show ?thesis using f by (simp add: insertNodeToUserInfo_def node_answer_def)
    next
      case (Some a)
      then show ?thesis using False f deref_addr [OF s Some]
        by (simp add: insertNodeToUserInfo_def node_answer_def Let_def split: if_splits)
    qed
    then show ?thesis using False that [of us1] inv1 h1 ad1 by simp
  next
    case True
    then obtain a where a: "user_addr us k = Some a" and n: "node_index n (us_heap us ! a) = None"
        "ui_index (us_heap us ! a) < MYNODE_MAX_NODES"
      by (auto simp: node_answer_def Let_def split: option.splits if_splits)
    let ?u = "add_node n (us_heap us ! a)"
    have al: "a < length (us_heap us1)" using user_addr_Some [OF a] h1 by simp
    have u: "user_ok ?u" using add_node_ok [OF _ n len] users_inv_ok [OF inv1 al] h1 by simp
    have "insertNodeToUserInfo k n us = Some (assign a ?u us1, 1)"
      using f a n len deref_addr [OF s a]
      by (simp add: insertNodeToUserInfo_def store_str_def add_node_def)
    then show ?thesis
      using that [of "assign a ?u us1"] a True users_inv_assign [OF inv1 al u] h1 ad1
      by (simp add: add_node_def assign_def)
  qed
qed

section \<open>Listings\<close>

text \<open>Names short enough for every line of 256 characters that a reply is printed into.\<close>

definition MAX_PRINTABLE :: nat where [num_consts]: "MAX_PRINTABLE = 60"

definition short_names :: "users \<Rightarrow> bool" where
  "short_names us \<longleftrightarrow> (\<forall>u \<in> set (us_heap us). length (ui_name u) \<le> MAX_PRINTABLE
    \<and> length (ui_userid u) \<le> MAX_PRINTABLE
    \<and> (\<forall>nd \<in> set (take (ui_index u) (ui_nodes u)). length (ni_name nd) \<le> MAX_PRINTABLE))"

lemma chatUserInfo_ok:
  assumes "users_inv us" "short_names us"
  shows "chatUserInfo us = Some (map (\<lambda>u. userinfo_line (ui_name u) (ui_line u)) (rev (us_heap us)))"
proof -
  let ?ls = "map (\<lambda>a. userinfo_line (ui_name (us_heap us ! a)) (ui_line (us_heap us ! a)))
      (rev [0..<length (us_heap us)])"
  have "\<forall>l \<in> set ?ls. length l < 256"
  proof
    fix l assume "l \<in> set ?ls"
    then obtain a where a: "a < length (us_heap us)"
        "l = userinfo_line (ui_name (us_heap us ! a)) (ui_line (us_heap us ! a))" by auto
    then have "length (ui_name (us_heap us ! a)) \<le> 60" "ui_line (us_heap us ! a) \<in> {''on'', ''off''}"
      using assms users_inv_ok [of us a] by (auto simp: short_names_def user_ok_def num_consts)
    then show "length l < 256" using a(2) by (auto simp: userinfo_line_def crlf_def)
  qed
  then have "chatUserInfo us = Some ?ls" using assms(1)
    by (simp add: chatUserInfo_def walk_users_all print_all_ok)
  also have "?ls = map (\<lambda>u. userinfo_line (ui_name u) (ui_line u)) (rev (us_heap us))"
  proof -
    have "map (\<lambda>a. userinfo_line (ui_name (us_heap us ! a)) (ui_line (us_heap us ! a))) [0..<length (us_heap us)]
        = map (\<lambda>u. userinfo_line (ui_name u) (ui_line u)) (us_heap us)"
      by (rule nth_equalityI) auto
    then show ?thesis by (metis rev_map)
  qed
  finally show ?thesis .
qed

lemma getAllNodeInfo_ok:
  assumes inv: "users_inv us" and short: "short_names us"
  obtains us' where "getAllNodeInfo k us = Some (us', case user_addr us k of None \<Rightarrow> []
      | Some a \<Rightarrow> map (\<lambda>nd. nodeinfo_line (ni_name nd) (ni_line nd))
          (take (ui_index (us_heap us ! a)) (ui_nodes (us_heap us ! a))))" "users_same us us'"
proof -
  obtain us' where f: "fetch_user k us = Some (us', user_addr us k)" and s: "users_same us us'"
    using fetch_user_ok [OF inv] .
  show ?thesis
  proof (cases "user_addr us k")
    case None
    then show ?thesis using that [of us'] f s by (simp add: getAllNodeInfo_def)
  next
    case (Some a)
    let ?u = "us_heap us ! a" and ?line = "\<lambda>nd. nodeinfo_line (ni_name nd) (ni_line nd)"
    have al: "a < length (us_heap us)" using user_addr_Some [OF Some] by simp
    then have u: "user_ok ?u" by (rule users_inv_ok [OF inv])
    have "map (\<lambda>j. ?line (ui_nodes ?u ! j)) [0..<ui_index ?u] = map ?line (take (ui_index ?u) (ui_nodes ?u))"
      using u by (auto intro: nth_equalityI simp: user_ok_def)
    moreover have "length (?line nd) < 256" if "nd \<in> set (take (ui_index ?u) (ui_nodes ?u))" for nd
    proof -
      have "length (ni_name nd) \<le> 60" "ni_line nd \<in> {''on'', ''off''}"
        using that u short nth_mem [OF al] by (auto simp: short_names_def user_ok_def node_ok_def num_consts)
      then show ?thesis by (auto simp: nodeinfo_line_def crlf_def)
    qed
    ultimately show ?thesis
      using that [of us'] f s Some deref_addr [OF s Some] by (simp add: getAllNodeInfo_def print_all_ok)
  qed
qed

end
