(* ===== verification/Rand.thy ===== *)
theory Rand
  imports Prelude
begin

text \<open>
  The random numbers of the server (\<^verbatim>\<open>server/src/rand.c\<close>): a linear congruential generator
  modulo \<open>2\<^sup>4\<^sup>8\<close>, computed in three 16-bit limbs held in 32-bit words.
\<close>

section \<open>The generator\<close>

record rand48 =
  r_x0 :: u32
  r_x1 :: u32
  r_x2 :: u32
  r_a0 :: u32
  r_a1 :: u32
  r_a2 :: u32
  r_c :: u32

definition LOW :: "u32 \<Rightarrow> u32" where
  "LOW x = x AND 0xFFFF"

definition HIGH :: "u32 \<Rightarrow> u32" where
  "HIGH x = LOW (signed_drop_bit 16 x)"

definition MUL :: "u32 \<Rightarrow> u32 \<Rightarrow> u32 \<times> u32" where
  "MUL x y = (let l = ucast ((ucast x :: 64 word) * ucast y) :: u32 in (LOW l, HIGH l))"

definition CARRY :: "u32 \<Rightarrow> u32 \<Rightarrow> u32" where
  "CARRY x y = (if sint x + uint y > 0xFFFF then 1 else 0)"

text \<open>The new value and the carry.\<close>

definition ADDEQU :: "u32 \<Rightarrow> u32 \<Rightarrow> u32 \<times> u32" where
  "ADDEQU x y = (LOW (x + y), CARRY x y)"

definition rand_state :: rand48 where
  "rand_state = \<lparr>r_x0 = 0x330E, r_x1 = 0xABCD, r_x2 = 0x1234, r_a0 = 0xE66D, r_a1 = 0xDEEC, r_a2 = 0x5, r_c = 0xB\<rparr>"

definition rand_next :: "rand48 \<Rightarrow> rand48" where
  "rand_next g = (
     let (p0, p1) = MUL (r_a0 g) (r_x0 g);
         (p0, carry0) = ADDEQU p0 (r_c g);
         (p1, carry1) = ADDEQU p1 carry0;
         (q0, q1) = MUL (r_a0 g) (r_x1 g);
         (p1, carry0) = ADDEQU p1 q0;
         (r0, r1) = MUL (r_a1 g) (r_x0 g);
         x2 = LOW (carry0 + carry1 + CARRY p1 r0 + q1 + r1 + r_a0 g * r_x2 g + r_a1 g * r_x1 g + r_a2 g * r_x0 g);
         x1 = LOW (p1 + r0);
         x0 = LOW p0
     in g\<lparr>r_x0 := x0, r_x1 := x1, r_x2 := x2\<rparr>)"

definition redisLrand48 :: "rand48 \<Rightarrow> int \<times> rand48" where
  "redisLrand48 g = (let g = rand_next g in (sint (push_bit 15 (r_x2 g) + drop_bit 1 (r_x1 g)), g))"

definition redisSrand48 :: "u32 \<Rightarrow> rand48 \<Rightarrow> rand48" where
  "redisSrand48 seedval g = g\<lparr>r_x0 := 0x330E, r_x1 := LOW seedval, r_x2 := HIGH seedval,
     r_a0 := 0xE66D, r_a1 := 0xDEEC, r_a2 := 0x5, r_c := 0xB\<rparr>"

section \<open>The limbs as one number\<close>

definition limbs :: "nat \<Rightarrow> nat \<Rightarrow> nat \<Rightarrow> nat \<Rightarrow> nat" where
  "limbs N x0 x1 x2 = x0 + N * x1 + N * N * x2"

definition rand_value :: "rand48 \<Rightarrow> nat" where
  "rand_value g = limbs 65536 (unat (r_x0 g)) (unat (r_x1 g)) (unat (r_x2 g))"

definition rand_ok :: "rand48 \<Rightarrow> bool" where
  "rand_ok g \<longleftrightarrow> unat (r_x0 g) < 65536 \<and> unat (r_x1 g) < 65536 \<and> unat (r_x2 g) < 65536
    \<and> r_a0 g = 0xE66D \<and> r_a1 g = 0xDEEC \<and> r_a2 g = 0x5 \<and> r_c g = 0xB"

lemma LOW_take: "LOW x = take_bit 16 x"
  by (simp add: LOW_def take_bit_eq_mask mask_eq_exp_minus_1)

lemma unat_LOW: "unat (LOW x) = unat x mod 65536"
  by (simp only: LOW_take unsigned_take_bit_eq) (simp add: take_bit_eq_mod)

lemma unat_HIGH: "unat (HIGH x) = unat x div 65536"
proof -
  have "HIGH x = drop_bit 16 x"
  proof (rule bit_word_eqI)
    fix n assume "n < LENGTH(32)"
    moreover have "\<not> bit x (16 + n)" if "16 \<le> n" using that bit_imp_le_length [of x "16 + n"] by auto
    ultimately show "bit (HIGH x) n = bit (drop_bit 16 x) n"
      by (auto simp: HIGH_def LOW_take bit_simps bit_signed_drop_bit_iff)
  qed
  then have "HIGH x = x div 65536" by (simp add: drop_bit_eq_div)
  then show ?thesis by (simp add: unat_div)
qed

lemma MUL_limbs:
  assumes "unat x < 65536" "unat y < 65536" "MUL x y = (lo, hi)"
  shows "unat lo = unat x * unat y mod 65536" "unat hi = unat x * unat y div 65536"
proof -
  have "unat x * unat y \<le> 65535 * 65535" using assms by (intro mult_le_mono) simp_all
  then have p: "unat x * unat y < 2 ^ 32" by simp
  have u: "unat (ucast z :: 64 word) = unat z" for z :: u32
    using unsigned_less [of z, where ?'a = nat] by (simp add: unsigned_ucast_eq take_bit_eq_mod)
  have "unat ((ucast x :: 64 word) * ucast y) = unat x * unat y"
    using p by (simp add: unat_word_ariths u)
  then have "unat (ucast ((ucast x :: 64 word) * ucast y) :: u32) = unat x * unat y"
    using p by (simp add: unsigned_ucast_eq take_bit_eq_mod)
  then show "unat lo = unat x * unat y mod 65536" "unat hi = unat x * unat y div 65536"
    using assms(3) by (auto simp: MUL_def Let_def unat_LOW unat_HIGH)
qed

lemma CARRY_limbs:
  assumes "unat x < 65536" "unat y < 65536"
  shows "unat (CARRY x y) = (unat x + unat y) div 65536"
proof -
  have u: "uint x = int (unat x)" "uint y = int (unat y)" by (rule uint_nat)+
  have "- (2 ^ 31) \<le> uint x" by (rule order.trans [of _ 0]) simp_all
  moreover have "uint x < 65536" using u(1) assms(1) by linarith
  then have "uint x < 2 ^ 31" by simp
  ultimately have "signed_take_bit 31 (uint x) = uint x" by (rule signed_take_bit_int_eq_self)
  then have "sint x = uint x" by (simp add: sint_uint)
  then have "sint x + uint y > 0xFFFF \<longleftrightarrow> unat x + unat y \<ge> 65536" using u by linarith
  moreover have "n div 65536 = (if n \<ge> 65536 then 1 else 0)" if "n < 2 * 65536" for n :: nat
    using that div_nat_eqI [of 65536 1 n] by auto
  moreover have "unat x + unat y < 2 * 65536" using assms by linarith
  ultimately show ?thesis by (simp add: CARRY_def)
qed

lemma ADDEQU_limbs:
  assumes "unat x < 65536" "unat y < 65536" "ADDEQU x y = (s, k)"
  shows "unat s = (unat x + unat y) mod 65536" "unat k = (unat x + unat y) div 65536"
  using assms CARRY_limbs [OF assms(1,2)] by (auto simp: ADDEQU_def unat_LOW unat_word_ariths)

section \<open>One step\<close>

text \<open>The schoolbook multiplication of the limbs, with its carries.\<close>

lemma limbs_bound:
  assumes "a < N" "b < N" "c < N"
  shows "limbs N a b c < N * N * N"
proof -
  have "limbs N a b c \<le> (N - 1) + N * (N - 1) + N * N * (N - 1)"
    unfolding limbs_def using assms by (intro add_mono mult_le_mono) simp_all
  also have "\<dots> < N * N * N" using assms by (cases N) (simp_all add: algebra_simps)
  finally show ?thesis .
qed

lemma limbs_sum:
  fixes p q r :: nat
  assumes "p = N * p1 + p0" "q = N * q1 + q0" "r = N * r1 + r0"
    and "p0 + c = N * k0 + z0" "p1 + k0 = N * k1 + y1" "y1 + q0 = N * k2 + y2"
    and "y2 + r0 = N * k3 + z1" "k2 + k1 + k3 + q1 + r1 + t = N * k4 + z2"
  shows "p + N * (q + r) + N * N * t + c = limbs N z0 z1 z2 + N * N * N * k4"
  using assms unfolding limbs_def by algebra

lemma limbs_step:
  fixes x0 x1 x2 a0 a1 a2 c :: nat
  assumes pq: "p = a0 * x0" "q = a0 * x1" "r = a1 * x0" "t = a0 * x2 + a1 * x1 + a2 * x0" and N: "0 < N"
    and s: "s0 = p mod N + c" "s1 = p div N + s0 div N" "s2 = s1 mod N + q mod N"
      "s3 = s2 mod N + r mod N" "s4 = s2 div N + s1 div N + s3 div N + q div N + r div N + t"
  shows "limbs N (s0 mod N) (s3 mod N) (s4 mod N) = (limbs N a0 a1 a2 * limbs N x0 x1 x2 + c) mod (N * N * N)"
proof -
  define u where "u = a1 * x2 + a2 * x1 + N * (a2 * x2)"
  have prod: "limbs N a0 a1 a2 * limbs N x0 x1 x2 = p + N * (q + r) + N * N * t + N * N * N * u"
    unfolding limbs_def u_def pq by (simp add: algebra_simps)
  note dm = mult_div_mod_eq [of N, symmetric]
  define v where "v = limbs N (s0 mod N) (s3 mod N) (s4 mod N)"
  have "p + N * (q + r) + N * N * t + c = v + N * N * N * (s4 div N)"
    unfolding v_def
  proof (rule limbs_sum [OF dm dm dm])
    show "p mod N + c = N * (s0 div N) + s0 mod N" using dm [of s0] s(1) by (simp only:)
    show "p div N + s0 div N = N * (s1 div N) + s1 mod N" using dm [of s1] s(2) by (simp only:)
    show "s1 mod N + q mod N = N * (s2 div N) + s2 mod N" using dm [of s2] s(3) by (simp only:)
    show "s2 mod N + r mod N = N * (s3 div N) + s3 mod N" using dm [of s3] s(4) by (simp only:)
    show "s2 div N + s1 div N + s3 div N + q div N + r div N + t = N * (s4 div N) + s4 mod N"
      using dm [of s4] s(5) by (simp only:)
  qed
  then have "limbs N a0 a1 a2 * limbs N x0 x1 x2 + c = v + N * N * N * (s4 div N + u)"
    using prod by (simp add: algebra_simps)
  moreover have "v < N * N * N" unfolding v_def using N by (intro limbs_bound) simp_all
  ultimately show ?thesis by (simp add: v_def)
qed

lemma LOW_of_nat: "unat (LOW (of_nat n)) = n mod 65536"
  by (simp add: unat_LOW unat_of_nat mod_mod_cancel)

lemma product_div: "a < N \<Longrightarrow> x < N \<Longrightarrow> a * x div N < (N :: nat)"
proof -
  assume "a < N" "x < N"
  then have "a * x < N * N" by (intro mult_strict_mono) auto
  then show ?thesis by (simp add: less_mult_imp_div_less)
qed

lemma rand_next_value:
  assumes "rand_ok g"
  shows "rand_ok (rand_next g) \<and> rand_value (rand_next g) = (0x5DEECE66D * rand_value g + 0xB) mod 2 ^ 48"
proof -
  let ?a0 = "unat (r_a0 g)" and ?a1 = "unat (r_a1 g)" and ?a2 = "unat (r_a2 g)" and ?c = "unat (r_c g)"
  let ?x0 = "unat (r_x0 g)" and ?x1 = "unat (r_x1 g)" and ?x2 = "unat (r_x2 g)" and ?N = "65536 :: nat"
  have ok: "?x0 < ?N" "?x1 < ?N" "?x2 < ?N" "?a0 < ?N" "?a1 < ?N" "?c < ?N" using assms by (simp_all add: rand_ok_def)
  obtain p0 p1 where p: "MUL (r_a0 g) (r_x0 g) = (p0, p1)" by fastforce
  obtain p0' k0 where 0: "ADDEQU p0 (r_c g) = (p0', k0)" by fastforce
  obtain p1' k1 where 1: "ADDEQU p1 k0 = (p1', k1)" by fastforce
  obtain q0 q1 where q: "MUL (r_a0 g) (r_x1 g) = (q0, q1)" by fastforce
  obtain p1'' k2 where 2: "ADDEQU p1' q0 = (p1'', k2)" by fastforce
  obtain r0 r1 where r: "MUL (r_a1 g) (r_x0 g) = (r0, r1)" by fastforce
  note P = MUL_limbs [OF ok(4,1) p] and Q = MUL_limbs [OF ok(4,2) q] and R = MUL_limbs [OF ok(5,1) r]
  have lt: "unat p0 < ?N" "unat p1 < ?N" "unat q0 < ?N" "unat r0 < ?N"
    using P Q R ok product_div [of ?a0 ?N ?x0] by simp_all
  note S0 = ADDEQU_limbs [OF lt(1) ok(6) 0]
  have "unat k0 < ?N" unfolding S0(2) using lt(1) ok(6) by (simp add: less_mult_imp_div_less)
  note S1 = ADDEQU_limbs [OF lt(2) this 1]
  have "unat p1' < ?N" unfolding S1(1) by simp
  note S2 = ADDEQU_limbs [OF this lt(3) 2]
  have "unat p1'' < ?N" unfolding S2(1) by simp
  note S3 = CARRY_limbs [OF this lt(4)]
  define s0 s1 s2 s3 where "s0 = unat p0 + ?c" and "s1 = unat p1 + s0 div ?N" and "s2 = s1 mod ?N + unat q0"
    and "s3 = s2 mod ?N + unat r0"
  define s4 where "s4 = s2 div ?N + s1 div ?N + s3 div ?N + unat q1 + unat r1 + (?a0 * ?x2 + ?a1 * ?x1 + ?a2 * ?x0)"
  note s = s0_def s1_def s2_def s3_def s4_def
  have e0: "s0 div ?N = unat k0" using S0 by (simp add: s0_def)
  have e1: "s1 div ?N = unat k1" "s1 mod ?N = unat p1'" using S1 by (simp_all add: s1_def e0)
  have e2: "s2 div ?N = unat k2" "s2 mod ?N = unat p1''" using S2 by (simp_all add: s2_def e1)
  have e3: "s3 div ?N = unat (CARRY p1'' r0)" using S3 by (simp add: s3_def e2)
  have k: "k2 + k1 + CARRY p1'' r0 + q1 + r1 + r_a0 g * r_x2 g + r_a1 g * r_x1 g + r_a2 g * r_x0 g = of_nat s4"
    "p1'' + r0 = of_nat s3"
    by (simp_all add: s4_def e1 e2 e3, simp add: s3_def e2)
  have n: "rand_next g = g\<lparr>r_x0 := LOW p0', r_x1 := LOW (of_nat s3), r_x2 := LOW (of_nat s4)\<rparr>"
    by (simp add: rand_next_def p q r 0 1 2 k Let_def)
  have x0: "unat (LOW p0') = s0 mod ?N" by (simp add: unat_LOW S0 s0_def)
  have "limbs ?N (s0 mod ?N) (s3 mod ?N) (s4 mod ?N) = (limbs ?N ?a0 ?a1 ?a2 * limbs ?N ?x0 ?x1 ?x2 + ?c) mod (?N * ?N * ?N)"
    by (rule limbs_step [where ?s1.0 = s1 and ?s2.0 = s2, OF refl refl refl refl])
      (simp, unfold s P [symmetric] Q [symmetric] R [symmetric], (rule refl)+)
  moreover have "limbs ?N ?a0 ?a1 ?a2 = 0x5DEECE66D" "?c = 0xB" using assms by (simp_all add: rand_ok_def limbs_def)
  ultimately have "rand_value (rand_next g) = (0x5DEECE66D * rand_value g + 0xB) mod 2 ^ 48"
    by (simp add: n rand_value_def x0 LOW_of_nat)
  moreover have "rand_ok (rand_next g)" using assms by (simp add: rand_ok_def n x0 LOW_of_nat)
  ultimately show ?thesis by simp
qed

lemma rand_value_bits:
  assumes "rand_ok g"
  shows "sint (push_bit 15 (r_x2 g) + drop_bit 1 (r_x1 g)) = int (rand_value g div 2 ^ 17)"
    "rand_value g div 2 ^ 17 < 2 ^ 31"
proof -
  let ?x0 = "unat (r_x0 g)" and ?x1 = "unat (r_x1 g)" and ?x2 = "unat (r_x2 g)"
  have ok: "?x0 < 65536" "?x1 < 65536" "?x2 < 65536" using assms by (simp_all add: rand_ok_def)
  have "drop_bit 1 (r_x1 g) = r_x1 g div 2" "push_bit 15 (r_x2 g) = r_x2 g * 32768"
    by (simp_all add: drop_bit_eq_div push_bit_eq_mult)
  then have u: "unat (push_bit 15 (r_x2 g) + drop_bit 1 (r_x1 g)) = ?x2 * 32768 + ?x1 div 2"
    using ok by (simp add: unat_word_ariths unat_div)
  have "limbs 65536 a (2 * h + l) b = 131072 * (b * 32768 + h) + (65536 * l + a)" for a b h l
    by (simp add: limbs_def)
  from this [of ?x0 "?x1 div 2" "?x1 mod 2" ?x2]
  have "rand_value g = 131072 * (?x2 * 32768 + ?x1 div 2) + (65536 * (?x1 mod 2) + ?x0)"
    by (simp only: rand_value_def mult_div_mod_eq)
  moreover have "65536 * (?x1 mod 2) + ?x0 < 131072" using ok(1) mod_less_divisor [of 2 ?x1] by linarith
  ultimately have v: "rand_value g div 131072 = ?x2 * 32768 + ?x1 div 2" by simp
  have lt: "?x2 * 32768 + ?x1 div 2 < 2 ^ 31" using ok by simp
  show "rand_value g div 2 ^ 17 < 2 ^ 31" using v lt by simp
  let ?w = "push_bit 15 (r_x2 g) + drop_bit 1 (r_x1 g)"
  have n: "uint ?w = int (?x2 * 32768 + ?x1 div 2)" using u uint_nat [of ?w] by (simp only:)
  have "int k < 2 ^ 31 \<Longrightarrow> signed_take_bit 31 (int k) = int k" for k
    by (rule signed_take_bit_int_eq_self) (rule order.trans [of _ 0], simp_all)
  then have "signed_take_bit 31 (uint ?w) = uint ?w" unfolding n using lt by (metis of_nat_less_iff of_nat_numeral of_nat_power)
  then show "sint ?w = int (rand_value g div 2 ^ 17)" using n v by (simp add: sint_uint)
qed

text \<open>
  C30. The limb arithmetic computes the 48-bit generator of \<^verbatim>\<open>drand48\<close>: each call multiplies by
  \<^verbatim>\<open>0x5DEECE66D\<close>, adds 11, keeps 48 bits and returns the upper 31 of them, a number that is never
  negative; seeding sets the upper 32 bits.
\<close>

theorem redisLrand48_is_lcg:
  assumes "rand_ok g"
  shows "redisLrand48 g = (int (rand_value (rand_next g) div 2 ^ 17), rand_next g)
    \<and> rand_value (rand_next g) = (0x5DEECE66D * rand_value g + 0xB) mod 2 ^ 48 \<and> rand_ok (rand_next g)
    \<and> fst (redisLrand48 g) < 2 ^ 31
    \<and> rand_ok (redisSrand48 seed g) \<and> rand_value (redisSrand48 seed g) = unat seed * 2 ^ 16 + 0x330E"
proof -
  note n = rand_next_value [OF assms] and b = rand_value_bits [OF conjunct1 [OF rand_next_value [OF assms]]]
  have l: "redisLrand48 g = (int (rand_value (rand_next g) div 2 ^ 17), rand_next g)"
    using b(1) by (simp add: redisLrand48_def Let_def)
  have "unat (HIGH seed) < 65536"
    using unsigned_less [of seed, where ?'a = nat] by (simp add: unat_HIGH less_mult_imp_div_less)
  then have "rand_ok (redisSrand48 seed g)" by (simp add: rand_ok_def redisSrand48_def unat_LOW)
  moreover have "limbs 65536 0x330E l h = (65536 * h + l) * 2 ^ 16 + 0x330E" for l h by (simp add: limbs_def)
  from this [of "unat seed mod 65536" "unat seed div 65536"]
  have "rand_value (redisSrand48 seed g) = unat seed * 2 ^ 16 + 0x330E"
    unfolding mult_div_mod_eq by (simp add: rand_value_def redisSrand48_def unat_LOW unat_HIGH)
  moreover have "fst (redisLrand48 g) < 2 ^ 31" unfolding l using b(2) by simp
  ultimately show ?thesis using l n by blast
qed

theorem redisLrand48_is_lcg_witness:
  "rand_ok rand_state \<and> fst (redisLrand48 rand_state) < 2 ^ 31"
proof -
  have ok: "rand_ok rand_state" by (simp add: rand_ok_def rand_state_def)
  then show ?thesis using redisLrand48_is_lcg [OF ok] by blast
qed

end
