(* ===== verification/Mychat.thy ===== *)
theory Mychat
  imports Myuser_Inv Rand Util
begin

text \<open>
  The chat and node commands of the message server (\<^verbatim>\<open>server/src/mychat.c\<close>,
  \<^verbatim>\<open>myregister.c\<close>, \<^verbatim>\<open>mydebug.c\<close>, the queries of \<^verbatim>\<open>mydump.c\<close>) with the parts of
  \<^verbatim>\<open>networking.c\<close> that create and free a client.  A client is identified by its address, the
  list of clients is \<^verbatim>\<open>server.clients\<close> in its order, and what a client is sent is appended to
  its reply.  The MySQL server is a parameter: whether a query returns a row, and what a
  statement does to the database.  A command returns \<open>None\<close> where the code writes or reads past
  a character array, or prints through a null pointer.
\<close>

section \<open>Data\<close>

definition MYNODE_TYPE_USER :: u8 where [num_consts]: "MYNODE_TYPE_USER = 0"
definition MYNODE_TYPE_NODE :: u8 where [num_consts]: "MYNODE_TYPE_NODE = 1"
definition MYCHAT_MAX_MESSAGE :: nat where [num_consts]: "MYCHAT_MAX_MESSAGE = 70"
definition MY_REDIS_ROOT_NAME :: string where "MY_REDIS_ROOT_NAME = ''root''"

record redisClient =
  c_addr :: nat
  c_userid :: string
  c_username :: string
  c_password :: string
  c_nodename :: string
  c_isvaliduser :: bool
  c_isvalidnode :: bool
  c_mynode_type :: u8
  c_lastinteraction :: int
  c_reply :: string

record 'm server =
  sv_clients :: "redisClient list"
  sv_users :: users
  sv_db :: 'm
  sv_unixtime :: int
  sv_hz :: nat
  sv_maxidletime :: int
  sv_rand :: rand48

record 'm mysql =
  my_row :: "'m \<Rightarrow> string \<Rightarrow> bool"
  my_run :: "'m \<Rightarrow> string \<Rightarrow> 'm"

definition errChatInvalidUser :: string where "errChatInvalidUser = ''chat fail invalidUser'' @ crlf"
definition errChatTooBigMsg :: string where "errChatTooBigMsg = ''chat fail tooBigMessage'' @ crlf"
definition errWrongNameOrPwd :: string where "errWrongNameOrPwd = ''login fail wrongNameOrPasswd'' @ crlf"
definition errAlreadyLogin :: string where "errAlreadyLogin = ''login fail alreadyLogin'' @ crlf"
definition errTooManyNodes :: string where "errTooManyNodes = ''login fail tooManyNode'' @ crlf"
definition errNodeNoLogin :: string where "errNodeNoLogin = ''node fail nologin'' @ crlf"

section \<open>Clients\<close>

definition client :: "nat \<Rightarrow> 'm server \<Rightarrow> redisClient option" where
  "client c sv = find (\<lambda>x. c_addr x = c) (sv_clients sv)"

definition upd_client :: "nat \<Rightarrow> (redisClient \<Rightarrow> redisClient) \<Rightarrow> 'm server \<Rightarrow> 'm server" where
  "upd_client c f sv = sv\<lparr>sv_clients := map (\<lambda>x. if c_addr x = c then f x else x) (sv_clients sv)\<rparr>"

definition addReplyString :: "nat \<Rightarrow> string \<Rightarrow> 'm server \<Rightarrow> 'm server" where
  "addReplyString c s sv = upd_client c (\<lambda>x. x\<lparr>c_reply := c_reply x @ s\<rparr>) sv"

text \<open>
  The fields that \<^verbatim>\<open>createClient\<close> sets; \<^verbatim>\<open>mynode_type\<close> is not among them and keeps what the
  allocated memory held.
\<close>

definition createClient :: "nat \<Rightarrow> u8 \<Rightarrow> 'm server \<Rightarrow> 'm server" where
  "createClient c junk sv = sv\<lparr>sv_clients := sv_clients sv @
    [\<lparr>c_addr = c, c_userid = [], c_username = [], c_password = [], c_nodename = [],
      c_isvaliduser = False, c_isvalidnode = False, c_mynode_type = junk,
      c_lastinteraction = sv_unixtime sv, c_reply = []\<rparr>]\<rparr>"

section \<open>Sending to clients\<close>

definition receives :: "string \<Rightarrow> u8 \<Rightarrow> redisClient \<Rightarrow> bool" where
  "receives to toType x \<longleftrightarrow> c_mynode_type x = toType
    \<and> \<not> (toType = MYNODE_TYPE_NODE \<and> to \<noteq> ''all'' \<and> c_nodename x \<noteq> to)
    \<and> \<not> (toType = MYNODE_TYPE_USER \<and> to \<noteq> ''all'' \<and> c_username x \<noteq> to)"

definition message_line :: "string \<Rightarrow> string \<Rightarrow> string \<Rightarrow> string" where
  "message_line tag from message = tag @ '' ok '' @ from @ '' '' @ message @ crlf"

text \<open>
  \<^verbatim>\<open>snprintf\<close> returns the length of the whole line; when that exceeds the 1024 characters of
  the buffer, \<^verbatim>\<open>addReplyString\<close> reads past it.
\<close>

fun chatSend_loop :: "string \<Rightarrow> string \<Rightarrow> u8 \<Rightarrow> redisClient list \<Rightarrow> redisClient list option" where
  "chatSend_loop line to toType [] = Some []"
| "chatSend_loop line to toType (x # xs) = do {
    x \<leftarrow> (if \<not> receives to toType x then Some x
         else if length line < 1024 then Some (x\<lparr>c_reply := c_reply x @ line\<rparr>) else None);
    xs \<leftarrow> chatSend_loop line to toType xs;
    Some (x # xs)
  }"

definition chatSend :: "string \<Rightarrow> string \<Rightarrow> string \<Rightarrow> string \<Rightarrow> u8 \<Rightarrow> 'm server \<Rightarrow> 'm server option" where
  "chatSend tag from to message toType sv = do {
    cs \<leftarrow> chatSend_loop (message_line tag from message) to toType (sv_clients sv);
    Some (sv\<lparr>sv_clients := cs\<rparr>)
  }"

definition set_user_line :: "string \<Rightarrow> string \<Rightarrow> 'm server \<Rightarrow> 'm server option" where
  "set_user_line username state sv = do {
    (us, _) \<leftarrow> chatSetOrGetUserInfo username state OPERATION_SET_INFO (sv_users sv);
    Some (sv\<lparr>sv_users := us\<rparr>)
  }"

definition set_node_state :: "string \<Rightarrow> string \<Rightarrow> string \<Rightarrow> 'm server \<Rightarrow> 'm server option" where
  "set_node_state username nodename state sv = do {
    (us, _) \<leftarrow> chatSetOrGetNodeInfo username nodename state OPERATION_SET_INFO (sv_users sv);
    Some (sv\<lparr>sv_users := us\<rparr>)
  }"

definition chatNotifyUserInfo :: "nat \<Rightarrow> 'm server \<Rightarrow> 'm server option" where
  "chatNotifyUserInfo c sv = do {
    x \<leftarrow> client c sv;
    if \<not> c_isvaliduser x \<or> \<not> c_isvalidnode x then Some sv
    else if c_mynode_type x = MYNODE_TYPE_USER then do {
      sv \<leftarrow> chatSend ''userinfo'' (c_username x) ''all'' ''off'' MYNODE_TYPE_USER sv;
      set_user_line (c_username x) ''off'' sv
    }
    else if c_mynode_type x = MYNODE_TYPE_NODE then do {
      sv \<leftarrow> chatSend ''nodeinfo'' (c_nodename x) (c_username x) ''off'' MYNODE_TYPE_USER sv;
      set_node_state (c_username x) (c_nodename x) ''off'' sv
    }
    else Some sv
  }"

text \<open>The part of \<^verbatim>\<open>freeClient\<close> that concerns users and nodes, and the removal from the list.\<close>

definition freeClient :: "nat \<Rightarrow> 'm server \<Rightarrow> 'm server option" where
  "freeClient c sv = do {
    sv \<leftarrow> chatNotifyUserInfo c sv;
    Some (sv\<lparr>sv_clients := filter (\<lambda>x. c_addr x \<noteq> c) (sv_clients sv)\<rparr>)
  }"

section \<open>Database queries\<close>

definition login_query :: "string \<Rightarrow> string \<Rightarrow> string" where
  "login_query name password = ''select  *  from alluser where name='' @ sq @ name @ sq @
     '' and password='' @ sq @ password @ sq @ '' ;''"

definition is_valid_user :: "'m mysql \<Rightarrow> string \<Rightarrow> string \<Rightarrow> 'm server \<Rightarrow> bool option" where
  "is_valid_user my name password sv = do {
    query \<leftarrow> store_str 256 (login_query name password);
    Some (my_row my (sv_db sv) query)
  }"

text \<open>The variable \<^verbatim>\<open>t\<close> that \<^verbatim>\<open>mysql_is_exist\<close> tests is never assigned; its value is an argument.\<close>

definition mysql_is_exist :: "'m mysql \<Rightarrow> bool \<Rightarrow> string \<Rightarrow> 'm server \<Rightarrow> bool" where
  "mysql_is_exist my t cmd sv = (if t then True else my_row my (sv_db sv) cmd)"

definition mysqlRunCommand :: "'m mysql \<Rightarrow> string \<Rightarrow> 'm server \<Rightarrow> 'm server" where
  "mysqlRunCommand my cmd sv = sv\<lparr>sv_db := my_run my (sv_db sv) cmd\<rparr>"

section \<open>Chat\<close>

definition chatSay :: "nat \<Rightarrow> string \<Rightarrow> string \<Rightarrow> 'm server \<Rightarrow> 'm server option" where
  "chatSay c to message sv = do {
    x \<leftarrow> client c sv;
    if \<not> c_isvaliduser x then Some (addReplyString c errChatInvalidUser sv)
    else if length message > MYCHAT_MAX_MESSAGE then Some (addReplyString c errChatTooBigMsg sv)
    else chatSend ''chat'' (c_username x) to message MYNODE_TYPE_USER sv
  }"

definition chat_user_info :: "nat \<Rightarrow> 'm server \<Rightarrow> 'm server option" where
  "chat_user_info c sv = do {
    ls \<leftarrow> chatUserInfo (sv_users sv);
    Some (foldl (\<lambda>sv l. addReplyString c l sv) sv ls)
  }"

definition node_infos :: "nat \<Rightarrow> string \<Rightarrow> 'm server \<Rightarrow> 'm server option" where
  "node_infos c username sv = do {
    (us, ls) \<leftarrow> getAllNodeInfo username (sv_users sv);
    Some (foldl (\<lambda>sv l. addReplyString c l sv) (sv\<lparr>sv_users := us\<rparr>) ls)
  }"

definition login_refused :: "nat \<Rightarrow> string \<Rightarrow> 'm server \<Rightarrow> 'm server" where
  "login_refused c err sv =
    upd_client c (\<lambda>x. x\<lparr>c_isvaliduser := False, c_isvalidnode := False\<rparr>) (addReplyString c err sv)"

text \<open>What follows when the password is right and the user is not yet on line.\<close>

definition user_admit :: "nat \<Rightarrow> string \<Rightarrow> string \<Rightarrow> 'm server \<Rightarrow> 'm server option" where
  "user_admit c name password sv = do {
    let sv = upd_client c (\<lambda>x. x\<lparr>c_isvaliduser := True, c_isvalidnode := True,
      c_mynode_type := MYNODE_TYPE_USER\<rparr>) sv;
    sv \<leftarrow> set_user_line name ''on'' sv;
    sv \<leftarrow> chatSend ''userinfo'' name ''all'' ''on'' MYNODE_TYPE_USER sv;
    username \<leftarrow> store_str MY_NAME_LENGTH name;
    pwd \<leftarrow> store_str MY_NAME_LENGTH password;
    let sv = upd_client c (\<lambda>x. x\<lparr>c_username := username, c_password := pwd\<rparr>) sv;
    (us, userid) \<leftarrow> getUseridByName username (sv_users sv);
    userid \<leftarrow> userid;
    buf \<leftarrow> store_str 256 (''login ok '' @ userid @ crlf);
    let sv = addReplyString c buf (sv\<lparr>sv_users := us\<rparr>);
    sv \<leftarrow> node_infos c username sv;
    chat_user_info c sv
  }"

definition chatLogin :: "'m mysql \<Rightarrow> nat \<Rightarrow> string \<Rightarrow> string \<Rightarrow> 'm server \<Rightarrow> 'm server option" where
  "chatLogin my c name password sv = do {
    x \<leftarrow> client c sv;
    if c_isvaliduser x \<or> c_isvalidnode x then Some (addReplyString c errAlreadyLogin sv)
    else do {
      ret \<leftarrow> is_valid_user my name password sv;
      if \<not> ret then Some (login_refused c errWrongNameOrPwd sv)
      else do {
        (us, state) \<leftarrow> chatSetOrGetUserInfo name [] OPERATION_GET_INFO (sv_users sv);
        let sv = sv\<lparr>sv_users := us\<rparr>;
        if state = ''on'' then Some (login_refused c errAlreadyLogin sv)
        else user_admit c name password sv
      }
    }
  }"

section \<open>Nodes\<close>

definition insert_node_query :: "string \<Rightarrow> string \<Rightarrow> string" where
  "insert_node_query userid nodename = ''insert into node values('' @ sq @ userid @ sq @ '', '' @ sq
     @ nodename @ sq @ '',  '' @ sq @ ''0'' @ sq @ '','' @ sq @ ''0'' @ sq @ '');''"

text \<open>What follows when the identifier is known and the node not yet on line.\<close>

definition node_admit :: "'m mysql \<Rightarrow> nat \<Rightarrow> string \<Rightarrow> string \<Rightarrow> string \<Rightarrow> 'm server \<Rightarrow> 'm server option" where
  "node_admit my c userid nodename username sv = do {
    (us, retInsertNode) \<leftarrow> insertNodeToUserInfo username nodename (sv_users sv);
    let sv = sv\<lparr>sv_users := us\<rparr>;
    if retInsertNode = -1 then Some (login_refused c errTooManyNodes sv)
    else do {
      sv \<leftarrow> (if retInsertNode = 1 then do {
          cmd \<leftarrow> store_str 256 (insert_node_query userid nodename);
          Some (mysqlRunCommand my cmd sv)
        } else Some sv);
      buf \<leftarrow> store_str 256 (''login ok '' @ username @ crlf);
      uid \<leftarrow> store_str MY_NAME_LENGTH userid;
      nm \<leftarrow> store_str MY_NAME_LENGTH nodename;
      let sv = upd_client c (\<lambda>x. x\<lparr>c_isvaliduser := True, c_isvalidnode := True,
        c_mynode_type := MYNODE_TYPE_NODE, c_username := username, c_userid := uid,
        c_nodename := nm\<rparr>) (addReplyString c buf sv);
      sv \<leftarrow> chatSend ''nodeinfo'' nm username ''on'' MYNODE_TYPE_USER sv;
      set_node_state username nm ''on'' sv
    }
  }"

definition nodeLogin :: "'m mysql \<Rightarrow> nat \<Rightarrow> string \<Rightarrow> string \<Rightarrow> 'm server \<Rightarrow> 'm server option" where
  "nodeLogin my c userid nodename sv = do {
    x \<leftarrow> client c sv;
    if c_isvaliduser x \<or> c_isvalidnode x then Some (addReplyString c errAlreadyLogin sv)
    else do {
      username \<leftarrow> getNameByUserid userid (sv_users sv);
      case username of None \<Rightarrow> Some (login_refused c errWrongNameOrPwd sv)
      | Some username \<Rightarrow> do {
          (us, nodesize) \<leftarrow> getUserNodeSize username (sv_users sv);
          (us, state) \<leftarrow> chatSetOrGetNodeInfo (c_username x) (c_nodename x) [] OPERATION_GET_INFO us;
          let sv = sv\<lparr>sv_users := us\<rparr>;
          if state = ''on'' then Some (login_refused c errAlreadyLogin sv)
          else node_admit my c userid nodename username sv
        }
    }
  }"

definition nodeSay :: "nat \<Rightarrow> string \<Rightarrow> string \<Rightarrow> 'm server \<Rightarrow> 'm server option" where
  "nodeSay c to message sv = do {
    x \<leftarrow> client c sv;
    if c_mynode_type x = MYNODE_TYPE_USER
    then chatSend ''node'' (c_username x) to message MYNODE_TYPE_NODE sv
    else if c_mynode_type x = MYNODE_TYPE_NODE
    then chatSend ''node'' (c_nodename x) (c_username x) message MYNODE_TYPE_USER sv
    else Some sv
  }"

definition heartbeat :: "nat \<Rightarrow> 'm server \<Rightarrow> 'm server" where
  "heartbeat c sv = upd_client c (\<lambda>x. x\<lparr>c_lastinteraction := sv_unixtime sv\<rparr>) sv"

definition nodeCommand :: "'m mysql \<Rightarrow> nat \<Rightarrow> string \<Rightarrow> string \<Rightarrow> string \<Rightarrow> 'm server \<Rightarrow> 'm server option" where
  "nodeCommand my c argv1 argv2 argv3 sv = (
    if argv1 = ''login'' then nodeLogin my c argv2 argv3 sv
    else do {
      x \<leftarrow> client c sv;
      if \<not> c_isvalidnode x then Some (addReplyString c errNodeNoLogin sv)
      else if argv1 = ''say'' then nodeSay c argv2 argv3 sv
      else if argv1 = ''heartbeat'' then Some (heartbeat c sv)
      else Some sv
    })"

section \<open>Administration\<close>

text \<open>\<^verbatim>\<open>%-ns\<close>: text padded with blanks on the right.\<close>

definition pad :: "nat \<Rightarrow> string \<Rightarrow> string" where
  "pad n s = s @ replicate (n - length s) CHR '' ''"

definition listRotate_clients :: "redisClient list \<Rightarrow> redisClient list" where
  "listRotate_clients xs = (if length xs \<le> 1 then xs else last xs # butlast xs)"

definition dump_client_line :: "redisClient \<Rightarrow> string" where
  "dump_client_line x = ''type:'' @ pad 5 (show_nat (unat (c_mynode_type x))) @ ''  name :'' @ pad 15 (c_username x)
     @ '' id:'' @ pad 40 (c_userid x) @ '' nodename:'' @ pad 15 (c_nodename x) @ '' '' @ crlf"

fun dumpClients_loop :: "nat \<Rightarrow> nat \<Rightarrow> 'm server \<Rightarrow> 'm server option" where
  "dumpClients_loop c 0 sv = Some sv"
| "dumpClients_loop c (Suc n) sv = do {
    let sv = sv\<lparr>sv_clients := listRotate_clients (sv_clients sv)\<rparr>;
    buf \<leftarrow> store_str 256 (dump_client_line (hd (sv_clients sv)));
    dumpClients_loop c n (addReplyString c buf sv)
  }"

definition dumpClients :: "nat \<Rightarrow> 'm server \<Rightarrow> 'm server option" where
  "dumpClients c sv =
    dumpClients_loop c (length (sv_clients sv))
      (addReplyString c ('' total '' @ pad 6 (show_nat (length (sv_clients sv))) @ '' client on line'' @ crlf) sv)"

definition dump_user_lines :: "MyNodeUserInfo \<Rightarrow> string list" where
  "dump_user_lines u = (''username : '' @ pad 25 (ui_name u) @ '' and userid : '' @ pad 25 (ui_userid u) @ crlf @ '' '')
     # map (\<lambda>nd. ''-----nodename : '' @ pad 20 (ni_name nd) @ ''  line :'' @ pad 5 (ni_line nd) @ crlf)
         (take (ui_index u) (ui_nodes u))"

partial_function (option) dumpAlluser_loop :: "64 word \<times> 64 word \<Rightarrow> nat \<Rightarrow> (string, nat) dictIterator
    \<Rightarrow> 'm server \<Rightarrow> ((string, nat) dictIterator \<times> 'm server) option" where
  "dumpAlluser_loop addrs c di sv = (
    let us = sv_users sv;
        (d, di, de) = dictNext addrs (us_dict us) di;
        us = us\<lparr>us_dict := d\<rparr>;
        sv = sv\<lparr>sv_users := us\<rparr>
    in case de of None \<Rightarrow> Some (di, sv)
       | Some de \<Rightarrow> do {
           a \<leftarrow> de_val de;
           u \<leftarrow> deref us a;
           ls \<leftarrow> print_all (dump_user_lines u);
           dumpAlluser_loop addrs c di (foldl (\<lambda>sv l. addReplyString c l sv) sv ls)
         })"

definition dumpAlluser :: "64 word \<times> 64 word \<Rightarrow> nat \<Rightarrow> 'm server \<Rightarrow> 'm server option" where
  "dumpAlluser addrs c sv = do {
    (di, sv) \<leftarrow> dumpAlluser_loop addrs c dictGetSafeIterator sv;
    d \<leftarrow> dictReleaseIterator addrs (us_dict (sv_users sv)) di;
    Some (sv\<lparr>sv_users := (sv_users sv)\<lparr>us_dict := d\<rparr>\<rparr>)
  }"

definition myDebugEntry :: "64 word \<times> 64 word \<Rightarrow> nat \<Rightarrow> 'm server \<Rightarrow> 'm server option" where
  "myDebugEntry addrs c sv = do {
    x \<leftarrow> client c sv;
    if c_username x \<noteq> MY_REDIS_ROOT_NAME then Some sv
    else do {
      sv \<leftarrow> dumpClients c sv;
      dumpAlluser addrs c sv
    }
  }"

definition myAddUser :: "bool \<Rightarrow> nat \<Rightarrow> string \<Rightarrow> string \<Rightarrow> 'm server \<Rightarrow> 'm server option" where
  "myAddUser can c userid username sv = do {
    x \<leftarrow> client c sv;
    if c_username x \<noteq> MY_REDIS_ROOT_NAME then Some sv
    else do {
      us \<leftarrow> insertUserInfo can userid username (sv_users sv);
      Some (sv\<lparr>sv_users := us\<rparr>)
    }
  }"

definition chatCommand :: "bool \<Rightarrow> 64 word \<times> 64 word \<Rightarrow> 'm mysql \<Rightarrow> nat \<Rightarrow> string \<Rightarrow> string \<Rightarrow> string
    \<Rightarrow> 'm server \<Rightarrow> 'm server option" where
  "chatCommand can addrs my c argv1 argv2 argv3 sv = (
    if argv1 = ''login'' then chatLogin my c argv2 argv3 sv
    else do {
      x \<leftarrow> client c sv;
      if \<not> c_isvaliduser x then Some (addReplyString c errNodeNoLogin sv)
      else if argv1 = ''say'' then chatSay c argv2 argv3 sv
      else if argv1 = ''userinfo'' then chat_user_info c sv
      else if argv1 = ''heartbeat'' then Some (heartbeat c sv)
      else if argv1 = ''debug'' then myDebugEntry addrs c sv
      else if argv1 = ''adduser'' then myAddUser can c argv2 argv3 sv
      else Some sv
    })"

section \<open>Idle clients\<close>

text \<open>
  The periodic check for time-outs.  The clients of the model are neither replication links nor
  blocked nor subscribed to channels; for those the time-out does not apply.  The second check,
  which only gives memory back, is left out.
\<close>

definition timed_out :: "'m server \<Rightarrow> redisClient \<Rightarrow> bool" where
  "timed_out sv x \<longleftrightarrow> sv_maxidletime sv \<noteq> 0 \<and> sv_unixtime sv - c_lastinteraction x > sv_maxidletime sv
     \<and> c_username x \<noteq> MY_REDIS_ROOT_NAME"

definition clientsCronHandleTimeout :: "redisClient \<Rightarrow> 'm server \<Rightarrow> 'm server option" where
  "clientsCronHandleTimeout x sv = (if timed_out sv x then freeClient (c_addr x) sv else Some sv)"

fun clientsCron_loop :: "nat \<Rightarrow> 'm server \<Rightarrow> 'm server option" where
  "clientsCron_loop 0 sv = Some sv"
| "clientsCron_loop (Suc iterations) sv = (
    if sv_clients sv = [] then Some sv
    else do {
      let sv = sv\<lparr>sv_clients := listRotate_clients (sv_clients sv)\<rparr>;
      sv \<leftarrow> clientsCronHandleTimeout (hd (sv_clients sv)) sv;
      clientsCron_loop iterations sv
    })"

definition clientsCron :: "'m server \<Rightarrow> 'm server option" where
  "clientsCron sv = (
    let numclients = length (sv_clients sv);
        iterations = numclients div (sv_hz sv * 10);
        iterations = (if iterations < 50 then (if numclients < 50 then numclients else 50) else iterations)
    in clientsCron_loop iterations sv)"

end
