(* ===== verification/Mychat_Inv.thy ===== *)
theory Mychat_Inv
  imports Mychat
begin

text \<open>
  The sessions of the message server and the invariant that ties them to the user directory:
  a user is on line exactly when one client is logged in as that user, no two clients are, a
  node that is shown on line has a client, and nobody has more nodes than fit.
\<close>

section \<open>Sessions\<close>

text \<open>A client without what it is sent and without the time of its last message.\<close>

definition strip :: "redisClient \<Rightarrow> redisClient" where
  "strip x = x\<lparr>c_reply := [], c_lastinteraction := 0\<rparr>"

definition sessions :: "'m server \<Rightarrow> redisClient list" where
  "sessions sv = map strip (sv_clients sv)"

definition user_session :: "redisClient \<Rightarrow> bool" where
  "user_session x \<longleftrightarrow> c_isvaliduser x \<and> c_mynode_type x = MYNODE_TYPE_USER"

definition node_session :: "redisClient \<Rightarrow> bool" where
  "node_session x \<longleftrightarrow> c_isvaliduser x \<and> c_mynode_type x = MYNODE_TYPE_NODE"

definition session_ok :: "users \<Rightarrow> redisClient \<Rightarrow> bool" where
  "session_ok us x \<longleftrightarrow> c_isvalidnode x = c_isvaliduser x
    \<and> length (c_userid x) \<le> MAX_PRINTABLE \<and> length (c_username x) \<le> MAX_PRINTABLE
    \<and> length (c_nodename x) \<le> MAX_PRINTABLE
    \<and> (\<not> c_isvaliduser x \<longrightarrow> c_username x = [] \<and> c_nodename x = [])
    \<and> (c_isvaliduser x \<longrightarrow> c_mynode_type x \<in> {MYNODE_TYPE_USER, MYNODE_TYPE_NODE}
         \<and> user_addr us (c_username x) \<noteq> None)
    \<and> (node_session x \<longrightarrow> node_index (c_nodename x) (us_heap us ! the (user_addr us (c_username x))) \<noteq> None)"

definition node_on :: "MyNodeUserInfo \<Rightarrow> string \<Rightarrow> bool" where
  "node_on u n \<longleftrightarrow> (case node_index n u of None \<Rightarrow> False | Some j \<Rightarrow> ni_line (ui_nodes u ! j) = ''on'')"

text \<open>A user is shown on line exactly when a client is logged in as that user.\<close>

definition lines_match :: "redisClient set \<Rightarrow> users \<Rightarrow> bool" where
  "lines_match S us \<longleftrightarrow> (\<forall>a < length (us_heap us). ui_line (us_heap us ! a) = ''on'' \<longleftrightarrow>
     (\<exists>x \<in> S. user_session x \<and> user_addr us (c_username x) = Some a))"

definition unique_users :: "redisClient set \<Rightarrow> bool" where
  "unique_users S \<longleftrightarrow> (\<forall>x \<in> S. \<forall>y \<in> S. user_session x \<longrightarrow> user_session y \<longrightarrow>
     same_name (c_username x) (c_username y) \<longrightarrow> c_addr x = c_addr y)"

definition nodes_match :: "redisClient set \<Rightarrow> users \<Rightarrow> bool" where
  "nodes_match S us \<longleftrightarrow> (\<forall>a < length (us_heap us). \<forall>n. node_on (us_heap us ! a) n \<longrightarrow>
     (\<exists>x \<in> S. node_session x \<and> user_addr us (c_username x) = Some a \<and> c_nodename x = n))"

definition sessions_inv :: "redisClient list \<Rightarrow> users \<Rightarrow> bool" where
  "sessions_inv ss us \<longleftrightarrow> distinct (map c_addr ss) \<and> (\<forall>x \<in> set ss. session_ok us x)
    \<and> lines_match (set ss) us \<and> unique_users (set ss) \<and> nodes_match (set ss) us"

definition chat_inv :: "'m server \<Rightarrow> bool" where
  "chat_inv sv \<longleftrightarrow> users_inv (sv_users sv) \<and> short_names (sv_users sv) \<and> sessions_inv (sessions sv) (sv_users sv)"

lemma strip_simps [simp]:
  "c_addr (strip x) = c_addr x" "c_userid (strip x) = c_userid x" "c_username (strip x) = c_username x"
  "c_nodename (strip x) = c_nodename x" "c_isvaliduser (strip x) = c_isvaliduser x"
  "c_isvalidnode (strip x) = c_isvalidnode x" "c_mynode_type (strip x) = c_mynode_type x"
  "user_session (strip x) = user_session x" "node_session (strip x) = node_session x"
  "session_ok us (strip x) = session_ok us x"
  by (simp_all add: strip_def user_session_def node_session_def session_ok_def)

text \<open>Changes that the invariant does not see.\<close>

definition quiet :: "'m server \<Rightarrow> 'm server \<Rightarrow> bool" where
  "quiet sv sv' \<longleftrightarrow> sessions sv' = sessions sv \<and> users_same (sv_users sv) (sv_users sv')"

lemma sessions_inv_same:
  assumes "users_same us us'" "sessions_inv ss us"
  shows "sessions_inv ss us'"
proof -
  have h: "us_heap us' = us_heap us" and a: "user_addr us' = user_addr us"
    using assms(1) users_same_addr [OF assms(1)] by (auto simp: users_same_def)
  have ok: "session_ok us' = session_ok us" by (intro ext) (simp only: session_ok_def h a)
  have "lines_match (set ss) us' = lines_match (set ss) us" "nodes_match (set ss) us' = nodes_match (set ss) us"
    by (simp_all only: lines_match_def nodes_match_def h a)
  then show ?thesis using assms(2) by (simp add: sessions_inv_def ok)
qed

lemma chat_inv_quiet: "quiet sv sv' \<Longrightarrow> chat_inv sv \<Longrightarrow> chat_inv sv'"
  unfolding quiet_def chat_inv_def using sessions_inv_same [of "sv_users sv" "sv_users sv'" "sessions sv"]
  by (simp add: short_names_def users_same_def)

lemma quiet_refl: "chat_inv sv \<Longrightarrow> quiet sv sv"
  by (simp add: quiet_def users_same_refl chat_inv_def)

lemma quiet_trans: "quiet sv sv1 \<Longrightarrow> quiet sv1 sv2 \<Longrightarrow> quiet sv sv2"
  by (simp add: quiet_def users_same_def)

lemma sessions_upd_client:
  "\<forall>x. strip (f x) = f (strip x) \<Longrightarrow>
    sessions (upd_client c f sv) = map (\<lambda>x. if c_addr x = c then f x else x) (sessions sv)"
  by (simp add: sessions_def upd_client_def)

lemma sessions_reply [simp]: "sessions (addReplyString c s sv) = sessions sv"
  by (auto simp: sessions_def upd_client_def addReplyString_def strip_def)

lemma sessions_heartbeat [simp]: "sessions (heartbeat c sv) = sessions sv"
  by (auto simp: sessions_def upd_client_def heartbeat_def strip_def)

lemma users_reply [simp]:
  "sv_users (addReplyString c s sv) = sv_users sv" "sv_users (heartbeat c sv) = sv_users sv"
  "sv_users (upd_client c f sv) = sv_users sv" "sv_db (addReplyString c s sv) = sv_db sv"
  by (simp_all add: addReplyString_def upd_client_def heartbeat_def)

lemma sessions_replies [simp]:
  "sessions (foldl (\<lambda>sv l. addReplyString c l sv) sv ls) = sessions sv"
  "sv_users (foldl (\<lambda>sv l. addReplyString c l sv) sv ls) = sv_users sv"
  by (induction ls arbitrary: sv) simp_all

lemma sessions_users [simp]: "sessions (sv\<lparr>sv_users := us\<rparr>) = sessions sv"
  by (simp add: sessions_def)

lemma client_session:
  assumes "client c sv = Some x"
  shows "strip x \<in> set (sessions sv)" "c_addr x = c"
  using assms by (auto simp: client_def sessions_def find_Some_iff)

lemma client_exists: "c \<in> c_addr ` set (sessions sv) \<Longrightarrow> \<exists>x. client c sv = Some x"
  by (cases "client c sv") (auto simp: client_def sessions_def find_None_iff)

lemma session_ok_client:
  "chat_inv sv \<Longrightarrow> client c sv = Some x \<Longrightarrow> session_ok (sv_users sv) x"
  using client_session(1) [of c sv x] by (auto simp: chat_inv_def sessions_inv_def)

section \<open>Sending\<close>

lemma chatSend_loop_ok:
  "length line < 1024 \<Longrightarrow> chatSend_loop line to ty xs =
    Some (map (\<lambda>x. if receives to ty x then x\<lparr>c_reply := c_reply x @ line\<rparr> else x) xs)"
  by (induction xs) auto

lemma chatSend_quiet:
  assumes "length (message_line tag from msg) < 1024"
  obtains sv' where "chatSend tag from to msg ty sv = Some sv'" "sessions sv' = sessions sv"
    "sv_users sv' = sv_users sv" "sv_db sv' = sv_db sv"
proof -
  have "chatSend tag from to msg ty sv = Some (sv\<lparr>sv_clients := map (\<lambda>x. if receives to ty x
      then x\<lparr>c_reply := c_reply x @ message_line tag from msg\<rparr> else x) (sv_clients sv)\<rparr>)"
    by (simp add: chatSend_def chatSend_loop_ok [OF assms])
  then show ?thesis using that by (auto simp: sessions_def strip_def)
qed

lemma message_line_short:
  "length tag \<le> 10 \<Longrightarrow> length from \<le> MAX_PRINTABLE \<Longrightarrow> length msg \<le> 900 \<Longrightarrow>
    length (message_line tag from msg) < 1024"
  by (simp add: message_line_def crlf_def num_consts)

lemma chatSend_short:
  assumes "length tag \<le> 10" "length from \<le> MAX_PRINTABLE" "length msg \<le> 900"
  shows "\<exists>sv'. chatSend tag from to msg ty sv = Some sv' \<and> sessions sv' = sessions sv
    \<and> sv_users sv' = sv_users sv \<and> sv_db sv' = sv_db sv"
  using chatSend_quiet [OF message_line_short [OF assms]] by metis

section \<open>How the line states change\<close>

lemma node_line_update [simp]:
  "node_index n (u\<lparr>ui_line := st\<rparr>) = node_index n u" "node_on (u\<lparr>ui_line := st\<rparr>) n = node_on u n"
  by (simp_all add: node_index_def node_on_def split: option.split)

lemma set_line_simps:
  assumes "a < length h"
  shows "length (set_line st a h) = length h"
    "ui_line (set_line st a h ! b) = (if b = a then st else ui_line (h ! b))"
    "ui_index (set_line st a h ! b) = ui_index (h ! b)" "ui_nodes (set_line st a h ! b) = ui_nodes (h ! b)"
    "node_index n (set_line st a h ! b) = node_index n (h ! b)"
    "node_on (set_line st a h ! b) n = node_on (h ! b) n"
proof -
  have eq: "set_line st a h ! b = (if b = a then (h ! a)\<lparr>ui_line := st\<rparr> else h ! b)"
    using assms by (cases "b = a") (simp_all add: set_line_def)
  show "length (set_line st a h) = length h"
    "ui_line (set_line st a h ! b) = (if b = a then st else ui_line (h ! b))"
    "ui_index (set_line st a h ! b) = ui_index (h ! b)" "ui_nodes (set_line st a h ! b) = ui_nodes (h ! b)"
    by (simp_all add: eq) (simp add: set_line_def)
  show "node_index n (set_line st a h ! b) = node_index n (h ! b)"
    "node_on (set_line st a h ! b) n = node_on (h ! b) n"
    by (simp_all add: eq)
qed

lemma node_index_distinct:
  assumes "user_ok u" "j < ui_index u"
  shows "node_index (ni_name (ui_nodes u ! j)) u = Some j"
proof -
  have len: "ui_index u \<le> length (ui_nodes u)" "distinct (map ni_name (take (ui_index u) (ui_nodes u)))"
    using assms(1) by (simp_all add: user_ok_def)
  obtain i where i: "node_index (ni_name (ui_nodes u ! j)) u = Some i"
    using assms(2) node_index_None [of _ u] by (metis option.exhaust)
  have "i < ui_index u" "ni_name (ui_nodes u ! i) = ni_name (ui_nodes u ! j)"
    using node_index_Some [OF i] by auto
  then have "i = j" using len assms(2) nth_eq_iff_index_eq [OF len(2), of i j] by simp
  then show ?thesis using i by simp
qed

definition upd_node :: "nat \<Rightarrow> string \<Rightarrow> MyNodeUserInfo \<Rightarrow> MyNodeUserInfo" where
  "upd_node j st u = u\<lparr>ui_nodes := (ui_nodes u)[j := (ui_nodes u ! j)\<lparr>ni_line := st\<rparr>]\<rparr>"

lemma upd_node_index: "node_index m (upd_node j st u) = node_index m u"
proof -
  have "ni_name ((ui_nodes u)[j := (ui_nodes u ! j)\<lparr>ni_line := st\<rparr>] ! i) = ni_name (ui_nodes u ! i)" for i
    by (cases "i = j"; cases "j < length (ui_nodes u)") (simp_all add: list_update_beyond)
  then show ?thesis by (simp add: upd_node_def node_index_def)
qed

lemma upd_node_on:
  assumes ok: "user_ok u" and j: "node_index n u = Some j"
  shows "node_on (upd_node j st u) m = (if m = n then st = ''on'' else node_on u m)"
proof -
  have jl: "j < length (ui_nodes u)" and jn: "ni_name (ui_nodes u ! j) = n"
    using node_index_Some [OF j] ok by (auto simp: user_ok_def)
  have nodes: "ui_nodes (upd_node j st u) = (ui_nodes u)[j := (ui_nodes u ! j)\<lparr>ni_line := st\<rparr>]"
    by (simp add: upd_node_def)
  show ?thesis
  proof (cases "node_index m u")
    case None
    then show ?thesis using j by (auto simp: node_on_def upd_node_index)
  next
    case (Some i)
    have "i = j \<longleftrightarrow> m = n" using j jn Some node_index_Some [OF Some] by (metis option.inject)
    moreover have "node_on (upd_node j st u) m \<longleftrightarrow> ni_line (ui_nodes (upd_node j st u) ! i) = ''on''"
        "node_on u m \<longleftrightarrow> ni_line (ui_nodes u ! i) = ''on''"
      using Some by (simp_all add: node_on_def upd_node_index)
    ultimately show ?thesis using jl nodes by (cases "i = j") simp_all
  qed
qed

lemma set_node_line_nth:
  "a < length h \<Longrightarrow> set_node_line n st a h ! b =
    (case node_index n (h ! a) of Some j \<Rightarrow> if b = a then upd_node j st (h ! a) else h ! b | None \<Rightarrow> h ! b)"
  by (cases "b = a") (simp_all add: set_node_line_def upd_node_def split: option.split)

lemma set_node_line_simps:
  assumes "a < length h"
  shows "length (set_node_line n st a h) = length h"
    "ui_line (set_node_line n st a h ! b) = ui_line (h ! b)"
    "node_index m (set_node_line n st a h ! b) = node_index m (h ! b)"
    "user_ok (h ! a) \<Longrightarrow> node_on (set_node_line n st a h ! b) m =
      (if b = a \<and> m = n \<and> node_index n (h ! a) \<noteq> None then st = ''on'' else node_on (h ! b) m)"
proof -
  show "length (set_node_line n st a h) = length h"
    by (simp add: set_node_line_def split: option.splits)
  show "ui_line (set_node_line n st a h ! b) = ui_line (h ! b)"
    by (simp add: set_node_line_nth [OF assms] upd_node_def split: option.split)
  show "node_index m (set_node_line n st a h ! b) = node_index m (h ! b)"
    by (simp add: set_node_line_nth [OF assms] upd_node_index split: option.split)
  assume ok: "user_ok (h ! a)"
  show "node_on (set_node_line n st a h ! b) m =
      (if b = a \<and> m = n \<and> node_index n (h ! a) \<noteq> None then st = ''on'' else node_on (h ! b) m)"
    by (cases "node_index n (h ! a)") (simp_all add: set_node_line_nth [OF assms] upd_node_on [OF ok])
qed

section \<open>Connecting, logging in and out\<close>

lemma upd_sessions_set:
  assumes "distinct (map c_addr ss)" "x0 \<in> set ss" "c_addr x0 = c"
  shows "set (map (\<lambda>x. if c_addr x = c then f x else x) ss) = insert (f x0) {x \<in> set ss. c_addr x \<noteq> c}"
    "x \<in> set ss \<Longrightarrow> c_addr x = c \<Longrightarrow> x = x0"
proof -
  show *: "x \<in> set ss \<Longrightarrow> c_addr x = c \<Longrightarrow> x = x0" for x
    using assms by (auto simp: distinct_map inj_on_def)
  show "set (map (\<lambda>x. if c_addr x = c then f x else x) ss) = insert (f x0) {x \<in> set ss. c_addr x \<noteq> c}"
    using * assms(2,3) by force
qed

lemma session_ok_mono:
  assumes "session_ok us x" "user_addr us' = user_addr us"
    and "\<And>n b. b < length (us_heap us) \<Longrightarrow> node_index n (us_heap us ! b) \<noteq> None \<Longrightarrow> node_index n (us_heap us' ! b) \<noteq> None"
  shows "session_ok us' x"
proof -
  have "node_index (c_nodename x) (us_heap us' ! the (user_addr us (c_username x))) \<noteq> None" if "node_session x"
  proof -
    have "c_isvaliduser x" using that by (simp add: node_session_def)
    then obtain b where b: "user_addr us (c_username x) = Some b" using assms(1) by (auto simp: session_ok_def)
    then have "b < length (us_heap us)" using user_addr_Some by blast
    then show ?thesis using assms(1,3) that b by (simp add: session_ok_def)
  qed
  then show ?thesis using assms(1,2) by (simp add: session_ok_def)
qed

lemma user_addr_same_name:
  "user_addr us k = Some a \<Longrightarrow> user_addr us k' = Some a \<Longrightarrow> same_name k k'"
  using user_addr_Some same_name_sym same_name_trans by meson

lemma lines_matchD:
  assumes "lines_match S us" "x \<in> S" "user_session x" "user_addr us (c_username x) = Some a"
  shows "ui_line (us_heap us ! a) = ''on''"
  using assms user_addr_Some [OF assms(4)] by (auto simp: lines_match_def)

lemma sessions_login:
  assumes inv: "sessions_inv ss us" and x0: "x0 \<in> set ss" "c_addr x0 = c" "\<not> c_isvaliduser x0"
    and f: "\<And>x. c_addr (f x) = c_addr x" and ok: "session_ok us' (f x0)"
    and addr: "user_addr us' = user_addr us" and len: "length (us_heap us') = length (us_heap us)"
    and index: "\<And>n b. b < length (us_heap us) \<Longrightarrow> node_index n (us_heap us ! b) \<noteq> None \<Longrightarrow> node_index n (us_heap us' ! b) \<noteq> None"
    and line: "\<And>b. b < length (us_heap us) \<Longrightarrow> ui_line (us_heap us' ! b) = ''on'' \<longleftrightarrow>
        ui_line (us_heap us ! b) = ''on'' \<or> user_session (f x0) \<and> user_addr us (c_username (f x0)) = Some b"
    and nodes: "\<And>b n. b < length (us_heap us) \<Longrightarrow> node_on (us_heap us' ! b) n \<Longrightarrow> node_on (us_heap us ! b) n
        \<or> node_session (f x0) \<and> user_addr us (c_username (f x0)) = Some b \<and> c_nodename (f x0) = n"
    and fresh: "\<And>a. user_session (f x0) \<Longrightarrow> user_addr us (c_username (f x0)) = Some a \<Longrightarrow> ui_line (us_heap us ! a) \<noteq> ''on''"
  shows "sessions_inv (map (\<lambda>x. if c_addr x = c then f x else x) ss) us'"
proof -
  let ?ss = "map (\<lambda>x. if c_addr x = c then f x else x) ss"
  have dist: "distinct (map c_addr ss)" using inv by (simp add: sessions_inv_def)
  note st = upd_sessions_set(1) [OF dist x0(1,2), of f] and only = upd_sessions_set(2) [OF dist x0(1,2)]
  have old: "x \<in> set ?ss" if "x \<in> set ss" "c_isvaliduser x" for x
    using that only x0(3) unfolding st by blast
  have me: "map c_addr ?ss = map c_addr ss" using f by simp
  have 1: "distinct (map c_addr ?ss)" unfolding me by (rule dist)
  have 2: "\<forall>x \<in> set ?ss. session_ok us' x"
    using inv ok session_ok_mono [OF _ addr index] unfolding st sessions_inv_def by blast
  have lm: "lines_match (set ss) us" using inv by (simp add: sessions_inv_def)
  have 3: "lines_match (set ?ss) us'" unfolding lines_match_def
  proof (intro allI impI)
    fix b assume b: "b < length (us_heap us')"
    then have "ui_line (us_heap us ! b) = ''on'' \<longleftrightarrow> (\<exists>x \<in> set ss. user_session x \<and> user_addr us (c_username x) = Some b)"
      using lm len by (simp add: lines_match_def)
    then show "ui_line (us_heap us' ! b) = ''on'' \<longleftrightarrow> (\<exists>x \<in> set ?ss. user_session x \<and> user_addr us' (c_username x) = Some b)"
      using line [of b] b len addr old unfolding st user_session_def by auto
  qed
  have clash: False if y: "user_session (f x0)" "y \<in> set ss" "user_session y" "same_name (c_username (f x0)) (c_username y)" for y
  proof -
    obtain a where a: "user_addr us (c_username (f x0)) = Some a"
      using ok y(1) addr by (auto simp: session_ok_def user_session_def)
    then have "user_addr us (c_username y) = Some a" using user_addr_cong [OF y(4)] by simp
    then show False using fresh [OF y(1) a] lines_matchD [OF lm y(2,3)] by blast
  qed
  have 4: "unique_users (set ?ss)"
    using inv clash same_name_sym unfolding st unique_users_def sessions_inv_def by blast
  have 5: "nodes_match (set ?ss) us'" unfolding nodes_match_def
  proof (intro allI impI)
    fix b n assume b: "b < length (us_heap us')" "node_on (us_heap us' ! b) n"
    then consider "node_on (us_heap us ! b) n"
      | "node_session (f x0) \<and> user_addr us (c_username (f x0)) = Some b \<and> c_nodename (f x0) = n"
      using nodes len by auto
    then show "\<exists>x \<in> set ?ss. node_session x \<and> user_addr us' (c_username x) = Some b \<and> c_nodename x = n"
    proof cases
      case 1
      then obtain x where x: "x \<in> set ss" "node_session x \<and> user_addr us (c_username x) = Some b \<and> c_nodename x = n"
        using inv b(1) len unfolding sessions_inv_def nodes_match_def by metis
      then have "x \<in> set ?ss" using old by (simp add: node_session_def)
      then show ?thesis using x(2) addr by auto
    next
      case 2
      then show ?thesis using addr unfolding st by auto
    qed
  qed
  show ?thesis unfolding sessions_inv_def using 1 2 3 4 5 by blast
qed

lemma sessions_logout:
  assumes inv: "sessions_inv ss us" and x0: "x0 \<in> set ss" "c_addr x0 = c"
    and addr: "user_addr us' = user_addr us" and len: "length (us_heap us') = length (us_heap us)"
    and index: "\<And>n b. b < length (us_heap us) \<Longrightarrow> node_index n (us_heap us ! b) \<noteq> None \<Longrightarrow> node_index n (us_heap us' ! b) \<noteq> None"
    and line: "\<And>b. b < length (us_heap us) \<Longrightarrow> ui_line (us_heap us' ! b) = ''on'' \<longleftrightarrow>
        ui_line (us_heap us ! b) = ''on'' \<and> \<not> (user_session x0 \<and> user_addr us (c_username x0) = Some b)"
    and nodes: "\<And>b n. b < length (us_heap us) \<Longrightarrow> node_on (us_heap us' ! b) n \<Longrightarrow> node_on (us_heap us ! b) n
        \<and> \<not> (node_session x0 \<and> user_addr us (c_username x0) = Some b \<and> c_nodename x0 = n)"
  shows "sessions_inv (filter (\<lambda>x. c_addr x \<noteq> c) ss) us'"
proof -
  let ?ss = "filter (\<lambda>x. c_addr x \<noteq> c) ss"
  have dist: "distinct (map c_addr ss)" using inv by (simp add: sessions_inv_def)
  note only = upd_sessions_set(2) [OF dist x0]
  have 1: "distinct (map c_addr ?ss)" using dist by (rule distinct_map_filter)
  have 2: "\<forall>x \<in> set ?ss. session_ok us' x"
    using inv session_ok_mono [OF _ addr index] by (auto simp only: sessions_inv_def set_filter mem_Collect_eq)
  have uu: "unique_users (set ss)" using inv by (simp add: sessions_inv_def)
  then have 4: "unique_users (set ?ss)" unfolding unique_users_def set_filter by blast
  have lm: "lines_match (set ss) us" using inv by (simp add: sessions_inv_def)
  have 3: "lines_match (set ?ss) us'" unfolding lines_match_def
  proof (intro allI impI)
    fix b assume b: "b < length (us_heap us')"
    then have on: "ui_line (us_heap us ! b) = ''on'' \<longleftrightarrow> (\<exists>x \<in> set ss. user_session x \<and> user_addr us (c_username x) = Some b)"
      using lm len by (simp add: lines_match_def)
    have other: "c_addr x \<noteq> c \<longleftrightarrow> \<not> (user_session x0 \<and> user_addr us (c_username x0) = Some b)"
      if x: "x \<in> set ss" "user_session x" "user_addr us (c_username x) = Some b" for x
    proof
      assume "c_addr x \<noteq> c"
      then show "\<not> (user_session x0 \<and> user_addr us (c_username x0) = Some b)"
        using uu x x0 user_addr_same_name [OF x(3)] unfolding unique_users_def by meson
    next
      assume "\<not> (user_session x0 \<and> user_addr us (c_username x0) = Some b)"
      then show "c_addr x \<noteq> c" using only [OF x(1)] x(2,3) by metis
    qed
    show "ui_line (us_heap us' ! b) = ''on'' \<longleftrightarrow> (\<exists>x \<in> set ?ss. user_session x \<and> user_addr us' (c_username x) = Some b)"
      unfolding line [OF b [unfolded len]] on addr set_filter using other by blast
  qed
  have 5: "nodes_match (set ?ss) us'" unfolding nodes_match_def
  proof (intro allI impI)
    fix b n assume b: "b < length (us_heap us')" "node_on (us_heap us' ! b) n"
    then have n: "node_on (us_heap us ! b) n" "\<not> (node_session x0 \<and> user_addr us (c_username x0) = Some b \<and> c_nodename x0 = n)"
      using nodes len by auto
    obtain x where x: "x \<in> set ss" "node_session x \<and> user_addr us (c_username x) = Some b \<and> c_nodename x = n"
      using inv b(1) len n(1) unfolding sessions_inv_def nodes_match_def by metis
    then have "c_addr x \<noteq> c" using only n(2) by blast
    then show "\<exists>x \<in> set ?ss. node_session x \<and> user_addr us' (c_username x) = Some b \<and> c_nodename x = n"
      using x addr by auto
  qed
  show ?thesis unfolding sessions_inv_def using 1 2 3 4 5 by blast
qed

lemma sessions_connect:
  assumes inv: "sessions_inv ss us" and "c_addr x \<notin> set (map c_addr ss)"
    and "\<not> c_isvaliduser x" "session_ok us x"
  shows "sessions_inv (ss @ [x]) us"
proof -
  have "unique_users (set ss)" using inv by (simp add: sessions_inv_def)
  then have "unique_users (insert x (set ss))"
    using assms(3) unfolding unique_users_def user_session_def by blast
  moreover have "lines_match (insert x (set ss)) us \<longleftrightarrow> lines_match (set ss) us"
    "nodes_match (insert x (set ss)) us \<longleftrightarrow> nodes_match (set ss) us"
    using assms(3) by (simp_all add: lines_match_def nodes_match_def user_session_def node_session_def)
  ultimately show ?thesis using assms by (simp add: sessions_inv_def)
qed

lemma sessions_new_user:
  assumes inv: "sessions_inv ss us" and ui: "users_inv us'" and h: "us_heap us' = us_heap us @ [new_user i n nxt]"
    and new: "user_addr us n = None" and ui0: "users_inv us"
  shows "sessions_inv ss us'"
proof -
  have addr: "user_addr us' k = Some b" if "user_addr us k = Some b" for k b
    using user_addr_Some [OF that] unfolding user_addr_iff [OF ui] by (simp add: h nth_append)
  have known: "\<exists>b. user_addr us (c_username x) = Some b" if "x \<in> set ss" "c_isvaliduser x" for x
    using inv that by (auto simp: sessions_inv_def session_ok_def)
  have conv: "user_addr us' (c_username x) = user_addr us (c_username x)" if "x \<in> set ss" "c_isvaliduser x" for x
    using known [OF that] addr by auto
  have fresh: "user_addr us' (c_username x) \<noteq> Some (length (us_heap us))" if "x \<in> set ss" "c_isvaliduser x" for x
    using known [OF that] conv [OF that] user_addr_Some [of us "c_username x"] by auto
  have "session_ok us' x" if x: "x \<in> set ss" for x
  proof -
    have ok: "session_ok us x" using inv x by (simp add: sessions_inv_def)
    show ?thesis
    proof (cases "c_isvaliduser x")
      case True
      then obtain b where b: "user_addr us (c_username x) = Some b" using known [OF x] by blast
      then show ?thesis using ok addr [OF b] user_addr_Some [OF b]
        by (auto simp: session_ok_def h nth_append)
    qed (use ok in \<open>simp add: session_ok_def node_session_def\<close>)
  qed
  moreover have "lines_match (set ss) us'" unfolding lines_match_def
  proof (intro allI impI)
    fix a assume "a < length (us_heap us')"
    then consider "a < length (us_heap us)" | "a = length (us_heap us)" by (auto simp: h less_Suc_eq)
    then show "ui_line (us_heap us' ! a) = ''on'' \<longleftrightarrow> (\<exists>x \<in> set ss. user_session x \<and> user_addr us' (c_username x) = Some a)"
    proof cases
      case 1
      then have "ui_line (us_heap us' ! a) = ''on'' \<longleftrightarrow> (\<exists>x \<in> set ss. user_session x \<and> user_addr us (c_username x) = Some a)"
        using inv by (simp add: sessions_inv_def lines_match_def h nth_append)
      then show ?thesis using conv unfolding user_session_def by auto
    next
      case 2
      then show ?thesis using fresh by (auto simp: h user_session_def)
    qed
  qed
  moreover have "nodes_match (set ss) us'" unfolding nodes_match_def
  proof (intro allI impI)
    fix a m assume a: "a < length (us_heap us')" "node_on (us_heap us' ! a) m"
    have "a \<noteq> length (us_heap us)" using a(2) by (auto simp: h node_on_def node_index_def)
    then have "a < length (us_heap us)" "node_on (us_heap us ! a) m" using a by (auto simp: h nth_append)
    then show "\<exists>x \<in> set ss. node_session x \<and> user_addr us' (c_username x) = Some a \<and> c_nodename x = m"
      using inv addr unfolding sessions_inv_def nodes_match_def by metis
  qed
  ultimately show ?thesis using inv by (simp add: sessions_inv_def)
qed

end
