(* ===== verification/Mychat_Serve.thy ===== *)
theory Mychat_Serve
  imports Mychat_Inv
begin

text \<open>
  Every command of the message server keeps the invariant and, on arguments of ordinary length,
  never writes or reads outside its buffers; hence every state that the server can reach from
  the start satisfies it.
\<close>

section \<open>Names stay short\<close>

definition short_user :: "MyNodeUserInfo \<Rightarrow> bool" where
  "short_user u \<longleftrightarrow> length (ui_name u) \<le> MAX_PRINTABLE \<and> length (ui_userid u) \<le> MAX_PRINTABLE
    \<and> (\<forall>nd \<in> set (take (ui_index u) (ui_nodes u)). length (ni_name nd) \<le> MAX_PRINTABLE)"

lemma short_names_user: "short_names us \<longleftrightarrow> (\<forall>u \<in> set (us_heap us). short_user u)"
  by (simp add: short_names_def short_user_def)

lemma short_user_line [simp]: "short_user (u\<lparr>ui_line := st\<rparr>) = short_user u"
  by (simp add: short_user_def)

lemma short_user_upd_node: "short_user u \<Longrightarrow> short_user (upd_node j st u)"
proof -
  assume u: "short_user u"
  let ?ns = "take (ui_index u) (ui_nodes u)"
  have "length (ni_name nd) \<le> MAX_PRINTABLE" if "nd \<in> set (?ns[j := (ui_nodes u ! j)\<lparr>ni_line := st\<rparr>])" for nd
  proof (cases "j < length ?ns")
    case True
    then have "nd \<in> set ?ns \<or> nd = (?ns ! j)\<lparr>ni_line := st\<rparr>"
      using that set_update_subset_insert [of ?ns j] by auto
    then show ?thesis using u True nth_mem [OF True] by (auto simp: short_user_def simp del: nth_take)
  next
    case False
    then have "nd \<in> set ?ns" using that by (simp only: list_update_beyond not_less)
    then show ?thesis using u by (simp add: short_user_def)
  qed
  then show ?thesis using u by (simp add: short_user_def upd_node_def take_update_swap)
qed

lemma short_user_add_node:
  assumes "short_user u" "user_ok u" "length n \<le> MAX_PRINTABLE" "ui_index u < MYNODE_MAX_NODES"
  shows "short_user (add_node n u)"
proof -
  have "ui_index u < length (ui_nodes u)" using assms by (simp add: user_ok_def)
  then have "take (Suc (ui_index u)) ((ui_nodes u)[ui_index u := x]) = take (ui_index u) (ui_nodes u) @ [x]" for x
    by (simp add: take_Suc_conv_app_nth)
  then show ?thesis using assms by (auto simp: short_user_def add_node_def)
qed

lemma short_names_list_update:
  assumes "short_names us" "us_heap us' = (us_heap us)[a := u]" "short_user u"
  shows "short_names us'"
  using assms set_update_subset_insert [of "us_heap us" a u] by (auto simp: short_names_user)

lemma short_names_set_line:
  "short_names us \<Longrightarrow> a < length (us_heap us) \<Longrightarrow> us_heap us' = set_line st a (us_heap us) \<Longrightarrow> short_names us'"
  by (rule short_names_list_update [where us = us]) (auto simp: set_line_def short_names_user)

lemma short_names_set_node_line:
  assumes "short_names us" "a < length (us_heap us)" "us_heap us' = set_node_line n st a (us_heap us)"
  shows "short_names us'"
proof (cases "node_index n (us_heap us ! a)")
  case None
  then show ?thesis using assms by (simp add: set_node_line_def short_names_user)
next
  case (Some j)
  then have "us_heap us' = (us_heap us)[a := upd_node j st (us_heap us ! a)]"
    using assms(3) by (simp add: set_node_line_def upd_node_def)
  then show ?thesis
    by (rule short_names_list_update [OF assms(1)]) (use assms in \<open>auto simp: short_names_user intro: short_user_upd_node\<close>)
qed

section \<open>Disconnecting\<close>

lemma set_user_line_ok:
  assumes "users_inv (sv_users sv)" "st \<in> {''on'', ''off''}"
  obtains us' where "set_user_line k st sv = Some (sv\<lparr>sv_users := us'\<rparr>)" "users_inv us'"
    "us_heap us' = (case user_addr (sv_users sv) k of None \<Rightarrow> us_heap (sv_users sv)
       | Some a \<Rightarrow> set_line st a (us_heap (sv_users sv)))"
    "user_addr us' = user_addr (sv_users sv)"
proof -
  obtain us' where u: "chatSetOrGetUserInfo k st OPERATION_SET_INFO (sv_users sv) = Some (us', st)" "users_inv us'"
    "us_heap us' = (case user_addr (sv_users sv) k of None \<Rightarrow> us_heap (sv_users sv)
       | Some a \<Rightarrow> set_line st a (us_heap (sv_users sv)))" "user_addr us' = user_addr (sv_users sv)"
    using chatSetOrGetUserInfo_set [OF assms] by blast
  then have "set_user_line k st sv = Some (sv\<lparr>sv_users := us'\<rparr>)" by (simp add: set_user_line_def)
  then show ?thesis using that u by blast
qed

lemma set_node_state_ok:
  assumes "users_inv (sv_users sv)" "st \<in> {''on'', ''off''}"
  obtains us' where "set_node_state k n st sv = Some (sv\<lparr>sv_users := us'\<rparr>)" "users_inv us'"
    "us_heap us' = (case user_addr (sv_users sv) k of None \<Rightarrow> us_heap (sv_users sv)
       | Some a \<Rightarrow> set_node_line n st a (us_heap (sv_users sv)))"
    "user_addr us' = user_addr (sv_users sv)"
proof -
  obtain us' where u: "chatSetOrGetNodeInfo k n st OPERATION_SET_INFO (sv_users sv) = Some (us', st)" "users_inv us'"
    "us_heap us' = (case user_addr (sv_users sv) k of None \<Rightarrow> us_heap (sv_users sv)
       | Some a \<Rightarrow> set_node_line n st a (us_heap (sv_users sv)))" "user_addr us' = user_addr (sv_users sv)"
    using chatSetOrGetNodeInfo_set [OF assms] by blast
  then have "set_node_state k n st sv = Some (sv\<lparr>sv_users := us'\<rparr>)" by (simp add: set_node_state_def)
  then show ?thesis using that u by blast
qed

text \<open>
  What notifying the others about a client that leaves does to the directory: the client's user,
  or its node, goes off line, and nothing else changes.
\<close>

definition gone :: "nat \<Rightarrow> 'm server \<Rightarrow> 'm server \<Rightarrow> bool" where
  "gone c sv sv' \<longleftrightarrow> sessions sv' = sessions sv \<and> sv_db sv' = sv_db sv \<and> users_inv (sv_users sv')
    \<and> short_names (sv_users sv') \<and> user_addr (sv_users sv') = user_addr (sv_users sv)
    \<and> sessions_inv (filter (\<lambda>x. c_addr x \<noteq> c) (sessions sv)) (sv_users sv')"

lemma notify_user:
  assumes inv: "chat_inv sv" and cl: "client c sv = Some x" and x: "user_session x"
  shows "\<exists>sv'. chatNotifyUserInfo c sv = Some sv' \<and> gone c sv sv'"
proof -
  let ?us = "sv_users sv"
  have ui: "users_inv ?us" and sn: "short_names ?us" and si: "sessions_inv (sessions sv) ?us"
    using inv by (auto simp: chat_inv_def)
  have ok: "session_ok ?us x" and valid: "c_isvaliduser x" and ty: "c_mynode_type x = MYNODE_TYPE_USER"
    using session_ok_client [OF inv cl] x by (auto simp: user_session_def)
  then have vn: "c_isvalidnode x" and "user_addr ?us (c_username x) \<noteq> None" by (auto simp: session_ok_def)
  then obtain a where a: "user_addr ?us (c_username x) = Some a" by auto
  have al: "a < length (us_heap ?us)" using user_addr_Some [OF a] by simp
  obtain sv1 where s1: "chatSend ''userinfo'' (c_username x) ''all'' ''off'' MYNODE_TYPE_USER sv = Some sv1"
    "sessions sv1 = sessions sv" "sv_users sv1 = ?us" "sv_db sv1 = sv_db sv"
    using chatSend_short [of "''userinfo''" "c_username x" "''off''" "''all''" MYNODE_TYPE_USER sv] ok
    by (auto simp: session_ok_def)
  obtain us' where u: "set_user_line (c_username x) ''off'' sv1 = Some (sv1\<lparr>sv_users := us'\<rparr>)" "users_inv us'"
    "us_heap us' = set_line ''off'' a (us_heap ?us)" "user_addr us' = user_addr ?us"
    using set_user_line_ok [of sv1 "''off''" "c_username x"] ui s1(3) a by auto
  have "sessions_inv (filter (\<lambda>x. c_addr x \<noteq> c) (sessions sv)) us'"
    by (rule sessions_logout [OF si client_session(1) [OF cl] _ u(4)])
      (use client_session(2) [OF cl] a x ty in \<open>auto simp: u(3) set_line_simps [OF al] node_session_def num_consts\<close>)
  then have "gone c sv (sv1\<lparr>sv_users := us'\<rparr>)" using s1 u short_names_set_line [OF sn al u(3)] by (simp add: gone_def)
  then show ?thesis using cl valid vn ty s1(1) u(1) by (simp add: chatNotifyUserInfo_def)
qed

lemma notify_node:
  assumes inv: "chat_inv sv" and cl: "client c sv = Some x" and x: "node_session x"
  shows "\<exists>sv'. chatNotifyUserInfo c sv = Some sv' \<and> gone c sv sv'"
proof -
  let ?us = "sv_users sv"
  have ui: "users_inv ?us" and sn: "short_names ?us" and si: "sessions_inv (sessions sv) ?us"
    using inv by (auto simp: chat_inv_def)
  have ok: "session_ok ?us x" and valid: "c_isvaliduser x"
    and ty: "c_mynode_type x = MYNODE_TYPE_NODE" "c_mynode_type x \<noteq> MYNODE_TYPE_USER"
    using session_ok_client [OF inv cl] x by (auto simp: node_session_def num_consts)
  then have vn: "c_isvalidnode x" and "user_addr ?us (c_username x) \<noteq> None" by (auto simp: session_ok_def)
  then obtain a where a: "user_addr ?us (c_username x) = Some a" by auto
  have al: "a < length (us_heap ?us)" using user_addr_Some [OF a] by simp
  obtain sv1 where s1: "chatSend ''nodeinfo'' (c_nodename x) (c_username x) ''off'' MYNODE_TYPE_USER sv = Some sv1"
    "sessions sv1 = sessions sv" "sv_users sv1 = ?us" "sv_db sv1 = sv_db sv"
    using chatSend_short [of "''nodeinfo''" "c_nodename x" "''off''" "c_username x" MYNODE_TYPE_USER sv] ok
    by (auto simp: session_ok_def)
  obtain us' where u: "set_node_state (c_username x) (c_nodename x) ''off'' sv1 = Some (sv1\<lparr>sv_users := us'\<rparr>)" "users_inv us'"
    "us_heap us' = set_node_line (c_nodename x) ''off'' a (us_heap ?us)" "user_addr us' = user_addr ?us"
    using set_node_state_ok [of sv1 "''off''" "c_username x" "c_nodename x"] ui s1(3) a by auto
  have uo: "user_ok (us_heap ?us ! a)" by (rule users_inv_ok [OF ui al])
  have ni: "node_index (c_nodename x) (us_heap ?us ! a) \<noteq> None" using ok x a by (simp add: session_ok_def)
  have "sessions_inv (filter (\<lambda>x. c_addr x \<noteq> c) (sessions sv)) us'"
    by (rule sessions_logout [OF si client_session(1) [OF cl] _ u(4)])
      (use client_session(2) [OF cl] a ty ni in \<open>auto simp: u(3) set_node_line_simps [OF al] uo user_session_def split: if_splits\<close>)
  then have "gone c sv (sv1\<lparr>sv_users := us'\<rparr>)" using s1 u short_names_set_node_line [OF sn al u(3)] by (simp add: gone_def)
  then show ?thesis using cl valid vn ty s1(1) u(1) by (simp add: chatNotifyUserInfo_def)
qed

lemma chatNotifyUserInfo_ok:
  assumes inv: "chat_inv sv" and cl: "client c sv = Some x"
  obtains sv' where "chatNotifyUserInfo c sv = Some sv'" "gone c sv sv'"
proof (cases "c_isvaliduser x")
  case False
  have "sessions_inv (filter (\<lambda>x. c_addr x \<noteq> c) (sessions sv)) (sv_users sv)"
    by (rule sessions_logout [OF _ client_session(1) [OF cl]])
      (use inv client_session(2) [OF cl] False in \<open>auto simp: chat_inv_def user_session_def node_session_def\<close>)
  then have "gone c sv sv" using inv by (simp add: gone_def chat_inv_def)
  then show ?thesis using that [of sv] False cl by (simp add: chatNotifyUserInfo_def)
next
  case True
  then have "user_session x \<or> node_session x" using session_ok_client [OF inv cl]
    by (auto simp: session_ok_def user_session_def node_session_def)
  then show ?thesis using that notify_user [OF inv cl] notify_node [OF inv cl] by blast
qed

lemma freeClient_ok:
  assumes inv: "chat_inv sv" and cl: "client c sv = Some x"
  shows "\<exists>sv'. freeClient c sv = Some sv' \<and> chat_inv sv' \<and> sv_db sv' = sv_db sv
    \<and> user_addr (sv_users sv') = user_addr (sv_users sv) \<and> sessions sv' = filter (\<lambda>x. c_addr x \<noteq> c) (sessions sv)"
proof -
  obtain sv1 where s: "chatNotifyUserInfo c sv = Some sv1" "gone c sv sv1"
    using chatNotifyUserInfo_ok [OF inv cl] .
  have "map strip (filter (\<lambda>x. c_addr x \<noteq> c) (sv_clients sv1)) = filter (\<lambda>x. c_addr x \<noteq> c) (sessions sv1)"
    by (simp add: sessions_def filter_map comp_def)
  then show ?thesis using s by (simp add: freeClient_def chat_inv_def gone_def sessions_def)
qed

section \<open>Logging in as a user\<close>

lemma sessions_unchanged:
  assumes inv: "chat_inv sv" and cl: "client c sv = Some x" and f: "\<forall>x. strip (f x) = f (strip x)"
    and id: "f (strip x) = strip x"
  shows "sessions (upd_client c f sv) = sessions sv"
proof -
  have d: "distinct (map c_addr (sessions sv))" using inv by (simp add: chat_inv_def sessions_inv_def)
  have "s = strip x" if "s \<in> set (sessions sv)" "c_addr s = c" for s
    using upd_sessions_set(2) [OF d client_session(1) [OF cl]] client_session(2) [OF cl] that by simp
  then have "(if c_addr s = c then f s else s) = s" if "s \<in> set (sessions sv)" for s
    using id that by auto
  then show ?thesis unfolding sessions_upd_client [OF f] by (rule map_idI)
qed

lemma login_refused_quiet:
  assumes inv: "chat_inv sv" and cl: "client c sv = Some x" and no: "\<not> c_isvaliduser x" "\<not> c_isvalidnode x"
  shows "chat_inv (login_refused c err sv)"
proof -
  let ?f = "\<lambda>x. x\<lparr>c_isvaliduser := False, c_isvalidnode := False\<rparr>"
  have "sessions (login_refused c err sv) = map (\<lambda>x. if c_addr x = c then ?f x else x) (sessions sv)"
    unfolding login_refused_def by (subst sessions_upd_client) (simp_all add: strip_def)
  also have "\<dots> = sessions (upd_client c ?f sv)"
    by (rule sessions_upd_client [symmetric]) (simp add: strip_def)
  also have "\<dots> = sessions sv"
    by (rule sessions_unchanged [OF inv cl]) (use no in \<open>simp_all add: strip_def\<close>)
  finally have "quiet sv (login_refused c err sv)"
    using inv by (simp add: quiet_def login_refused_def users_same_refl chat_inv_def)
  then show ?thesis using chat_inv_quiet inv by blast
qed

lemma reply_quiet: "chat_inv sv \<Longrightarrow> chat_inv (addReplyString c s sv)"
  by (rule chat_inv_quiet [of sv]) (simp_all add: quiet_def users_same_refl chat_inv_def)

lemma chat_user_info_ok:
  assumes "chat_inv sv"
  shows "\<exists>sv'. chat_user_info c sv = Some sv' \<and> chat_inv sv' \<and> sessions sv' = sessions sv"
proof -
  obtain ls where "chatUserInfo (sv_users sv) = Some ls"
    using assms chatUserInfo_ok [of "sv_users sv"] by (auto simp: chat_inv_def)
  then show ?thesis using assms by (simp add: chat_user_info_def chat_inv_def)
qed

lemma node_infos_ok:
  assumes "chat_inv sv"
  shows "\<exists>sv'. node_infos c k sv = Some sv' \<and> chat_inv sv' \<and> sessions sv' = sessions sv"
proof -
  have ui: "users_inv (sv_users sv)" "short_names (sv_users sv)" using assms by (auto simp: chat_inv_def)
  obtain us' where "\<exists>ls. getAllNodeInfo k (sv_users sv) = Some (us', ls)" and s: "users_same (sv_users sv) us'"
    using getAllNodeInfo_ok [OF ui, of k] by blast
  then obtain ls where g: "getAllNodeInfo k (sv_users sv) = Some (us', ls)" by blast
  from s have "chat_inv (sv\<lparr>sv_users := us'\<rparr>)"
    by (intro chat_inv_quiet [OF _ assms]) (simp add: quiet_def)
  then show ?thesis using g by (simp add: node_infos_def chat_inv_def)
qed

text \<open>The database answers the login query only for a name that the directory knows.\<close>

definition db_knows :: "'m mysql \<Rightarrow> string \<Rightarrow> string \<Rightarrow> 'm server \<Rightarrow> bool" where
  "db_knows my name password sv \<longleftrightarrow> (my_row my (sv_db sv) (login_query name password) \<longrightarrow>
     user_addr (sv_users sv) name \<noteq> None)"

definition log_user :: "string \<Rightarrow> string \<Rightarrow> redisClient \<Rightarrow> redisClient" where
  "log_user name password x = x\<lparr>c_isvaliduser := True, c_isvalidnode := True,
     c_mynode_type := MYNODE_TYPE_USER, c_username := name, c_password := password\<rparr>"

lemma chatLogin_session:
  assumes inv: "chat_inv sv" and cl: "client c sv = Some x" and no: "\<not> c_isvaliduser x"
    and a: "user_addr (sv_users sv) name = Some a" and off: "ui_line (us_heap (sv_users sv) ! a) \<noteq> ''on''"
    and len: "length name \<le> MAX_PRINTABLE"
    and us': "users_inv us'" "us_heap us' = set_line ''on'' a (us_heap (sv_users sv))" "user_addr us' = user_addr (sv_users sv)"
  shows "users_inv us' \<and> short_names us'
    \<and> sessions_inv (map (\<lambda>x. if c_addr x = c then log_user name password x else x) (sessions sv)) us'"
proof -
  let ?us = "sv_users sv" and ?x = "log_user name password (strip x)"
  have ui: "users_inv ?us" and sn: "short_names ?us" and si: "sessions_inv (sessions sv) ?us"
    using inv by (auto simp: chat_inv_def)
  have al: "a < length (us_heap ?us)" using user_addr_Some [OF a] by simp
  note ok = session_ok_client [OF inv cl]
  have us1: "user_session ?x" "\<not> node_session ?x" "c_username ?x = name"
    by (simp_all add: log_user_def user_session_def node_session_def num_consts)
  have okx: "session_ok us' ?x"
    using ok a us'(3) len no by (auto simp: session_ok_def log_user_def node_session_def num_consts)
  have "sessions_inv (map (\<lambda>x. if c_addr x = c then log_user name password x else x) (sessions sv)) us'"
    by (rule sessions_login [where f = "log_user name password", OF si client_session(1) [OF cl] _ _ _ okx us'(3)])
      (use client_session(2) [OF cl] no a off us1 in \<open>auto simp: us'(2) set_line_simps [OF al] log_user_def\<close>)
  then show ?thesis using us'(1) short_names_set_line [OF sn al us'(2)] by simp
qed

lemma chat_inv_users:
  "chat_inv sv \<Longrightarrow> users_same (sv_users sv) us' \<Longrightarrow> chat_inv (sv\<lparr>sv_users := us'\<rparr>)"
  by (rule chat_inv_quiet [of sv]) (simp_all add: quiet_def)

lemma client_users [simp]: "client c (sv\<lparr>sv_users := us\<rparr>) = client c sv"
  by (simp add: client_def)

text \<open>What follows the decision to let the user in.\<close>

lemma user_admit_ok:
  assumes inv: "chat_inv sv" and cl: "client c sv = Some x" and no: "\<not> c_isvaliduser x"
    and a: "user_addr (sv_users sv) name = Some a" and off: "ui_line (us_heap (sv_users sv) ! a) \<noteq> ''on''"
    and len: "length name \<le> MAX_PRINTABLE" "length password \<le> MAX_PRINTABLE"
  shows "\<exists>sv'. user_admit c name password sv = Some sv' \<and> chat_inv sv'
    \<and> sessions sv' = map (\<lambda>x. if c_addr x = c then log_user name password x else x) (sessions sv)"
proof -
  let ?us = "sv_users sv"
  let ?f = "\<lambda>x. x\<lparr>c_isvaliduser := True, c_isvalidnode := True, c_mynode_type := MYNODE_TYPE_USER\<rparr>"
  let ?g = "\<lambda>x. x\<lparr>c_username := name, c_password := password\<rparr>"
  have ui: "users_inv ?us" and al: "a < length (us_heap ?us)"
    using inv user_addr_Some [OF a] by (simp_all add: chat_inv_def)
  obtain us1 where u1: "set_user_line name ''on'' (upd_client c ?f sv) = Some (upd_client c ?f sv\<lparr>sv_users := us1\<rparr>)"
      "users_inv us1" "us_heap us1 = set_line ''on'' a (us_heap ?us)" "user_addr us1 = user_addr ?us"
    using set_user_line_ok [of "upd_client c ?f sv" "''on''" name] ui a by auto
  obtain sv2 where s2: "chatSend ''userinfo'' name ''all'' ''on'' MYNODE_TYPE_USER (upd_client c ?f sv\<lparr>sv_users := us1\<rparr>) = Some sv2"
      "sessions sv2 = sessions (upd_client c ?f sv)" "sv_users sv2 = us1"
    using chatSend_short [of "''userinfo''" name "''on''" "''all''" MYNODE_TYPE_USER "upd_client c ?f sv\<lparr>sv_users := us1\<rparr>"] len
    by auto
  have st: "store_str MY_NAME_LENGTH name = Some name" "store_str MY_NAME_LENGTH password = Some password"
    using len by (simp_all add: store_str_def num_consts)
  let ?sv3 = "upd_client c ?g sv2"
  have ses3: "sessions ?sv3 = map (\<lambda>x. if c_addr x = c then log_user name password x else x) (sessions sv)"
    by (subst sessions_upd_client; (subst s2(2), subst sessions_upd_client)?) (auto simp: strip_def log_user_def)
  have inv3: "chat_inv ?sv3"
    using chatLogin_session [OF inv cl no a off len(1) u1(2-4), of password]
    unfolding chat_inv_def ses3 by (simp add: s2(3))
  obtain us4 where u4: "getUseridByName name us1 = Some (us4, Some (ui_userid (us_heap us1 ! a)))" "users_same us1 us4"
    using getUseridByName_ok [OF u1(2), of name] a u1(4) by auto
  have "short_names us1" using inv3 by (simp add: chat_inv_def s2(3))
  moreover have "a < length (us_heap us1)" using al u1(3) by (simp add: set_line_def)
  ultimately have "length (ui_userid (us_heap us1 ! a)) \<le> MAX_PRINTABLE" by (simp add: short_names_def)
  then have st4: "store_str 256 (''login ok '' @ ui_userid (us_heap us1 ! a) @ crlf) = Some (''login ok '' @ ui_userid (us_heap us1 ! a) @ crlf)"
    by (simp add: store_str_def num_consts crlf_def)
  let ?sv4 = "addReplyString c (''login ok '' @ ui_userid (us_heap us1 ! a) @ crlf) (?sv3\<lparr>sv_users := us4\<rparr>)"
  have "chat_inv ?sv4" by (rule reply_quiet, rule chat_inv_users [OF inv3]) (simp add: s2(3) u4(2))
  then obtain sv5 where s5: "node_infos c name ?sv4 = Some sv5" "chat_inv sv5" "sessions sv5 = sessions ?sv4"
    using node_infos_ok by blast
  obtain sv6 where s6: "chat_user_info c sv5 = Some sv6" "chat_inv sv6" "sessions sv6 = sessions sv5"
    using chat_user_info_ok [OF s5(2)] by blast
  have "sessions sv6 = map (\<lambda>x. if c_addr x = c then log_user name password x else x) (sessions sv)"
    using s5(3) s6(3) ses3 by simp
  then  show ?thesis by (simp add: user_admit_def Let_def u1(1) s2(1,3) st u4(1) st4 [simplified] s5(1) [simplified] s6)
qed

text \<open>The password is looked up, then the state of the user.\<close>

lemma chatLogin_known:
  assumes inv: "chat_inv sv" and cl: "client c sv = Some x" and no: "\<not> c_isvaliduser x" "\<not> c_isvalidnode x"
    and row: "my_row my (sv_db sv) (login_query name password)" and a: "user_addr (sv_users sv) name = Some a"
    and len: "length name \<le> MAX_PRINTABLE" "length password \<le> MAX_PRINTABLE"
  obtains us where "users_same (sv_users sv) us"
    "chatLogin my c name password sv = (if ui_line (us_heap (sv_users sv) ! a) = ''on''
       then Some (login_refused c errAlreadyLogin (sv\<lparr>sv_users := us\<rparr>))
       else user_admit c name password (sv\<lparr>sv_users := us\<rparr>))"
proof -
  have q: "is_valid_user my name password sv = Some True"
    using len row by (simp add: is_valid_user_def store_str_def login_query_def sq_def num_consts)
  have ui: "users_inv (sv_users sv)" using inv by (simp add: chat_inv_def)
  obtain us where u: "chatSetOrGetUserInfo name [] OPERATION_GET_INFO (sv_users sv)
      = Some (us, ui_line (us_heap (sv_users sv) ! a))" and s: "users_same (sv_users sv) us"
    using chatSetOrGetUserInfo_get [OF ui, of name "[]"] a by auto
  show ?thesis by (rule that [OF s]) (use cl no q u in \<open>simp add: chatLogin_def Let_def\<close>)
qed

lemma chatLogin_admits:
  assumes inv: "chat_inv sv" and cl: "client c sv = Some x" and no: "\<not> c_isvaliduser x" "\<not> c_isvalidnode x"
    and row: "my_row my (sv_db sv) (login_query name password)" and a: "user_addr (sv_users sv) name = Some a"
    and len: "length name \<le> MAX_PRINTABLE" "length password \<le> MAX_PRINTABLE"
  shows "\<exists>sv'. chatLogin my c name password sv = Some sv' \<and> chat_inv sv'
    \<and> (ui_line (us_heap (sv_users sv) ! a) \<noteq> ''on'' \<longrightarrow>
         sessions sv' = map (\<lambda>x. if c_addr x = c then log_user name password x else x) (sessions sv))"
proof -
  obtain us where k: "users_same (sv_users sv) us"
    "chatLogin my c name password sv = (if ui_line (us_heap (sv_users sv) ! a) = ''on''
       then Some (login_refused c errAlreadyLogin (sv\<lparr>sv_users := us\<rparr>))
       else user_admit c name password (sv\<lparr>sv_users := us\<rparr>))"
    using chatLogin_known [OF inv cl no row a len] .
  have inv1: "chat_inv (sv\<lparr>sv_users := us\<rparr>)" by (rule chat_inv_users [OF inv k(1)])
  have cl1: "client c (sv\<lparr>sv_users := us\<rparr>) = Some x" using cl by simp
  have h1: "us_heap us = us_heap (sv_users sv)" and a1: "user_addr us name = Some a"
    using k(1) users_same_addr [OF k(1)] a by (simp_all add: users_same_def)
  show ?thesis using k(2) login_refused_quiet [OF inv1 cl1 no] user_admit_ok [OF inv1 cl1 no(1) _ _ len] a1 h1 by auto
qed

lemma chatLogin_ok:
  assumes inv: "chat_inv sv" and cl: "client c sv = Some x" and db: "db_knows my name password sv"
    and len: "length name \<le> MAX_PRINTABLE" "length password \<le> MAX_PRINTABLE"
  shows "\<exists>sv'. chatLogin my c name password sv = Some sv' \<and> chat_inv sv'"
proof (cases "c_isvaliduser x \<or> c_isvalidnode x")
  case True
  then show ?thesis using cl reply_quiet [OF inv] by (simp add: chatLogin_def)
next
  case False
  then have no: "\<not> c_isvaliduser x" "\<not> c_isvalidnode x" by simp_all
  have q: "is_valid_user my name password sv = Some (my_row my (sv_db sv) (login_query name password))"
    using len by (simp add: is_valid_user_def store_str_def login_query_def sq_def num_consts)
  show ?thesis
  proof (cases "my_row my (sv_db sv) (login_query name password)")
    case False
    then show ?thesis using cl no q login_refused_quiet [OF inv cl no] by (simp add: chatLogin_def)
  next
    case True
    then obtain a where "user_addr (sv_users sv) name = Some a" using db unfolding db_knows_def by blast
    then show ?thesis using chatLogin_admits [OF inv cl no True _ len] by blast
  qed
qed

section \<open>Logging in as a node\<close>

lemma add_node_index:
  assumes "user_ok u" "node_index n u = None" "ui_index u < MYNODE_MAX_NODES"
  shows "node_index m (add_node n u) = (if m = n then Some (ui_index u) else node_index m u)"
    "node_on (add_node n u) m = node_on u m" "ui_line (add_node n u) = ui_line u"
proof -
  let ?i = "ui_index u"
  have len: "?i < length (ui_nodes u)" using assms by (simp add: user_ok_def)
  have nth: "ui_nodes (add_node n u) ! j = ui_nodes u ! j" if "j < ?i" for j
    using that by (simp add: add_node_def)
  have new: "ui_nodes (add_node n u) ! ?i = \<lparr>ni_name = n, ni_line = ''off''\<rparr>" using len by (simp add: add_node_def)
  have "find (\<lambda>j. m = ni_name (ui_nodes (add_node n u) ! j)) [0..<?i] = node_index m u"
    unfolding node_index_def by (rule find_cong) (simp_all add: nth)
  then have idx: "node_index m (add_node n u) = (case node_index m u of None \<Rightarrow> if m = n then Some ?i else None | Some j \<Rightarrow> Some j)"
    using new by (simp add: node_index_def add_node_def find_append cong: option.case_cong)
  then show mi: "node_index m (add_node n u) = (if m = n then Some ?i else node_index m u)"
    using assms(2) by (auto split: option.splits)
  show "ui_line (add_node n u) = ui_line u" by (simp add: add_node_def)
  show "node_on (add_node n u) m = node_on u m"
  proof (cases "m = n")
    case True
    then show ?thesis using mi assms(2) new by (simp add: node_on_def)
  next
    case False
    show ?thesis
    proof (cases "node_index m u")
      case (Some j)
      then have "j < ?i" using node_index_Some by blast
      then show ?thesis using Some False mi nth by (simp add: node_on_def)
    qed (use False mi in \<open>simp add: node_on_def\<close>)
  qed
qed

definition log_node :: "string \<Rightarrow> string \<Rightarrow> string \<Rightarrow> redisClient \<Rightarrow> redisClient" where
  "log_node username userid nodename x = x\<lparr>c_isvaliduser := True, c_isvalidnode := True,
     c_mynode_type := MYNODE_TYPE_NODE, c_username := username, c_userid := userid, c_nodename := nodename\<rparr>"

text \<open>The names and identifiers of the users, which no login changes.\<close>

definition directory :: "users \<Rightarrow> (string \<times> string) list" where
  "directory us = map (\<lambda>u. (ui_userid u, ui_name u)) (us_heap us)"

lemma directory_update:
  assumes "us_heap us' = (us_heap us)[a := u]" "ui_userid u = ui_userid (us_heap us ! a)" "ui_name u = ui_name (us_heap us ! a)"
  shows "directory us' = directory us"
proof (cases "a < length (us_heap us)")
  case True
  then show ?thesis using assms by (intro nth_equalityI) (auto simp: directory_def nth_list_update)
qed (use assms in \<open>simp add: directory_def list_update_beyond\<close>)

lemma directory_set_node_line: "us_heap us' = set_node_line n st a (us_heap us) \<Longrightarrow> directory us' = directory us"
proof (cases "node_index n (us_heap us ! a)")
  case (Some j)
  assume "us_heap us' = set_node_line n st a (us_heap us)"
  then have h: "us_heap us' = (us_heap us)[a := upd_node j st (us_heap us ! a)]"
    using Some by (simp add: set_node_line_def upd_node_def)
  show ?thesis by (rule directory_update [OF h]) (simp_all add: upd_node_def)
qed (simp add: set_node_line_def directory_def)

lemma directory_userid: "directory us' = directory us \<Longrightarrow> userid_addr us' i = userid_addr us i"
proof -
  have 1: "userid_addr us i = find (\<lambda>a. i = fst (directory us ! a)) (rev [0..<length (directory us)])" for us
    unfolding userid_addr_def directory_def length_map by (rule find_cong) simp_all
  assume "directory us' = directory us"
  then show ?thesis by (simp add: 1)
qed

text \<open>The directory between finding the node, or making it, and showing it on line.\<close>

definition node_ready :: "users \<Rightarrow> nat \<Rightarrow> string \<Rightarrow> users \<Rightarrow> bool" where
  "node_ready us a n us' \<longleftrightarrow> users_inv us' \<and> short_names us' \<and> user_addr us' = user_addr us
    \<and> length (us_heap us') = length (us_heap us) \<and> node_index n (us_heap us' ! a) \<noteq> None
    \<and> directory us' = directory us
    \<and> (\<forall>b < length (us_heap us). ui_line (us_heap us' ! b) = ui_line (us_heap us ! b)
        \<and> (\<forall>m. node_index m (us_heap us ! b) \<noteq> None \<longrightarrow> node_index m (us_heap us' ! b) \<noteq> None)
        \<and> (\<forall>m. node_on (us_heap us' ! b) m = node_on (us_heap us ! b) m))"

lemma insertNode_ready:
  assumes ui: "users_inv us" and sn: "short_names us" and a: "user_addr us k = Some a"
    and len: "length n \<le> MAX_PRINTABLE" and ans: "node_answer us k n \<noteq> -1"
  obtains us' where "insertNodeToUserInfo k n us = Some (us', node_answer us k n)" "node_ready us a n us'"
proof -
  have al: "a < length (us_heap us)" using user_addr_Some [OF a] by simp
  have ok: "user_ok (us_heap us ! a)" by (rule users_inv_ok [OF ui al])
  have "length n < MY_NAME_LENGTH" using len by (simp add: num_consts)
  then obtain us' where
    r: "insertNodeToUserInfo k n us = Some (us', node_answer us k n)" "users_inv us'" "user_addr us' = user_addr us"
    and h: "us_heap us' = (if node_answer us k n = 1 then (us_heap us)[the (user_addr us k) := add_node n (us_heap us ! the (user_addr us k))] else us_heap us)"
    using insertNodeToUserInfo_ok [OF ui, of n k] by blast
  have "node_ready us a n us'"
  proof (cases "node_answer us k n = 1")
    case True
    then have n: "node_index n (us_heap us ! a) = None" "ui_index (us_heap us ! a) < MYNODE_MAX_NODES"
      using a by (auto simp: node_answer_def Let_def split: if_splits)
    note add = add_node_index [OF ok n]
    have h': "us_heap us' = (us_heap us)[a := add_node n (us_heap us ! a)]" using h True a by simp
    have "short_user (us_heap us ! a)" using sn al by (simp add: short_names_user)
    then have "short_names us'"
      by (rule short_names_list_update [OF sn h' short_user_add_node]) (use ok len n in auto)
    moreover have nth: "us_heap us' ! b = (if b = a then add_node n (us_heap us ! a) else us_heap us ! b)" for b
      using h' al by (cases "b = a") simp_all
    moreover have "length (us_heap us') = length (us_heap us)" using h' by simp
    moreover have "directory us' = directory us" by (rule directory_update [OF h']) (simp_all add: add_node_def)
    ultimately show ?thesis using r(2,3) by (simp add: node_ready_def add)
  next
    case False
    then have "node_index n (us_heap us ! a) \<noteq> None"
      using a ans by (auto simp: node_answer_def Let_def split: if_splits)
    then show ?thesis using r h False sn by (simp add: node_ready_def short_names_user directory_def)
  qed
  then show ?thesis using that r by blast
qed

lemma nodeLogin_session:
  assumes inv: "chat_inv sv" and cl: "client c sv = Some x" and no: "\<not> c_isvaliduser x"
    and a: "user_addr (sv_users sv) username = Some a" and rd: "node_ready (sv_users sv) a n us1"
    and len: "length username \<le> MAX_PRINTABLE" "length userid \<le> MAX_PRINTABLE" "length n \<le> MAX_PRINTABLE"
    and us': "users_inv us'" "us_heap us' = set_node_line n ''on'' a (us_heap us1)" "user_addr us' = user_addr us1"
  shows "users_inv us' \<and> short_names us'
    \<and> sessions_inv (map (\<lambda>x. if c_addr x = c then log_node username userid n x else x) (sessions sv)) us'"
proof -
  let ?us = "sv_users sv" and ?x = "log_node username userid n (strip x)"
  have si: "sessions_inv (sessions sv) ?us" using inv by (simp add: chat_inv_def)
  have ui1: "users_inv us1" and sn1: "short_names us1" and ad: "user_addr us' = user_addr ?us"
    and l1: "length (us_heap us1) = length (us_heap ?us)" and ni: "node_index n (us_heap us1 ! a) \<noteq> None"
    using rd us'(3) by (auto simp: node_ready_def)
  have al: "a < length (us_heap us1)" using user_addr_Some [OF a] l1 by simp
  note snl = set_node_line_simps [OF al] and uo = users_inv_ok [OF ui1 al] and ok = session_ok_client [OF inv cl]
  have nx: "node_session ?x" "\<not> user_session ?x" "c_username ?x = username" "c_nodename ?x = n"
    by (simp_all add: log_node_def user_session_def node_session_def num_consts)
  have okx: "session_ok us' ?x"
    using ok a ad len ni by (simp add: session_ok_def log_node_def us'(2) snl)
  have "sessions_inv (map (\<lambda>x. if c_addr x = c then log_node username userid n x else x) (sessions sv)) us'"
  proof (rule sessions_login [where f = "log_node username userid n", OF si client_session(1) [OF cl] _ _ _ okx ad])
    show "c_addr (strip x) = c" using client_session(2) [OF cl] by simp
    show "\<not> c_isvaliduser (strip x)" using no by simp
    show "c_addr (log_node username userid n y) = c_addr y" for y by (simp add: log_node_def)
    show "length (us_heap us') = length (us_heap ?us)" using l1 by (simp add: us'(2) snl)
  next
    fix m b assume "b < length (us_heap ?us)" "node_index m (us_heap ?us ! b) \<noteq> None"
    then show "node_index m (us_heap us' ! b) \<noteq> None" using rd by (simp add: us'(2) snl node_ready_def)
  next
    fix b assume "b < length (us_heap ?us)"
    then show "ui_line (us_heap us' ! b) = ''on'' \<longleftrightarrow> ui_line (us_heap ?us ! b) = ''on'' \<or>
        user_session ?x \<and> user_addr ?us (c_username ?x) = Some b"
      using rd nx by (simp add: us'(2) snl node_ready_def)
  next
    fix b m assume "b < length (us_heap ?us)" "node_on (us_heap us' ! b) m"
    then show "node_on (us_heap ?us ! b) m \<or> node_session ?x \<and> user_addr ?us (c_username ?x) = Some b \<and> c_nodename ?x = m"
      using rd nx a by (auto simp: us'(2) snl(4) [OF uo] node_ready_def split: if_splits)
  next
    fix b assume "user_session ?x"
    then show "ui_line (us_heap ?us ! b) \<noteq> ''on''" using nx by simp
  qed
  then show ?thesis using us'(1) short_names_set_node_line [OF sn1 al us'(2)] by simp
qed

lemma node_ready_same:
  assumes "users_same us us1" "node_ready us1 a n us'"
  shows "node_ready us a n us'"
  using assms users_same_addr [OF assms(1)] by (simp add: node_ready_def users_same_def directory_def)

lemma node_admit_session:
  assumes inv: "chat_inv sv" and cl: "client c sv = Some x" and no: "\<not> c_isvaliduser x"
    and a: "user_addr (sv_users sv) username = Some a" and rd: "node_ready (sv_users sv) a n us1"
    and len: "length username \<le> MAX_PRINTABLE" "length userid \<le> MAX_PRINTABLE" "length n \<le> MAX_PRINTABLE"
    and sv2: "sessions sv2 = map (\<lambda>x. if c_addr x = c then log_node username userid n x else x) (sessions sv)"
      "sv_users sv2 = us1"
  shows "\<exists>sv'. chatSend ''nodeinfo'' n username ''on'' MYNODE_TYPE_USER sv2 \<bind> set_node_state username n ''on'' = Some sv'
    \<and> chat_inv sv' \<and> sessions sv' = sessions sv2 \<and> directory (sv_users sv') = directory (sv_users sv)"
proof -
  obtain sv3 where s3: "chatSend ''nodeinfo'' n username ''on'' MYNODE_TYPE_USER sv2 = Some sv3"
      "sessions sv3 = sessions sv2" "sv_users sv3 = us1"
    using chatSend_short [of "''nodeinfo''" n "''on''" username MYNODE_TYPE_USER sv2] len sv2(2) by auto
  have ui1: "users_inv us1" and ad1: "user_addr us1 username = Some a" using rd a by (auto simp: node_ready_def)
  obtain us' where u: "set_node_state username n ''on'' sv3 = Some (sv3\<lparr>sv_users := us'\<rparr>)" "users_inv us'"
      "us_heap us' = set_node_line n ''on'' a (us_heap us1)" "user_addr us' = user_addr us1"
    using set_node_state_ok [of sv3 "''on''" username n] ui1 s3(3) ad1 by auto
  have "chat_inv (sv3\<lparr>sv_users := us'\<rparr>)"
    using nodeLogin_session [OF inv cl no a rd len u(2-4)]
    unfolding chat_inv_def sessions_users s3(2) sv2 by simp
  moreover have "directory us' = directory (sv_users sv)"
    using directory_set_node_line [OF u(3)] rd by (simp add: node_ready_def)
  ultimately show ?thesis using s3 u(1) by simp
qed

lemma log_node_eq: "log_node username userid n = (\<lambda>x. x\<lparr>c_isvaliduser := True, c_isvalidnode := True,
    c_mynode_type := MYNODE_TYPE_NODE, c_username := username, c_userid := userid, c_nodename := n\<rparr>)"
  by (simp add: fun_eq_iff log_node_def)

lemma sessions_log_node:
  "sessions (upd_client c (log_node username userid n) (addReplyString c l sv)) =
    map (\<lambda>x. if c_addr x = c then log_node username userid n x else x) (sessions sv)"
  by (subst sessions_upd_client) (auto simp: strip_def log_node_def)

lemma sessions_run [simp]:
  "sessions (mysqlRunCommand my cmd sv) = sessions sv" "sv_users (mysqlRunCommand my cmd sv) = sv_users sv"
  by (simp_all add: mysqlRunCommand_def sessions_def)

text \<open>The node is admitted exactly when it is known or the user has room for one more.\<close>

lemma node_admit_ok:
  assumes inv: "chat_inv sv" and cl: "client c sv = Some x" and no: "\<not> c_isvaliduser x" "\<not> c_isvalidnode x"
    and a: "user_addr (sv_users sv) username = Some a"
    and len: "length username \<le> MAX_PRINTABLE" "length userid \<le> MAX_PRINTABLE" "length n \<le> MAX_PRINTABLE"
  shows "\<exists>sv'. node_admit my c userid n username sv = Some sv' \<and> chat_inv sv'
    \<and> directory (sv_users sv') = directory (sv_users sv)
    \<and> (node_answer (sv_users sv) username n \<noteq> -1 \<longrightarrow>
         sessions sv' = map (\<lambda>x. if c_addr x = c then log_node username userid n x else x) (sessions sv))"
proof (cases "node_answer (sv_users sv) username n = -1")
  case True
  have ui: "users_inv (sv_users sv)" using inv by (simp add: chat_inv_def)
  have "length n < MY_NAME_LENGTH" using len by (simp add: num_consts)
  then obtain us3 where u3: "insertNodeToUserInfo username n (sv_users sv) = Some (us3, -1)" "users_inv us3"
      "us_heap us3 = us_heap (sv_users sv)"
    using insertNodeToUserInfo_ok [OF ui, of n username] True by auto
  then have "users_same (sv_users sv) us3" by (simp add: users_same_def)
  then have inv3: "chat_inv (sv\<lparr>sv_users := us3\<rparr>)" using chat_inv_users [OF inv] by simp
  have cl3: "client c (sv\<lparr>sv_users := us3\<rparr>) = Some x" using cl by simp
  show ?thesis using u3(1,3) True login_refused_quiet [OF inv3 cl3 no]
    by (simp add: node_admit_def Let_def login_refused_def directory_def)
next
  case ans: False
  let ?us = "sv_users sv" and ?buf = "''login ok '' @ username @ crlf"
  have ui: "users_inv ?us" and sn: "short_names ?us" using inv by (simp_all add: chat_inv_def)
  obtain us3 where u3: "insertNodeToUserInfo username n ?us = Some (us3, node_answer ?us username n)"
      and rd: "node_ready ?us a n us3"
    using insertNode_ready [OF ui sn a len(3) ans] .
  have st: "store_str 256 ?buf = Some ?buf" "store_str MY_NAME_LENGTH userid = Some userid"
      "store_str MY_NAME_LENGTH n = Some n"
      "store_str 256 (insert_node_query userid n) = Some (insert_node_query userid n)"
    using len by (simp_all add: store_str_def insert_node_query_def sq_def num_consts crlf_def)
  define sv1 where "sv1 = (if node_answer ?us username n = 1
    then mysqlRunCommand my (insert_node_query userid n) (sv\<lparr>sv_users := us3\<rparr>) else sv\<lparr>sv_users := us3\<rparr>)"
  let ?sv2 = "upd_client c (log_node username userid n) (addReplyString c ?buf sv1)"
  have sv2: "sessions ?sv2 = map (\<lambda>x. if c_addr x = c then log_node username userid n x else x) (sessions sv)"
    "sv_users ?sv2 = us3" by (simp_all add: sessions_log_node sv1_def)
  obtain sv' where sv': "chatSend ''nodeinfo'' n username ''on'' MYNODE_TYPE_USER ?sv2 \<bind> set_node_state username n ''on'' = Some sv'"
      "chat_inv sv'" "sessions sv' = sessions ?sv2" "directory (sv_users sv') = directory ?us"
    using node_admit_session [OF inv cl no(1) a rd len sv2] by blast
  have "node_admit my c userid n username sv =
      chatSend ''nodeinfo'' n username ''on'' MYNODE_TYPE_USER ?sv2 \<bind> set_node_state username n ''on''"
    using u3 ans st by (simp add: node_admit_def Let_def log_node_eq sv1_def)
  then show ?thesis using sv' sv2(1) by simp
qed

text \<open>The search for the identifier, and the test of the node's state.\<close>

lemma nodeLogin_known:
  assumes inv: "chat_inv sv" and cl: "client c sv = Some x" and no: "\<not> c_isvaliduser x" "\<not> c_isvalidnode x"
    and a: "userid_addr (sv_users sv) userid = Some a"
  obtains us state where "users_same (sv_users sv) us"
    "nodeLogin my c userid nodename sv = (if state = ''on'' then Some (login_refused c errAlreadyLogin (sv\<lparr>sv_users := us\<rparr>))
       else node_admit my c userid nodename (ui_name (us_heap (sv_users sv) ! a)) (sv\<lparr>sv_users := us\<rparr>))"
    "state = ''on'' \<Longrightarrow> user_addr (sv_users sv) [] \<noteq> None"
proof -
  let ?us = "sv_users sv" and ?name = "ui_name (us_heap (sv_users sv) ! a)"
  have ui: "users_inv ?us" using inv by (simp add: chat_inv_def)
  have un: "c_username x = []" using session_ok_client [OF inv cl] no by (simp add: session_ok_def)
  obtain us1 sz where u1: "getUserNodeSize ?name ?us = Some (us1, sz)" and s1: "users_same ?us us1"
    using getUserNodeSize_ok [OF ui, of ?name] by blast
  have ui1: "users_inv us1" using s1 by (simp add: users_same_def)
  define state where "state = (case user_addr us1 (c_username x) of None \<Rightarrow> []
    | Some a \<Rightarrow> (case node_index (c_nodename x) (us_heap us1 ! a) of None \<Rightarrow> []
      | Some j \<Rightarrow> ni_line (ui_nodes (us_heap us1 ! a) ! j)))"
  obtain us2 where u2: "chatSetOrGetNodeInfo (c_username x) (c_nodename x) [] OPERATION_GET_INFO us1 = Some (us2, state)"
      and s2: "users_same us1 us2"
    using chatSetOrGetNodeInfo_get [OF ui1, of "c_username x" "c_nodename x" "[]"] unfolding state_def by blast
  have same: "users_same ?us us2" using s1 s2 by (simp add: users_same_def)
  have "user_addr us1 [] = user_addr ?us []" using users_same_addr [OF s1] by simp
  then have st: "user_addr ?us [] \<noteq> None" if "state = ''on''" using that un by (auto simp: state_def split: option.splits)
  have "nodeLogin my c userid nodename sv = (if state = ''on'' then Some (login_refused c errAlreadyLogin (sv\<lparr>sv_users := us2\<rparr>))
       else node_admit my c userid nodename ?name (sv\<lparr>sv_users := us2\<rparr>))"
    using cl no getNameByUserid_ok [OF ui, of userid] a u1 u2 by (simp add: nodeLogin_def Let_def)
  from that [OF same this st] show ?thesis .
qed

lemma nodeLogin_ok:
  assumes inv: "chat_inv sv" and cl: "client c sv = Some x"
    and len: "length userid \<le> MAX_PRINTABLE" "length nodename \<le> MAX_PRINTABLE"
  shows "\<exists>sv'. nodeLogin my c userid nodename sv = Some sv' \<and> chat_inv sv'"
proof (cases "c_isvaliduser x \<or> c_isvalidnode x")
  case True
  then show ?thesis using cl reply_quiet [OF inv] by (simp add: nodeLogin_def)
next
  case False
  then have no: "\<not> c_isvaliduser x" "\<not> c_isvalidnode x" by simp_all
  let ?us = "sv_users sv"
  have ui: "users_inv ?us" and sn: "short_names ?us" using inv by (simp_all add: chat_inv_def)
  show ?thesis
  proof (cases "userid_addr ?us userid")
    case None
    then show ?thesis using cl no getNameByUserid_ok [OF ui, of userid] login_refused_quiet [OF inv cl no]
      by (simp add: nodeLogin_def)
  next
    case (Some a)
    let ?name = "ui_name (us_heap ?us ! a)"
    have al: "a < length (us_heap ?us)" using userid_addr_Some [OF Some] by simp
    obtain us state where k: "users_same ?us us"
      "nodeLogin my c userid nodename sv = (if state = ''on'' then Some (login_refused c errAlreadyLogin (sv\<lparr>sv_users := us\<rparr>))
         else node_admit my c userid nodename ?name (sv\<lparr>sv_users := us\<rparr>))"
      using nodeLogin_known [OF inv cl no Some] by metis
    have inv2: "chat_inv (sv\<lparr>sv_users := us\<rparr>)" by (rule chat_inv_users [OF inv k(1)])
    have cl2: "client c (sv\<lparr>sv_users := us\<rparr>) = Some x" using cl by simp
    have "user_addr us ?name = Some a" using user_addr_self [OF ui al] users_same_addr [OF k(1)] by simp
    moreover have "length ?name \<le> MAX_PRINTABLE" using sn al by (simp add: short_names_def)
    ultimately show ?thesis
      using k(2) node_admit_ok [OF inv2 cl2 no, of ?name a userid nodename my] len login_refused_quiet [OF inv2 cl2 no]
      by auto
  qed
qed

section \<open>New users\<close>

lemma insertUserInfo_short:
  assumes ui: "users_inv us" and sn: "short_names us"
    and len: "length userid \<le> MAX_PRINTABLE" "length username \<le> MAX_PRINTABLE"
  obtains us' where "insertUserInfo can userid username us = Some us'" "users_inv us'" "short_names us'"
    "us_heap us' = us_heap us @ (if user_addr us username = None then [new_user userid username (us_all us)] else [])"
proof -
  have "length username < MY_NAME_LENGTH" "length userid < MY_NAME_LENGTH" using len by (simp_all add: num_consts)
  then obtain us' where u: "insertUserInfo can userid username us = Some us'" "users_inv us'"
    "us_heap us' = us_heap us @ (if user_addr us username = None then [new_user userid username (us_all us)] else [])"
    using insertUserInfo_ok [OF ui] by blast
  then have "short_names us'" using sn len by (auto simp: short_names_user short_user_def)
  then show ?thesis using that u by blast
qed

lemma insertUser_inv:
  assumes inv: "chat_inv sv" and len: "length userid \<le> MAX_PRINTABLE" "length username \<le> MAX_PRINTABLE"
  shows "\<exists>us'. insertUserInfo can userid username (sv_users sv) = Some us' \<and> chat_inv (sv\<lparr>sv_users := us'\<rparr>)
    \<and> us_heap us' = us_heap (sv_users sv) @ (if user_addr (sv_users sv) username = None
        then [new_user userid username (us_all (sv_users sv))] else [])"
proof -
  have ui: "users_inv (sv_users sv)" and sn: "short_names (sv_users sv)"
    and si: "sessions_inv (sessions sv) (sv_users sv)" using inv by (auto simp: chat_inv_def)
  obtain us' where u: "insertUserInfo can userid username (sv_users sv) = Some us'" "users_inv us'" "short_names us'"
    "us_heap us' = us_heap (sv_users sv) @ (if user_addr (sv_users sv) username = None
       then [new_user userid username (us_all (sv_users sv))] else [])"
    using insertUserInfo_short [OF ui sn len] .
  have "sessions_inv (sessions sv) us'"
  proof (cases "user_addr (sv_users sv) username")
    case None
    then show ?thesis using u(4) by (intro sessions_new_user [OF si u(2) _ None ui]) simp
  next
    case (Some a)
    then show ?thesis using u by (intro sessions_inv_same [OF _ si]) (simp add: users_same_def)
  qed
  then have "chat_inv (sv\<lparr>sv_users := us'\<rparr>)" using u by (simp add: chat_inv_def)
  then show ?thesis using u by blast
qed

end
