(* ===== verification/Mychat_Cron.thy ===== *)
theory Mychat_Cron
  imports Mychat_Serve
begin

text \<open>
  The periodic check for idle clients: it keeps the invariant, and with few clients it drops
  exactly those that were silent for too long.
\<close>

section \<open>Rotation\<close>

lemma listRotate_clients_rotate: "rotate1 (listRotate_clients xs) = xs"
proof (cases "length xs \<le> 1")
  case True
  then show ?thesis by (cases xs) (auto simp: listRotate_clients_def)
next
  case False
  then have "xs \<noteq> []" by auto
  then show ?thesis using False by (simp add: listRotate_clients_def)
qed

lemma listRotate_clients_last: "xs \<noteq> [] \<Longrightarrow> listRotate_clients xs = last xs # butlast xs"
  by (cases xs) (auto simp: listRotate_clients_def)

lemma sessions_rotate: "rotate1 (sessions (sv\<lparr>sv_clients := listRotate_clients (sv_clients sv)\<rparr>)) = sessions sv"
proof -
  have "rotate1 (map strip (listRotate_clients (sv_clients sv))) = map strip (rotate1 (listRotate_clients (sv_clients sv)))"
    by (simp add: rotate1_map)
  then show ?thesis by (simp add: sessions_def listRotate_clients_rotate)
qed

lemma rotate_inv:
  assumes "chat_inv sv"
  shows "chat_inv (sv\<lparr>sv_clients := listRotate_clients (sv_clients sv)\<rparr>)"
proof -
  let ?sv = "sv\<lparr>sv_clients := listRotate_clients (sv_clients sv)\<rparr>"
  have "set (sessions ?sv) = set (sessions sv)" using sessions_rotate [of sv] by (metis set_rotate1)
  moreover have "distinct (map c_addr (sessions ?sv)) = distinct (map c_addr (sessions sv))"
    using sessions_rotate [of sv] by (metis distinct1_rotate rotate1_map)
  ultimately show ?thesis using assms by (simp add: chat_inv_def sessions_inv_def)
qed

section \<open>The check\<close>

text \<open>A client without what it is sent.\<close>

definition unsent :: "redisClient \<Rightarrow> redisClient" where
  "unsent x = x\<lparr>c_reply := []\<rparr>"

definition config :: "'m server \<Rightarrow> int \<times> nat \<times> int" where
  "config sv = (sv_unixtime sv, sv_hz sv, sv_maxidletime sv)"

lemma chatSend_unsent:
  assumes "chatSend tag from to msg ty sv = Some sv'"
  shows "map unsent (sv_clients sv') = map unsent (sv_clients sv)" "config sv' = config sv"
proof -
  have "chatSend_loop line to ty xs = Some ys \<Longrightarrow> map unsent ys = map unsent xs" for line xs ys
    by (induction xs arbitrary: ys) (auto simp: unsent_def bind_eq_Some_conv split: if_splits)
  then show "map unsent (sv_clients sv') = map unsent (sv_clients sv)" "config sv' = config sv"
    using assms by (auto simp: chatSend_def config_def bind_eq_Some_conv)
qed

lemma set_line_unsent:
  "set_user_line k st sv = Some sv' \<Longrightarrow> sv_clients sv' = sv_clients sv \<and> config sv' = config sv"
  "set_node_state k n st sv = Some sv' \<Longrightarrow> sv_clients sv' = sv_clients sv \<and> config sv' = config sv"
  by (auto simp: set_user_line_def set_node_state_def config_def bind_eq_Some_conv)

lemma chatNotifyUserInfo_unsent:
  assumes "chatNotifyUserInfo c sv = Some sv'"
  shows "map unsent (sv_clients sv') = map unsent (sv_clients sv) \<and> config sv' = config sv"
  using assms chatSend_unsent set_line_unsent
  unfolding chatNotifyUserInfo_def by (fastforce simp: bind_eq_Some_conv split: if_splits)

lemma freeClient_unsent:
  assumes "freeClient c sv = Some sv'"
  shows "map unsent (sv_clients sv') = filter (\<lambda>x. c_addr x \<noteq> c) (map unsent (sv_clients sv)) \<and> config sv' = config sv"
proof -
  obtain sv1 where s: "chatNotifyUserInfo c sv = Some sv1" "sv' = sv1\<lparr>sv_clients := filter (\<lambda>x. c_addr x \<noteq> c) (sv_clients sv1)\<rparr>"
    using assms by (auto simp: freeClient_def bind_eq_Some_conv)
  have "map unsent (filter (\<lambda>x. c_addr x \<noteq> c) xs) = filter (\<lambda>x. c_addr x \<noteq> c) (map unsent xs)" for xs
    by (induction xs) (simp_all add: unsent_def)
  then show ?thesis using chatNotifyUserInfo_unsent [OF s(1)] s(2) by (simp add: config_def)
qed

lemma clientsCronHandleTimeout_ok:
  assumes inv: "chat_inv sv" and x: "x \<in> set (sv_clients sv)"
  shows "\<exists>sv'. clientsCronHandleTimeout x sv = Some sv' \<and> chat_inv sv'"
proof -
  obtain y where "client (c_addr x) sv = Some y"
    using client_exists [of "c_addr x" sv] x by (auto simp: sessions_def image_image)
  then have "\<exists>sv'. freeClient (c_addr x) sv = Some sv' \<and> chat_inv sv'" using freeClient_ok [OF inv] by blast
  then show ?thesis using inv by (simp add: clientsCronHandleTimeout_def)
qed

lemma clientsCron_loop_ok:
  "chat_inv sv \<Longrightarrow> \<exists>sv'. clientsCron_loop n sv = Some sv' \<and> chat_inv sv'"
proof (induction n arbitrary: sv)
  case (Suc n)
  show ?case
  proof (cases "sv_clients sv = []")
    case False
    let ?sv = "sv\<lparr>sv_clients := listRotate_clients (sv_clients sv)\<rparr>"
    have "hd (sv_clients ?sv) \<in> set (sv_clients ?sv)" using False by (simp add: listRotate_clients_last)
    then obtain sv1 where "clientsCronHandleTimeout (hd (sv_clients ?sv)) ?sv = Some sv1" "chat_inv sv1"
      using clientsCronHandleTimeout_ok [OF rotate_inv [OF Suc.prems]] by blast
    then show ?thesis using Suc.IH [of sv1] False by (simp add: Let_def)
  qed (use Suc.prems in simp)
qed simp

lemma clientsCron_ok: "chat_inv sv \<Longrightarrow> \<exists>sv'. clientsCron sv = Some sv' \<and> chat_inv sv'"
  unfolding clientsCron_def Let_def by (rule clientsCron_loop_ok)

section \<open>Whom it drops\<close>

lemma timed_out_config: "config sv' = config sv \<Longrightarrow> timed_out sv' = timed_out sv" "timed_out sv (unsent x) = timed_out sv x"
  by (auto simp: timed_out_def config_def unsent_def fun_eq_iff)

lemma clientsCronHandleTimeout_unsent:
  assumes "clientsCronHandleTimeout x sv = Some sv'" "sv_clients sv = x # xs" "distinct (map c_addr (x # xs))"
  shows "map unsent (sv_clients sv') = (if timed_out sv x then map unsent xs else unsent x # map unsent xs)
    \<and> config sv' = config sv"
proof (cases "timed_out sv x")
  case True
  have "filter (\<lambda>y. c_addr y \<noteq> c_addr x) (map unsent xs) = map unsent xs"
    using assms(3) by (intro filter_True) (auto simp: unsent_def, metis image_eqI)
  moreover have "c_addr (unsent x) = c_addr x" by (simp add: unsent_def)
  ultimately show ?thesis using assms True freeClient_unsent [of "c_addr x" sv sv']
    by (simp add: clientsCronHandleTimeout_def)
next
  case False
  then show ?thesis using assms by (simp add: clientsCronHandleTimeout_def)
qed

text \<open>The clients are visited from the end of the list; those kept move to the front.\<close>

lemma clientsCron_loop_unsent:
  assumes "chat_inv sv" "clientsCron_loop n sv = Some sv'" "n \<le> length (sv_clients sv)"
  shows "map unsent (sv_clients sv') = filter (\<lambda>x. \<not> timed_out sv x) (drop (length (sv_clients sv) - n) (map unsent (sv_clients sv)))
    @ take (length (sv_clients sv) - n) (map unsent (sv_clients sv))"
  using assms
proof (induction n arbitrary: sv)
  case 0
  then show ?case by simp
next
  case (Suc n)
  define bl l where "bl = butlast (sv_clients sv)" and "l = last (sv_clients sv)"
  have ne: "sv_clients sv \<noteq> []" using Suc.prems(3) by auto
  then have cs: "sv_clients sv = bl @ [l]" by (simp add: bl_def l_def)
  let ?sv = "sv\<lparr>sv_clients := listRotate_clients (sv_clients sv)\<rparr>"
  have rot: "sv_clients ?sv = l # bl" using ne by (simp add: listRotate_clients_last bl_def l_def)
  have inv: "chat_inv ?sv" by (rule rotate_inv [OF Suc.prems(1)])
  obtain sv1 where h: "clientsCronHandleTimeout l ?sv = Some sv1" and r: "clientsCron_loop n sv1 = Some sv'"
    using Suc.prems(2) ne rot by (auto simp: Let_def bind_eq_Some_conv)
  have inv1: "chat_inv sv1" using clientsCronHandleTimeout_ok [OF inv, of l] rot h by auto
  have "distinct (map c_addr (l # bl))" using inv rot by (simp add: chat_inv_def sessions_inv_def sessions_def comp_def)
  from clientsCronHandleTimeout_unsent [OF h rot this]
  have u: "map unsent (sv_clients sv1) = (if timed_out ?sv l then map unsent bl else unsent l # map unsent bl)"
    "config sv1 = config sv" by (simp_all add: config_def)
  have t: "timed_out ?sv = timed_out sv" "timed_out sv1 = timed_out sv"
    by (rule timed_out_config(1); use u(2) in \<open>simp add: config_def\<close>)+
  have len: "length (sv_clients sv1) = (if timed_out sv l then length bl else Suc (length bl))"
    using arg_cong [OF u(1), of length] t(1) by (simp split: if_splits)
  have n: "n \<le> length bl" using Suc.prems(3) cs by simp
  have "n \<le> length (sv_clients sv1)" using n len by simp
  from Suc.IH [OF inv1 r this] show ?case
    using n u(1) len t cs by (auto simp: timed_out_config(2) Suc_diff_le)
qed

text \<open>With fewer than fifty clients every one of them is visited.\<close>

lemma clientsCron_unsent:
  assumes inv: "chat_inv sv" and few: "length (sv_clients sv) < 50" and r: "clientsCron sv = Some sv'"
  shows "map unsent (sv_clients sv') = filter (\<lambda>x. \<not> timed_out sv x) (map unsent (sv_clients sv))"
proof -
  have "length (sv_clients sv) div (sv_hz sv * 10) < 50" using few by (meson div_le_dividend le_less_trans)
  then have "clientsCron_loop (length (sv_clients sv)) sv = Some sv'" using r few by (simp add: clientsCron_def Let_def)
  from clientsCron_loop_unsent [OF inv this] show ?thesis by simp
qed

lemma clientsCron_kept:
  assumes "chat_inv sv" "length (sv_clients sv) < 50" "clientsCron sv = Some sv'"
  shows "map c_addr (sv_clients sv') = map c_addr (filter (\<lambda>x. \<not> timed_out sv x) (sv_clients sv))"
proof -
  have u: "map c_addr xs = map c_addr (map unsent xs)" for xs by (simp add: unsent_def)
  have "filter (\<lambda>x. \<not> timed_out sv x) (map unsent xs) = map unsent (filter (\<lambda>x. \<not> timed_out sv x) xs)" for xs
    by (simp add: filter_map comp_def timed_out_config(2))
  then show ?thesis unfolding u [of "sv_clients sv'"] clientsCron_unsent [OF assms] by (simp only: u [symmetric])
qed

end
