(* ===== verification/Myregister.thy ===== *)
theory Myregister
  imports Mychat_Serve Md5
begin

text \<open>
  Registration of new users (\<^verbatim>\<open>server/src/myregister.c\<close>): a client asks for an identifier for an
  e-mail address, which is the MD5 sum of the address and a random number, and then registers a
  name with it.  Buffers have 256 characters; \<open>None\<close> means that one of them is overrun.
\<close>

section \<open>The command\<close>

definition errRegisterInvalidEmail :: string where "errRegisterInvalidEmail = ''register fail  invalidEmail'' @ crlf"
definition errRegisterEmailIsExist :: string where "errRegisterEmailIsExist = ''register fail  emailIsExist'' @ crlf"
definition errRegisterUsernameIsExist :: string where
  "errRegisterUsernameIsExist = ''register fail  usernameIsExist'' @ crlf"
definition errRegisterInvalidUserid :: string where "errRegisterInvalidUserid = ''register fail  invalidUserid'' @ crlf"
definition okRegister :: string where "okRegister = ''register ok'' @ crlf"

definition query_email :: "string \<Rightarrow> string" where
  "query_email email = ''select  *  from alluser where email='' @ sq @ email @ sq @ '';''"
definition query_emailmd5 :: "string \<Rightarrow> string" where
  "query_emailmd5 email = ''select  *  from emailmd5 where email='' @ sq @ email @ sq @ '';''"
definition query_saltmd5 :: "string \<Rightarrow> string" where
  "query_saltmd5 userid = ''select  *  from emailmd5 where saltmd5='' @ sq @ userid @ sq @ '';''"
definition query_name :: "string \<Rightarrow> string" where
  "query_name username = ''select  *  from alluser where name='' @ sq @ username @ sq @ '';''"
definition update_emailmd5 :: "string \<Rightarrow> string \<Rightarrow> string" where
  "update_emailmd5 saltmd5 email = ''update  emailmd5 set saltmd5='' @ sq @ saltmd5 @ sq @ '' where email='' @ sq @ email @ sq"
definition insert_emailmd5 :: "string \<Rightarrow> string \<Rightarrow> string" where
  "insert_emailmd5 email saltmd5 = ''insert into emailmd5 values('' @ sq @ email @ sq @ '','' @ sq @ saltmd5 @ sq @ '')''"
definition insert_alluser :: "string \<Rightarrow> string \<Rightarrow> string \<Rightarrow> string \<Rightarrow> string" where
  "insert_alluser userid username password email = ''insert into alluser values('' @ sq @ userid @ sq @ '', '' @ sq
     @ username @ sq @ '',  '' @ sq @ password @ sq @ '','' @ sq @ email @ sq @ '');''"

text \<open>The stack garbage: the variable that \<^verbatim>\<open>mysql_is_exist\<close> tests, in its two calls, and the context of MD5.\<close>

definition register_getuserid :: "bool \<times> bool \<Rightarrow> md5_context \<Rightarrow> 'm mysql \<Rightarrow> nat \<Rightarrow> string \<Rightarrow> 'm server \<Rightarrow> 'm server option" where
  "register_getuserid t ctx my c email sv = (
    if CHR 0x40 \<notin> set email then Some (addReplyString c errRegisterInvalidEmail sv)
    else do {
      cmd \<leftarrow> store_str 256 (query_email email);
      if mysql_is_exist my (fst t) cmd sv then Some (addReplyString c errRegisterEmailIsExist sv)
      else do {
        let (r, g) = redisLrand48 (sv_rand sv);
        let sv = sv\<lparr>sv_rand := g\<rparr>;
        myrandom \<leftarrow> store_str 256 (show_int r);
        buf \<leftarrow> store_str 256 (email @ myrandom);
        md5buf \<leftarrow> store_str 256 (mymd5 ctx buf);
        buf \<leftarrow> store_str 256 (''register ok   '' @ md5buf @ ''  '' @ myrandom @ crlf);
        let sv = addReplyString c buf sv;
        cmd \<leftarrow> store_str 256 (query_emailmd5 email);
        if mysql_is_exist my (snd t) cmd sv
        then do {
          cmd \<leftarrow> store_str 256 (update_emailmd5 md5buf email);
          Some (mysqlRunCommand my cmd sv)
        }
        else do {
          cmd \<leftarrow> store_str 256 (insert_emailmd5 email md5buf);
          Some (mysqlRunCommand my cmd sv)
        }
      }
    })"

definition register_adduser :: "bool \<times> bool \<Rightarrow> bool \<Rightarrow> 'm mysql \<Rightarrow> nat \<Rightarrow> string \<Rightarrow> string \<Rightarrow> string \<Rightarrow> string
    \<Rightarrow> 'm server \<Rightarrow> 'm server option" where
  "register_adduser t can my c username password userid email sv = do {
    cmd \<leftarrow> store_str 256 (query_saltmd5 userid);
    if \<not> mysql_is_exist my (fst t) cmd sv then Some (addReplyString c errRegisterInvalidUserid sv)
    else do {
      cmd \<leftarrow> store_str 256 (query_name username);
      if mysql_is_exist my (snd t) cmd sv then Some (addReplyString c errRegisterUsernameIsExist sv)
      else do {
        cmd \<leftarrow> store_str 256 (insert_alluser userid username password email);
        let sv = addReplyString c okRegister (mysqlRunCommand my cmd sv);
        us \<leftarrow> insertUserInfo can userid username (sv_users sv);
        Some (sv\<lparr>sv_users := us\<rparr>)
      }
    }
  }"

definition registerCommand :: "bool \<times> bool \<Rightarrow> md5_context \<Rightarrow> bool \<Rightarrow> 'm mysql \<Rightarrow> nat \<Rightarrow> string \<Rightarrow> string \<Rightarrow> string
    \<Rightarrow> string \<Rightarrow> string \<Rightarrow> 'm server \<Rightarrow> 'm server option" where
  "registerCommand t ctx can my c argv1 argv2 argv3 argv4 argv5 sv = (
    if argv1 = ''getuserid'' then register_getuserid t ctx my c argv2 sv
    else if argv1 = ''adduser'' then register_adduser t can my c argv2 argv3 argv4 argv5 sv
    else Some sv)"

section \<open>It keeps the invariant\<close>

lemma length_mymd5: "length (mymd5 ctx s) = 32"
  by (simp add: mymd5_def md5_def md5_finish_def PUT_ULONG_LE_def Let_def length_concat comp_def split: prod.split)

lemma random_digits: "redisLrand48 g = (r, g') \<Longrightarrow> length (show_int r) \<le> 11"
proof -
  assume "redisLrand48 g = (r, g')"
  then obtain w :: u32 where "r = sint w" by (auto simp: redisLrand48_def Let_def)
  then have "r < 2 ^ 31" "- (2 ^ 31) \<le> r" using sint_less [of w] sint_ge [of w] by simp_all
  then have "nat r < 10 ^ 10" "nat (- r) < 10 ^ 10" by simp_all
  then show ?thesis using show_nat_rev_length [of "nat r" 10] show_nat_rev_length [of "nat (- r)" 10]
    by (simp add: show_int_def show_nat_def)
qed

lemmas queries = query_email_def query_emailmd5_def query_saltmd5_def query_name_def update_emailmd5_def
  insert_emailmd5_def insert_alluser_def

lemma register_getuserid_ok:
  assumes inv: "chat_inv sv" and len: "length email \<le> MAX_PRINTABLE"
  shows "\<exists>sv'. register_getuserid t ctx my c email sv = Some sv' \<and> chat_inv sv'"
proof -
  obtain r g where r: "redisLrand48 (sv_rand sv) = (r, g)" by fastforce
  note d = random_digits [OF r]
  have l: "length email \<le> 60" using len by (simp add: num_consts)
  have st: "store_str 256 (query_email email) = Some (query_email email)" "store_str 256 (show_int r) = Some (show_int r)"
    "store_str 256 (email @ show_int r) = Some (email @ show_int r)"
    "store_str 256 (mymd5 ctx s) = Some (mymd5 ctx s)"
    "store_str 256 (''register ok   '' @ mymd5 ctx s @ ''  '' @ show_int r @ crlf) = Some (''register ok   '' @ mymd5 ctx s @ ''  '' @ show_int r @ crlf)"
    "store_str 256 (query_emailmd5 email) = Some (query_emailmd5 email)"
    "store_str 256 (update_emailmd5 (mymd5 ctx s) email) = Some (update_emailmd5 (mymd5 ctx s) email)"
    "store_str 256 (insert_emailmd5 email (mymd5 ctx s)) = Some (insert_emailmd5 email (mymd5 ctx s))" for s
    using l d by (simp_all add: store_str_def queries sq_def crlf_def length_mymd5)
  have q: "chat_inv (mysqlRunCommand my cmd (addReplyString c l (sv\<lparr>sv_rand := g\<rparr>)))" for cmd l
    using inv by (simp add: chat_inv_def) (simp add: sessions_def)
  show ?thesis using r st q reply_quiet [OF inv] by (simp add: register_getuserid_def Let_def)
qed

lemma register_adduser_ok:
  assumes inv: "chat_inv sv" and len: "length username \<le> MAX_PRINTABLE" "length userid \<le> MAX_PRINTABLE"
    and all: "length username + length password + length userid + length email \<le> 200"
  shows "\<exists>sv'. register_adduser t can my c username password userid email sv = Some sv' \<and> chat_inv sv'"
proof -
  have st: "store_str 256 (query_saltmd5 userid) = Some (query_saltmd5 userid)"
    "store_str 256 (query_name username) = Some (query_name username)"
    "store_str 256 (insert_alluser userid username password email) = Some (insert_alluser userid username password email)"
    using all by (simp_all add: store_str_def queries sq_def)
  let ?sv = "addReplyString c okRegister (mysqlRunCommand my (insert_alluser userid username password email) sv)"
  have i1: "chat_inv ?sv" using inv by (simp add: chat_inv_def)
  obtain us where "insertUserInfo can userid username (sv_users ?sv) = Some us" "chat_inv (?sv\<lparr>sv_users := us\<rparr>)"
    using insertUser_inv [OF i1 len(2,1), of can] by blast
  then show ?thesis using st reply_quiet [OF inv] by (simp add: register_adduser_def Let_def)
qed

lemma registerCommand_ok:
  assumes "chat_inv sv" "length argv2 \<le> MAX_PRINTABLE" "length argv4 \<le> MAX_PRINTABLE"
    and "length argv2 + length argv3 + length argv4 + length argv5 \<le> 200"
  shows "\<exists>sv'. registerCommand t ctx can my c argv1 argv2 argv3 argv4 argv5 sv = Some sv' \<and> chat_inv sv'"
  using register_getuserid_ok [OF assms(1,2)] register_adduser_ok [OF assms] assms(1) by (simp add: registerCommand_def)

end
