(* ===== verification/Mychat_Reach.thy ===== *)
theory Mychat_Reach
  imports Mychat_Cron Myregister
begin

text \<open>
  The remaining commands, and the server as a state machine: clients connect, send chat and node
  commands, register and go away, and time passes, in any order.
\<close>

section \<open>Messages\<close>

definition MAX_TEXT :: nat where [num_consts]: "MAX_TEXT = 900"

lemma chatSend_inv:
  assumes "chat_inv sv" "length tag \<le> 10" "length from \<le> MAX_PRINTABLE" "length msg \<le> MAX_TEXT"
  shows "\<exists>sv'. chatSend tag from to msg ty sv = Some sv' \<and> chat_inv sv'"
  using chatSend_short [of tag "from" msg "to" ty sv] assms by (auto simp: chat_inv_def num_consts)

lemma chatSay_ok:
  assumes inv: "chat_inv sv" and cl: "client c sv = Some x"
  shows "\<exists>sv'. chatSay c to msg sv = Some sv' \<and> chat_inv sv'"
proof -
  have "length (c_username x) \<le> MAX_PRINTABLE" using session_ok_client [OF inv cl] by (simp add: session_ok_def)
  then have "\<exists>sv'. chatSend ''chat'' (c_username x) to msg MYNODE_TYPE_USER sv = Some sv' \<and> chat_inv sv'"
    if "length msg \<le> MYCHAT_MAX_MESSAGE"
    using chatSend_inv [OF inv, of "''chat''" "c_username x" msg] that by (simp add: num_consts)
  then show ?thesis using cl reply_quiet [OF inv] by (simp add: chatSay_def)
qed

lemma nodeSay_ok:
  assumes inv: "chat_inv sv" and cl: "client c sv = Some x" and len: "length msg \<le> MAX_TEXT"
  shows "\<exists>sv'. nodeSay c to msg sv = Some sv' \<and> chat_inv sv'"
proof -
  have "length (c_username x) \<le> MAX_PRINTABLE" "length (c_nodename x) \<le> MAX_PRINTABLE"
    using session_ok_client [OF inv cl] by (auto simp: session_ok_def)
  then show ?thesis using cl inv len chatSend_inv [OF inv, of "''node''"]
    by (simp add: nodeSay_def)
qed

lemma heartbeat_inv: "chat_inv sv \<Longrightarrow> chat_inv (heartbeat c sv)"
  by (simp add: chat_inv_def)

section \<open>Listings for the administrator\<close>

lemma show_nat_u8: "n < 256 \<Longrightarrow> length (show_nat n) \<le> 3"
  unfolding show_nat_def by (simp add: show_nat_rev.simps [of n] show_nat_rev.simps [of "n div 10"]
      show_nat_rev.simps [of "n div 10 div 10"])

lemma pad_length: "length (pad n s) = max n (length s)"
  by (simp add: pad_def)

lemma dump_client_short:
  assumes "session_ok us x"
  shows "length (dump_client_line x) < 256"
proof -
  have "unat (c_mynode_type x) < 256" using unsigned_less [of "c_mynode_type x", where ?'a = nat] by simp
  then have "length (show_nat (unat (c_mynode_type x))) \<le> 3" by (rule show_nat_u8)
  then show ?thesis using assms
    by (auto simp: dump_client_line_def pad_length crlf_def session_ok_def num_consts)
qed

text \<open>One rotation and one line for each client; after the last one the list is as before.\<close>

lemma dumpClients_loop_ok:
  assumes "\<forall>x \<in> set (sv_clients sv). session_ok us x" "sv_clients sv \<noteq> []"
  shows "\<exists>sv'. dumpClients_loop c n sv = Some sv' \<and> rotate n (sessions sv') = sessions sv
    \<and> sv_users sv' = sv_users sv \<and> sv_db sv' = sv_db sv"
  using assms
proof (induction n arbitrary: sv)
  case 0
  then show ?case by simp
next
  case (Suc n)
  let ?sv1 = "sv\<lparr>sv_clients := listRotate_clients (sv_clients sv)\<rparr>"
  let ?h = "hd (listRotate_clients (sv_clients sv))"
  have set1: "set (listRotate_clients (sv_clients sv)) = set (sv_clients sv)"
    using listRotate_clients_rotate [of "sv_clients sv"] by (metis set_rotate1)
  have ne: "listRotate_clients (sv_clients sv) \<noteq> []" using set1 Suc.prems(2) by auto
  have "session_ok us ?h" using Suc.prems(1) set1 hd_in_set [OF ne] by auto
  then have st: "store_str 256 (dump_client_line ?h) = Some (dump_client_line ?h)"
    using dump_client_short by (simp add: store_str_def)
  let ?sv2 = "addReplyString c (dump_client_line ?h) ?sv1"
  have "\<forall>x \<in> set (sv_clients ?sv2). session_ok us x"
    using Suc.prems(1) set1 by (auto simp: addReplyString_def upd_client_def session_ok_def node_session_def)
  moreover have "sv_clients ?sv2 \<noteq> []" using ne by (simp add: addReplyString_def upd_client_def)
  ultimately obtain sv' where r: "dumpClients_loop c n ?sv2 = Some sv'" "rotate n (sessions sv') = sessions ?sv2"
      "sv_users sv' = sv_users ?sv2" "sv_db sv' = sv_db ?sv2"
    using Suc.IH by blast
  have "rotate (Suc n) (sessions sv') = sessions sv"
    using r(2) sessions_rotate [of sv] by simp
  then show ?case using r st by (simp add: Let_def)
qed

lemma dumpClients_ok:
  assumes inv: "chat_inv sv" and cl: "client c sv = Some x"
  shows "\<exists>sv'. dumpClients c sv = Some sv' \<and> chat_inv sv' \<and> sessions sv' = sessions sv"
proof -
  let ?l = "'' total '' @ pad 6 (show_nat (length (sv_clients sv))) @ '' client on line'' @ crlf"
  let ?sv1 = "addReplyString c ?l sv"
  have ne: "sv_clients sv \<noteq> []" using cl by (auto simp: client_def)
  have inv1: "chat_inv ?sv1" by (rule reply_quiet [OF inv])
  have "\<forall>x \<in> set (sv_clients ?sv1). session_ok (sv_users sv) x"
    using inv1 by (auto simp: chat_inv_def sessions_inv_def sessions_def)
  moreover have "sv_clients ?sv1 \<noteq> []" using ne by (simp add: addReplyString_def upd_client_def)
  ultimately obtain sv' where r: "dumpClients_loop c (length (sv_clients sv)) ?sv1 = Some sv'"
      "rotate (length (sv_clients sv)) (sessions sv') = sessions ?sv1" "sv_users sv' = sv_users ?sv1"
    using dumpClients_loop_ok by blast
  have "length (sessions sv') = length (sessions sv)" using arg_cong [OF r(2), of length] by simp
  then have "length (sessions sv') = length (sv_clients sv)" by (simp add: sessions_def)
  then have "sessions sv' = sessions sv" using r(2) by (metis rotate_id mod_self sessions_reply)
  then show ?thesis using r(1,3) inv by (simp add: dumpClients_def chat_inv_def)
qed

text \<open>The walk over the dictionary.\<close>

lemma iterator_safe:
  "iterator_start addrs d it = (d1, it1) \<Longrightarrow> it_safe it1 = it_safe it"
  "iterator_advance d it = (it2, go) \<Longrightarrow> it_safe it2 = it_safe it"
  by (auto simp: iterator_start_def iterator_advance_def Let_def split: if_splits)

lemma dictNext_safe: "dictNext addrs d it = (d', it', r) \<Longrightarrow> it_safe it' = it_safe it"
proof (induction addrs d it rule: dictNext.induct)
  case (1 addrs d it)
  note run = 1(3) [unfolded dictNext.simps [of addrs d it]]
  show ?case
  proof (cases "it_entry it")
    case Nil
    obtain d1 it1 where st: "iterator_start addrs d it = (d1, it1)" by fastforce
    obtain it2 go where ad: "iterator_advance d1 it1 = (it2, go)" by fastforce
    note sf = iterator_safe(1) [OF st] iterator_safe(2) [OF ad]
    show ?thesis
    proof (cases "go \<and> ht_table (dict_ht d1 (it_table it2)) ! nat (it_index it2) = []")
      case True
      then have "dictNext addrs d1 it2 = (d', it', r)" using run Nil st ad by simp
      then show ?thesis using 1(1) [OF Nil st [symmetric] refl ad [symmetric]] True sf by auto
    next
      case False
      then show ?thesis using run Nil st ad sf by (auto split: list.splits if_splits)
    qed
  next
    case (Cons e es)
    show ?thesis
    proof (cases "it_nextEntry it")
      case Nil
      then show ?thesis using run Cons 1(2) [OF Cons Nil] by simp
    qed (use run Cons in auto)
  qed
qed

lemma represents_same_tables:
  "ht0 d' = ht0 d \<Longrightarrow> ht1 d' = ht1 d \<Longrightarrow> rehashidx d' = rehashidx d \<Longrightarrow> represents t d' m = represents t d m"
  by (simp add: represents_def dict_inv_def dict_abs_def [abs_def] dict_entries_def dictIsRehashing_def)

lemma users_same_tables:
  assumes "users_inv us" "ht0 d' = ht0 (us_dict us)" "ht1 d' = ht1 (us_dict us)" "rehashidx d' = rehashidx (us_dict us)"
  shows "users_same us (us\<lparr>us_dict := d'\<rparr>)"
proof -
  have "user_addr (us\<lparr>us_dict := d'\<rparr>) = user_addr us" by (simp add: user_addr_def fun_eq_iff)
  then show ?thesis using assms represents_same_tables [OF assms(2-4)]
    by (simp add: users_same_def users_inv_def)
qed

lemma dict_entry_user:
  assumes inv: "users_inv us" and e: "e \<in> set (dict_entries (us_dict us))"
  obtains a where "de_val e = Some a" "a < length (us_heap us)"
proof -
  have r: "dict_inv user_type (us_dict us)" "dict_abs user_type (us_dict us) = (\<lambda>k. map_option Some (user_addr us k))"
    using inv by (auto simp: users_inv_def represents_def)
  have "matching user_type (de_key e) e" by (simp add: matching_def user_type_simps)
  then have "find (matching user_type (de_key e)) (dict_entries (us_dict us)) = Some e"
    using r(1) e distinct_keys_find by (metis dict_inv_def)
  then have "map_option Some (user_addr us (de_key e)) = Some (de_val e)"
    using fun_cong [OF r(2), of "de_key e"] by (simp add: dict_abs_def)
  then obtain a where a: "user_addr us (de_key e) = Some a" "de_val e = Some a"
    by (cases "user_addr us (de_key e)") auto
  then show ?thesis using that user_addr_Some [OF a(1)] by blast
qed

lemma dump_user_lines_short: "user_ok u \<Longrightarrow> short_user u \<Longrightarrow> print_all (dump_user_lines u) = Some (dump_user_lines u)"
proof (intro print_all_ok ballI)
  fix s assume u: "user_ok u" "short_user u" and s: "s \<in> set (dump_user_lines u)"
  have nd: "length (ni_name nd) \<le> 60 \<and> length (ni_line nd) \<le> 3" if "nd \<in> set (take (ui_index u) (ui_nodes u))" for nd
  proof -
    have "length (ni_name nd) \<le> 60" "ni_line nd \<in> {''on'', ''off''}"
      using u that by (auto simp: short_user_def user_ok_def node_ok_def num_consts)
    then show ?thesis by auto
  qed
  have "length (ui_name u) \<le> 60" "length (ui_userid u) \<le> 60" using u by (auto simp: short_user_def num_consts)
  then show "length s < 256" using s nd
    by (fastforce simp: dump_user_lines_def pad_length crlf_def)
qed

lemma dumpAlluser_loop_ok:
  assumes "users_inv (sv_users sv)" "short_names (sv_users sv)" "iter_ok (us_dict (sv_users sv)) di"
    and "set (iter_rest (us_dict (sv_users sv)) di) \<subseteq> set (dict_entries (us_dict (sv_users sv)))"
  shows "\<exists>di' sv'. dumpAlluser_loop addrs c di sv = Some (di', sv') \<and> it_safe di' = it_safe di
    \<and> sessions sv' = sessions sv \<and> users_same (sv_users sv) (sv_users sv')"
  using assms
proof (induction "length (iter_rest (us_dict (sv_users sv)) di)" arbitrary: sv di rule: less_induct)
  case less
  let ?us = "sv_users sv"
  obtain d' it' r where nx: "dictNext addrs (us_dict ?us) di = (d', it', r)" by (metis surj_pair)
  have rest: "iter_ok d' it'" "ht0 d' = ht0 (us_dict ?us)" "ht1 d' = ht1 (us_dict ?us)" "rehashidx d' = rehashidx (us_dict ?us)"
      "case r of None \<Rightarrow> iter_rest (us_dict ?us) di = [] | Some e \<Rightarrow> iter_rest (us_dict ?us) di = e # iter_rest d' it'"
    using dictNext_rest [OF less.prems(3) nx] by auto
  let ?us1 = "?us\<lparr>us_dict := d'\<rparr>"
  have s1: "users_same ?us ?us1" by (rule users_same_tables [OF less.prems(1) rest(2-4)])
  have sf: "it_safe it' = it_safe di" by (rule dictNext_safe [OF nx])
  show ?case
  proof (cases r)
    case None
    then show ?thesis using nx s1 sf by (subst dumpAlluser_loop.simps) (simp add: Let_def)
  next
    case (Some e)
    then have ir: "iter_rest (us_dict ?us) di = e # iter_rest d' it'" using rest(5) by simp
    obtain a where a: "de_val e = Some a" "a < length (us_heap ?us)"
      using dict_entry_user [OF less.prems(1), of e] less.prems(4) ir by auto
    let ?u = "us_heap ?us ! a"
    let ?sv1 = "foldl (\<lambda>sv l. addReplyString c l sv) (sv\<lparr>sv_users := ?us1\<rparr>) (dump_user_lines ?u)"
    have pr: "print_all (dump_user_lines ?u) = Some (dump_user_lines ?u)"
      by (rule dump_user_lines_short) (use less.prems a in \<open>auto simp: users_inv_ok short_names_user\<close>)
    have "dict_entries d' = dict_entries (us_dict ?us)" using rest(2,3) by (simp add: dict_entries_def)
    then have "\<exists>di' sv'. dumpAlluser_loop addrs c it' ?sv1 = Some (di', sv') \<and> it_safe di' = it_safe it'
        \<and> sessions sv' = sessions ?sv1 \<and> users_same (sv_users ?sv1) (sv_users sv')"
      using less.prems ir rest(1) s1
      by (intro less.hyps) (auto simp: users_same_def short_names_def)
    then obtain di' sv' where r: "dumpAlluser_loop addrs c it' ?sv1 = Some (di', sv')" "it_safe di' = it_safe it'"
        "sessions sv' = sessions sv" "users_same ?us1 (sv_users sv')" by auto
    have "users_same ?us (sv_users sv')" using s1 r(4) by (simp add: users_same_def)
    moreover have "dumpAlluser_loop addrs c di sv = Some (di', sv')"
      using nx Some a pr r(1) by (subst dumpAlluser_loop.simps) (simp add: Let_def deref_def)
    ultimately show ?thesis using r sf by auto
  qed
qed

lemma dumpAlluser_ok:
  assumes inv: "chat_inv sv"
  shows "\<exists>sv'. dumpAlluser addrs c sv = Some sv' \<and> chat_inv sv'"
proof -
  let ?d = "us_dict (sv_users sv)"
  have ui: "users_inv (sv_users sv)" "short_names (sv_users sv)" using inv by (auto simp: chat_inv_def)
  have di: "dict_inv user_type ?d" using ui(1) by (simp add: users_inv_def represents_def)
  obtain di' sv' where r: "dumpAlluser_loop addrs c dictGetSafeIterator sv = Some (di', sv')" "it_safe di'"
      "sessions sv' = sessions sv" "users_same (sv_users sv) (sv_users sv')"
    using dumpAlluser_loop_ok [OF ui, of dictGetSafeIterator addrs c] iter_rest_new(3,4) [OF di]
    by (auto simp: dictGetSafeIterator_def)
  have "dictReleaseIterator addrs d di' = Some (d\<lparr>iterators := if it_index di' = -1 \<and> it_table di' = 0
      then iterators d else iterators d - 1\<rparr>)" for d :: "(string, nat) dict"
    using r(2) by (simp add: dictReleaseIterator_def)
  then obtain n where rel: "dictReleaseIterator addrs (us_dict (sv_users sv')) di' = Some (us_dict (sv_users sv')\<lparr>iterators := n\<rparr>)"
    by blast
  let ?us = "sv_users sv'\<lparr>us_dict := us_dict (sv_users sv')\<lparr>iterators := n\<rparr>\<rparr>"
  have "users_same (sv_users sv') ?us"
    by (rule users_same_tables) (use r(4) in \<open>auto simp: users_same_def\<close>)
  then have "users_same (sv_users sv) ?us" using r(4) by (simp add: users_same_def)
  then have "chat_inv (sv'\<lparr>sv_users := ?us\<rparr>)"
    by (intro chat_inv_quiet [OF _ inv]) (simp add: quiet_def r(3))
  then show ?thesis using r(1) rel by (simp add: dumpAlluser_def)
qed

lemma myDebugEntry_ok:
  assumes inv: "chat_inv sv" and cl: "client c sv = Some x"
  shows "\<exists>sv'. myDebugEntry addrs c sv = Some sv' \<and> chat_inv sv'"
proof -
  obtain sv1 where "dumpClients c sv = Some sv1" "chat_inv sv1" using dumpClients_ok [OF inv cl] by blast
  then show ?thesis using cl inv dumpAlluser_ok [of sv1 addrs c] by (simp add: myDebugEntry_def)
qed

section \<open>New users\<close>

lemma myAddUser_ok:
  assumes inv: "chat_inv sv" and cl: "client c sv = Some x"
    and len: "length userid \<le> MAX_PRINTABLE" "length username \<le> MAX_PRINTABLE"
  shows "\<exists>sv'. myAddUser can c userid username sv = Some sv' \<and> chat_inv sv'"
  using cl inv insertUser_inv [OF inv len, of can] by (auto simp: myAddUser_def)

section \<open>The server as a state machine\<close>

datatype chat_event = Connect nat u8 | Disconnect nat | Chat nat string string string
  | Node nat string string string | Register nat "bool \<times> bool" md5_context string string string string string
  | Clock int | Cron

definition serve :: "bool \<Rightarrow> 64 word \<times> 64 word \<Rightarrow> 'm mysql \<Rightarrow> chat_event \<Rightarrow> 'm server \<Rightarrow> 'm server option" where
  "serve can addrs my ev sv = (case ev of
     Connect c junk \<Rightarrow> Some (createClient c junk sv)
   | Disconnect c \<Rightarrow> freeClient c sv
   | Chat c argv1 argv2 argv3 \<Rightarrow> chatCommand can addrs my c argv1 argv2 argv3 sv
   | Node c argv1 argv2 argv3 \<Rightarrow> nodeCommand my c argv1 argv2 argv3 sv
   | Register c t ctx argv1 argv2 argv3 argv4 argv5 \<Rightarrow> registerCommand t ctx can my c argv1 argv2 argv3 argv4 argv5 sv
   | Clock t \<Rightarrow> Some (sv\<lparr>sv_unixtime := t\<rparr>)
   | Cron \<Rightarrow> clientsCron sv)"

text \<open>
  The events considered: addresses of clients are those of live clients, names and passwords of
  at most 60 characters, node messages of at most 900, arguments of a registration of at most 200
  together, and a login query that the database answers only for users of the directory.
\<close>

definition admissible :: "'m mysql \<Rightarrow> chat_event \<Rightarrow> 'm server \<Rightarrow> bool" where
  "admissible my ev sv = (case ev of
     Connect c junk \<Rightarrow> c \<notin> c_addr ` set (sv_clients sv)
   | Disconnect c \<Rightarrow> c \<in> c_addr ` set (sv_clients sv)
   | Chat c argv1 argv2 argv3 \<Rightarrow> c \<in> c_addr ` set (sv_clients sv)
       \<and> (argv1 \<in> {''login'', ''adduser''} \<longrightarrow> length argv2 \<le> MAX_PRINTABLE \<and> length argv3 \<le> MAX_PRINTABLE)
       \<and> (argv1 = ''login'' \<longrightarrow> db_knows my argv2 argv3 sv)
   | Node c argv1 argv2 argv3 \<Rightarrow> c \<in> c_addr ` set (sv_clients sv)
       \<and> (argv1 = ''login'' \<longrightarrow> length argv2 \<le> MAX_PRINTABLE \<and> length argv3 \<le> MAX_PRINTABLE)
       \<and> (argv1 = ''say'' \<longrightarrow> length argv3 \<le> MAX_TEXT)
   | Register c t ctx argv1 argv2 argv3 argv4 argv5 \<Rightarrow> length argv2 \<le> MAX_PRINTABLE \<and> length argv4 \<le> MAX_PRINTABLE
       \<and> length argv2 + length argv3 + length argv4 + length argv5 \<le> 200
   | Clock t \<Rightarrow> True
   | Cron \<Rightarrow> True)"

lemma live_client: "c \<in> c_addr ` set (sv_clients sv) \<Longrightarrow> \<exists>x. client c sv = Some x"
  by (rule client_exists) (auto simp: sessions_def image_image)

lemma createClient_ok:
  assumes "chat_inv sv" "c \<notin> c_addr ` set (sv_clients sv)"
  shows "chat_inv (createClient c junk sv)"
proof -
  let ?x = "\<lparr>c_addr = c, c_userid = [], c_username = [], c_password = [], c_nodename = [],
      c_isvaliduser = False, c_isvalidnode = False, c_mynode_type = junk, c_lastinteraction = 0, c_reply = []\<rparr>"
  have s: "sessions (createClient c junk sv) = sessions sv @ [?x]" "sv_users (createClient c junk sv) = sv_users sv"
    by (simp_all add: sessions_def createClient_def strip_def)
  have "session_ok (sv_users sv) ?x" by (simp add: session_ok_def node_session_def)
  moreover have "c_addr ?x \<notin> set (map c_addr (sessions sv))" using assms(2) by (simp add: sessions_def image_image)
  ultimately have "sessions_inv (sessions sv @ [?x]) (sv_users sv)"
    using assms(1) by (intro sessions_connect) (simp_all add: chat_inv_def)
  then show ?thesis using assms(1) s by (simp add: chat_inv_def)
qed

lemma chatCommand_ok:
  assumes inv: "chat_inv sv" and adm: "admissible my (Chat c argv1 argv2 argv3) sv"
  shows "\<exists>sv'. chatCommand can addrs my c argv1 argv2 argv3 sv = Some sv' \<and> chat_inv sv'"
proof -
  obtain x where cl: "client c sv = Some x" using adm live_client by (auto simp: admissible_def)
  have info: "\<exists>sv'. chat_user_info c sv = Some sv' \<and> chat_inv sv'" using chat_user_info_ok [OF inv] by blast
  show ?thesis
    using adm cl inv chatLogin_ok [OF inv cl, of my argv2 argv3] chatSay_ok [OF inv cl, of argv2 argv3]
      info heartbeat_inv [OF inv, of c] myDebugEntry_ok [OF inv cl, of addrs]
      myAddUser_ok [OF inv cl, of argv2 argv3 can] reply_quiet [OF inv]
    by (auto simp: chatCommand_def admissible_def)
qed

lemma nodeCommand_ok:
  assumes inv: "chat_inv sv" and adm: "admissible my (Node c argv1 argv2 argv3) sv"
  shows "\<exists>sv'. nodeCommand my c argv1 argv2 argv3 sv = Some sv' \<and> chat_inv sv'"
proof -
  obtain x where cl: "client c sv = Some x" using adm live_client by (auto simp: admissible_def)
  show ?thesis
    using adm cl inv nodeLogin_ok [OF inv cl, of argv2 argv3 my] nodeSay_ok [OF inv cl, of argv3 argv2]
      heartbeat_inv [OF inv, of c] reply_quiet [OF inv]
    by (auto simp: nodeCommand_def admissible_def)
qed

lemma serve_ok:
  assumes inv: "chat_inv sv" and adm: "admissible my ev sv"
  shows "\<exists>sv'. serve can addrs my ev sv = Some sv' \<and> chat_inv sv'"
proof (cases ev)
  case (Connect c junk)
  then show ?thesis using createClient_ok [OF inv] adm by (simp add: serve_def admissible_def)
next
  case (Disconnect c)
  then obtain x where "client c sv = Some x" using adm live_client [of c sv] by (auto simp: admissible_def)
  then have "\<exists>sv'. freeClient c sv = Some sv' \<and> chat_inv sv'" using freeClient_ok [OF inv] by blast
  then show ?thesis using Disconnect by (simp add: serve_def)
next
  case (Chat c argv1 argv2 argv3)
  then show ?thesis using chatCommand_ok [OF inv, of my c argv1 argv2 argv3] adm by (simp add: serve_def)
next
  case (Node c argv1 argv2 argv3)
  then show ?thesis using nodeCommand_ok [OF inv, of my c argv1 argv2 argv3] adm by (simp add: serve_def)
next
  case (Register c t ctx argv1 argv2 argv3 argv4 argv5)
  then show ?thesis using registerCommand_ok [OF inv, of argv2 argv4 argv3 argv5 t ctx can my c argv1] adm
    by (simp add: serve_def admissible_def)
next
  case (Clock t)
  then show ?thesis using inv by (simp add: serve_def chat_inv_def sessions_def)
next
  case Cron
  then show ?thesis using clientsCron_ok [OF inv] by (simp add: serve_def)
qed

section \<open>The directory as it is loaded\<close>

definition all_off :: "users \<Rightarrow> bool" where
  "all_off us \<longleftrightarrow> (\<forall>u \<in> set (us_heap us). ui_line u = ''off'' \<and> (\<forall>n. \<not> node_on u n))"

definition loadable_rows :: "(string \<times> string \<times> string list) list \<Rightarrow> bool" where
  "loadable_rows rows \<longleftrightarrow> (\<forall>(userid, username, nodes) \<in> set rows. length userid \<le> MAX_PRINTABLE
     \<and> length username \<le> MAX_PRINTABLE \<and> (\<forall>n \<in> set nodes. length n \<le> MAX_PRINTABLE))"

definition directory_ok :: "users \<Rightarrow> bool" where
  "directory_ok us \<longleftrightarrow> users_inv us \<and> short_names us \<and> all_off us"

lemma directory_ok_insertUser:
  assumes "directory_ok us" "length userid \<le> MAX_PRINTABLE" "length username \<le> MAX_PRINTABLE"
  shows "\<exists>us'. insertUserInfo can userid username us = Some us' \<and> directory_ok us'"
proof -
  obtain us' where "insertUserInfo can userid username us = Some us'" "users_inv us'" "short_names us'"
    "us_heap us' = us_heap us @ (if user_addr us username = None then [new_user userid username (us_all us)] else [])"
    using insertUserInfo_short [of us userid username can] assms by (auto simp: directory_ok_def)
  then show ?thesis using assms(1)
    by (auto simp: directory_ok_def all_off_def node_on_def node_index_def)
qed

lemma directory_ok_insertNode:
  assumes ok: "directory_ok us" and len: "length n \<le> MAX_PRINTABLE"
  shows "\<exists>us' r. insertNodeToUserInfo k n us = Some (us', r) \<and> directory_ok us'"
proof -
  have ui: "users_inv us" and sn: "short_names us" and off: "all_off us" using ok by (auto simp: directory_ok_def)
  have "length n < MY_NAME_LENGTH" using len by (simp add: num_consts)
  then obtain us' where u: "insertNodeToUserInfo k n us = Some (us', node_answer us k n)" "users_inv us'"
    "us_heap us' = (if node_answer us k n = 1 then (us_heap us)[the (user_addr us k) := add_node n (us_heap us ! the (user_addr us k))] else us_heap us)"
    using insertNodeToUserInfo_ok [OF ui, of n k] by blast
  show ?thesis
  proof (cases "node_answer us k n = 1")
    case False
    then have "us_heap us' = us_heap us" using u(3) by simp
    then show ?thesis using u(1,2) sn off by (auto simp: directory_ok_def short_names_def all_off_def)
  next
    case True
    then obtain a where a: "user_addr us k = Some a" by (auto simp: node_answer_def split: option.splits)
    have al: "a < length (us_heap us)" using user_addr_Some [OF a] by simp
    obtain us1 where "insertNodeToUserInfo k n us = Some (us1, node_answer us k n)" "node_ready us a n us1"
      using insertNode_ready [OF ui sn a len] True by auto
    then have rd: "node_ready us a n us'" using u(1) by simp
    have "ui_line u = ''off'' \<and> (\<forall>m. \<not> node_on u m)" if u': "u \<in> set (us_heap us')" for u
    proof -
      obtain b where "b < length (us_heap us)" "u = us_heap us' ! b"
        using u' rd by (auto simp: in_set_conv_nth node_ready_def)
      then show ?thesis using rd off by (simp add: node_ready_def all_off_def)
    qed
    then show ?thesis using u rd by (auto simp: directory_ok_def node_ready_def all_off_def)
  qed
qed

lemma insert_all_node_ok:
  assumes "directory_ok us" "length userid \<le> MAX_PRINTABLE" "\<forall>n \<in> set nodes. length n \<le> MAX_PRINTABLE"
  shows "\<exists>us'. insert_all_node userid username nodes us = Some us' \<and> directory_ok us'"
proof -
  let ?f = "\<lambda>us row. do { us \<leftarrow> us; _ \<leftarrow> store_str 256 row; map_option fst (insertNodeToUserInfo username row us) }"
  have "\<exists>us'. foldl ?f (Some us) nodes = Some us' \<and> directory_ok us'"
    using assms(1,3)
  proof (induction nodes arbitrary: us)
    case (Cons n ns)
    obtain us1 r where "insertNodeToUserInfo username n us = Some (us1, r)" "directory_ok us1"
      using directory_ok_insertNode [of us n username] Cons.prems by auto
    moreover have "store_str 256 n = Some n" using Cons.prems by (simp add: store_str_def num_consts)
    ultimately show ?case using Cons by simp
  qed simp
  moreover have "length (''select  nodeid  from node where userid='' @ sq @ userid @ sq @ '' ;'') < 256"
    using assms(2) by (simp add: sq_def num_consts)
  ultimately show ?thesis by (simp add: insert_all_node_def store_str_def)
qed

lemma do_mysql_dump_redis_ok:
  assumes "directory_ok us" "loadable_rows rows"
  shows "\<exists>us'. do_mysql_dump_redis can rows us = Some us' \<and> directory_ok us'"
  using assms
proof (induction rows arbitrary: us)
  case Nil
  then show ?case by (simp add: do_mysql_dump_redis_def)
next
  case (Cons row rows)
  obtain userid username nodes where row: "row = (userid, username, nodes)" by (metis surj_pair)
  have lens: "length userid \<le> MAX_PRINTABLE" "length username \<le> MAX_PRINTABLE" "\<forall>n \<in> set nodes. length n \<le> MAX_PRINTABLE"
    using Cons.prems(2) row by (auto simp: loadable_rows_def)
  obtain us1 where 1: "insertUserInfo can userid username us = Some us1" "directory_ok us1"
    using directory_ok_insertUser [OF Cons.prems(1) lens(1,2)] by blast
  obtain us2 where 2: "insert_all_node userid username nodes us1 = Some us2" "directory_ok us2"
    using insert_all_node_ok [OF 1(2) lens(1,3)] by blast
  have "loadable_rows rows" using Cons.prems(2) by (simp add: loadable_rows_def)
  from Cons.IH [OF 2(2) this] show ?case
    by (simp add: do_mysql_dump_redis_def row 1(1) 2(1))
qed

lemma directory_ok_none: "directory_ok no_users"
  using represents_create [of user_type]
  by (simp add: directory_ok_def users_inv_def no_users_def short_names_def all_off_def user_addr_def [abs_def])

definition start_server :: "users \<Rightarrow> 'm \<Rightarrow> int \<Rightarrow> nat \<Rightarrow> int \<Rightarrow> 'm server" where
  "start_server us db now hz maxidletime = \<lparr>sv_clients = [], sv_users = us, sv_db = db, sv_unixtime = now,
     sv_hz = hz, sv_maxidletime = maxidletime, sv_rand = rand_state\<rparr>"

lemma start_inv:
  assumes "directory_ok us"
  shows "chat_inv (start_server us db now hz maxidletime)"
proof -
  have "ui_line (us_heap us ! a) \<noteq> ''on''" "\<not> node_on (us_heap us ! a) n" if "a < length (us_heap us)" for a n
    using assms that nth_mem [OF that] by (auto simp: directory_ok_def all_off_def)
  then show ?thesis using assms
    by (simp add: start_server_def chat_inv_def sessions_def sessions_inv_def lines_match_def unique_users_def
        nodes_match_def directory_ok_def)
qed

text \<open>The states that the server reaches: the directory is loaded, then the events happen.\<close>

inductive reachable :: "bool \<Rightarrow> 64 word \<times> 64 word \<Rightarrow> 'm mysql \<Rightarrow> 'm server \<Rightarrow> bool"
  for can addrs my where
  start: "loadable_rows rows \<Longrightarrow> do_mysql_dump_redis can rows no_users = Some us \<Longrightarrow>
    reachable can addrs my (start_server us db now hz maxidletime)"
| event: "reachable can addrs my sv \<Longrightarrow> admissible my ev sv \<Longrightarrow> serve can addrs my ev sv = Some sv' \<Longrightarrow>
    reachable can addrs my sv'"

lemma reachable_inv: "reachable can addrs my sv \<Longrightarrow> chat_inv sv"
proof (induction rule: reachable.induct)
  case (start rows us db now hz maxidletime)
  then have "directory_ok us" using do_mysql_dump_redis_ok [OF directory_ok_none, of rows can] by auto
  then show ?case by (rule start_inv)
next
  case (event sv ev sv')
  then show ?case using serve_ok [of sv my ev can addrs] by auto
qed

end
