(* ===== verification/Mychat_Props.thy ===== *)
theory Mychat_Props
  imports Mychat_Reach
begin

text \<open>
  What the message server promises its users, over all the states it can reach, and where it
  does not keep its promise.
\<close>

section \<open>A server with one user\<close>

text \<open>The database of the witnesses knows the user \<^verbatim>\<open>ann\<close>, who has the node \<^verbatim>\<open>tv\<close>.\<close>

definition one_user_db :: "unit mysql" where
  "one_user_db = \<lparr>my_row = (\<lambda>_ q. q = login_query ''ann'' ''pw''), my_run = (\<lambda>db _. db)\<rparr>"

definition one_user_rows :: "(string \<times> string \<times> string list) list" where
  "one_user_rows = [(''id7'', ''ann'', [''tv''])]"

definition one_user :: users where
  "one_user = the (do_mysql_dump_redis True one_user_rows no_users)"

lemma one_user_loaded:
  "do_mysql_dump_redis True one_user_rows no_users = Some one_user" "directory_ok one_user"
  "us_heap one_user = [add_node ''tv'' (new_user ''id7'' ''ann'' None)]"
proof -
  have no: "users_inv no_users" "user_addr no_users k = None" "us_all no_users = None" for k
    using directory_ok_none by (auto simp: directory_ok_def user_addr_def no_users_def)
  obtain us1 where u1: "insertUserInfo True ''id7'' ''ann'' no_users = Some us1" "users_inv us1"
      "us_heap us1 = [new_user ''id7'' ''ann'' None]"
    using insertUserInfo_ok [OF no(1), of "''ann''" "''id7''" True] no by (auto simp: num_consts no_users_def)
  have a1: "user_addr us1 ''ann'' = Some 0" using u1 by (simp add: user_addr_iff)
  have na: "node_answer us1 ''ann'' ''tv'' = 1"
    using a1 u1(3) by (simp add: node_answer_def node_index_def num_consts Let_def)
  obtain us2 where u2: "insertNodeToUserInfo ''ann'' ''tv'' us1 = Some (us2, 1)"
      "us_heap us2 = [add_node ''tv'' (new_user ''id7'' ''ann'' None)]"
    using insertNodeToUserInfo_ok [OF u1(2), of "''tv''" "''ann''"] na a1 u1(3) by (auto simp: num_consts)
  have r: "do_mysql_dump_redis True one_user_rows no_users = Some us2"
    using u1(1) u2(1) by (simp add: do_mysql_dump_redis_def one_user_rows_def insert_all_node_def store_str_def sq_def)
  then have "us2 = one_user" by (simp add: one_user_def)
  then show "do_mysql_dump_redis True one_user_rows no_users = Some one_user"
    "us_heap one_user = [add_node ''tv'' (new_user ''id7'' ''ann'' None)]" using r u2(2) by simp_all
  have "loadable_rows one_user_rows" by (simp add: loadable_rows_def one_user_rows_def num_consts)
  from do_mysql_dump_redis_ok [OF directory_ok_none this, of True] show "directory_ok one_user"
    using r \<open>us2 = one_user\<close> by simp
qed

abbreviation ann_server :: "unit server" where
  "ann_server \<equiv> start_server one_user () 0 10 300"

lemma ann_start: "reachable True (0, 0) one_user_db ann_server"
  using one_user_loaded(1) by (intro reachable.start [of one_user_rows])
    (simp_all add: loadable_rows_def one_user_rows_def num_consts)

lemma ann_addr: "user_addr one_user ''ann'' = Some 0" "userid_addr one_user ''id7'' = Some 0" "user_addr one_user [] = None"
  using one_user_loaded(2,3)
  by (simp_all add: user_addr_iff directory_ok_def add_node_def userid_addr_def user_addr_def new_user_def
      dictSdsKeyCaseCompare_def)

section \<open>Clients and sessions\<close>

lemma client_sessions: "map_option strip (client c sv) = find (\<lambda>x. c_addr x = c) (sessions sv)"
proof -
  have "map_option strip (find (\<lambda>x. c_addr x = c) xs) = find (\<lambda>x. c_addr x = c) (map strip xs)" for xs
    by (induction xs) auto
  then show ?thesis by (simp add: client_def sessions_def)
qed

lemma client_logged_in:
  assumes cl: "client c sv = Some x" and f: "\<And>y. c_addr (f y) = c_addr y"
    and s: "sessions sv' = map (\<lambda>x. if c_addr x = c then f x else x) (sessions sv)"
  obtains x' where "client c sv' = Some x'" "strip x' = f (strip x)"
proof -
  have "find (\<lambda>x. c_addr x = c) (map (\<lambda>x. if c_addr x = c then f x else x) xs) = map_option f (find (\<lambda>x. c_addr x = c) xs)" for xs
    by (induction xs) (auto simp: f)
  then have "map_option strip (client c sv') = map_option f (map_option strip (client c sv))"
    by (simp add: client_sessions s)
  then show ?thesis using cl that by auto
qed

lemma client_same:
  assumes "client c sv = Some x" "sessions sv' = sessions sv"
  obtains x' where "client c sv' = Some x'" "strip x' = strip x"
proof -
  have "map_option strip (client c sv') = map_option strip (client c sv)" by (simp add: client_sessions assms(2))
  then show ?thesis using assms(1) that by auto
qed

lemma strip_eqD:
  assumes "strip x = y"
  shows "c_addr x = c_addr y" "c_username x = c_username y" "c_nodename x = c_nodename y"
    "user_session x = user_session y" "node_session x = node_session y" "c_isvaliduser x = c_isvaliduser y"
    "c_isvalidnode x = c_isvalidnode y"
  using assms by auto

lemma client_new: "c \<notin> c_addr ` set (sv_clients sv) \<Longrightarrow> client c (createClient c junk sv) =
  Some \<lparr>c_addr = c, c_userid = [], c_username = [], c_password = [], c_nodename = [],
      c_isvaliduser = False, c_isvalidnode = False, c_mynode_type = junk,
      c_lastinteraction = sv_unixtime sv, c_reply = []\<rparr>"
proof -
  assume "c \<notin> c_addr ` set (sv_clients sv)"
  then have "find (\<lambda>x. c_addr x = c) (sv_clients sv) = None" by (auto simp: find_None_iff)
  then show ?thesis by (simp add: client_def createClient_def find_append)
qed

lemma client_in: "client c sv = Some x \<Longrightarrow> x \<in> set (sv_clients sv) \<and> c_addr x = c"
  by (auto simp: client_def find_Some_iff)

text \<open>A connection, and a login on it.\<close>

lemma reachable_connect:
  assumes "reachable can addrs my sv" "c \<notin> c_addr ` set (sv_clients sv)"
  shows "reachable can addrs my (createClient c junk sv)"
  using assms by (auto intro!: reachable.event [of can addrs my sv "Connect c junk"] simp: admissible_def serve_def)

lemma reachable_user_login:
  assumes r: "reachable can addrs my sv" and cl: "client c sv = Some x" and no: "\<not> c_isvaliduser x"
    and row: "my_row my (sv_db sv) (login_query name password)" and db: "user_addr (sv_users sv) name \<noteq> None"
    and off: "\<And>a. user_addr (sv_users sv) name = Some a \<Longrightarrow> ui_line (us_heap (sv_users sv) ! a) \<noteq> ''on''"
    and len: "length name \<le> MAX_PRINTABLE" "length password \<le> MAX_PRINTABLE"
  obtains sv' x' where "serve can addrs my (Chat c ''login'' name password) sv = Some sv'"
    "reachable can addrs my sv'" "client c sv' = Some x'" "user_session x'" "c_username x' = name"
    "sessions sv' = map (\<lambda>x. if c_addr x = c then log_user name password x else x) (sessions sv)"
proof -
  have inv: "chat_inv sv" by (rule reachable_inv [OF r])
  have no': "\<not> c_isvalidnode x" using session_ok_client [OF inv cl] no by (simp add: session_ok_def)
  obtain a where a: "user_addr (sv_users sv) name = Some a" using db by auto
  obtain sv' where l: "chatLogin my c name password sv = Some sv'"
      "sessions sv' = map (\<lambda>x. if c_addr x = c then log_user name password x else x) (sessions sv)"
    using chatLogin_admits [OF inv cl no no' row a len] off [OF a] by blast
  obtain x' where x': "client c sv' = Some x'" "strip x' = log_user name password (strip x)"
    using client_logged_in [OF cl _ l(2)] by (auto simp: log_user_def)
  have s: "serve can addrs my (Chat c ''login'' name password) sv = Some sv'" using l by (simp add: serve_def chatCommand_def)
  have "admissible my (Chat c ''login'' name password) sv"
    using client_in [OF cl] db len by (auto simp: admissible_def db_knows_def)
  with s r have "reachable can addrs my sv'" by (blast intro: reachable.event)
  moreover have "user_session x' \<and> c_username x' = name"
    using strip_eqD [OF x'(2)] by (simp add: log_user_def user_session_def)
  ultimately show ?thesis using that s x' l(2) by blast
qed

lemma reachable_node_login:
  assumes r: "reachable can addrs my sv" and cl: "client c sv = Some x" and no: "\<not> c_isvaliduser x"
    and a: "userid_addr (sv_users sv) userid = Some a" and n: "node_index n (us_heap (sv_users sv) ! a) \<noteq> None"
    and e: "user_addr (sv_users sv) [] = None" and len: "length userid \<le> MAX_PRINTABLE" "length n \<le> MAX_PRINTABLE"
  obtains sv' where "serve can addrs my (Node c ''login'' userid n) sv = Some sv'" "reachable can addrs my sv'"
    "directory (sv_users sv') = directory (sv_users sv)"
    "sessions sv' = map (\<lambda>x. if c_addr x = c then log_node (ui_name (us_heap (sv_users sv) ! a)) userid n x else x) (sessions sv)"
proof -
  let ?us = "sv_users sv" and ?name = "ui_name (us_heap (sv_users sv) ! a)"
  have inv: "chat_inv sv" by (rule reachable_inv [OF r])
  then have ui: "users_inv ?us" and sn: "short_names ?us" by (simp_all add: chat_inv_def)
  have al: "a < length (us_heap ?us)" using userid_addr_Some [OF a] by simp
  have no': "\<not> c_isvalidnode x" using session_ok_client [OF inv cl] no by (simp add: session_ok_def)
  obtain us where k: "users_same ?us us" "nodeLogin my c userid n sv = node_admit my c userid n ?name (sv\<lparr>sv_users := us\<rparr>)"
    using nodeLogin_known [OF inv cl no no' a] e by metis
  have h: "us_heap us = us_heap ?us" and ad: "user_addr us ?name = Some a"
    using k(1) users_same_addr [OF k(1)] user_addr_self [OF ui al] by (simp_all add: users_same_def)
  have ans: "node_answer us ?name n \<noteq> -1" using n ad h by (simp add: node_answer_def Let_def)
  have inv2: "chat_inv (sv\<lparr>sv_users := us\<rparr>)" by (rule chat_inv_users [OF inv k(1)])
  have cl2: "client c (sv\<lparr>sv_users := us\<rparr>) = Some x" using cl by simp
  have "length ?name \<le> MAX_PRINTABLE" using sn al by (simp add: short_names_def)
  then obtain sv' where l: "nodeLogin my c userid n sv = Some sv'"
      "sessions sv' = map (\<lambda>x. if c_addr x = c then log_node ?name userid n x else x) (sessions sv)"
      "directory (sv_users sv') = directory us"
    using node_admit_ok [OF inv2 cl2 no no', of ?name a userid n my] ad ans len k(2) by auto
  then have d: "directory (sv_users sv') = directory ?us" using h by (simp add: directory_def)
  have s: "serve can addrs my (Node c ''login'' userid n) sv = Some sv'" using l by (simp add: serve_def nodeCommand_def)
  have "admissible my (Node c ''login'' userid n) sv" using client_in [OF cl] len by (auto simp: admissible_def)
  with s r have "reachable can addrs my sv'" by (blast intro: reachable.event)
  then show ?thesis using that s l(2) d by blast
qed

lemma reachable_clients:
  assumes "reachable can addrs my sv"
  shows "distinct (map c_addr (sv_clients sv))" "x \<in> set (sv_clients sv) \<Longrightarrow> session_ok (sv_users sv) x"
    "lines_match (set (sv_clients sv)) (sv_users sv)" "unique_users (set (sv_clients sv))"
    "nodes_match (set (sv_clients sv)) (sv_users sv)" "users_inv (sv_users sv)"
proof -
  have m: "lines_match (strip ` S) us = lines_match S us" "unique_users (strip ` S) = unique_users S"
    "nodes_match (strip ` S) us = nodes_match S us" for S us
    by (simp_all only: lines_match_def unique_users_def nodes_match_def bex_simps ball_simps strip_simps)
  have i: "chat_inv sv" by (rule reachable_inv [OF assms])
  then show "distinct (map c_addr (sv_clients sv))" "users_inv (sv_users sv)"
    by (simp_all add: chat_inv_def sessions_inv_def sessions_def comp_def)
  show "x \<in> set (sv_clients sv) \<Longrightarrow> session_ok (sv_users sv) x"
    using i by (simp add: chat_inv_def sessions_inv_def sessions_def)
  show "lines_match (set (sv_clients sv)) (sv_users sv)" "unique_users (set (sv_clients sv))"
    "nodes_match (set (sv_clients sv)) (sv_users sv)"
    using i by (simp_all only: chat_inv_def sessions_inv_def sessions_def set_map m)
qed

section \<open>Logged in\<close>

definition ann_online :: "unit server" where
  "ann_online = the (serve True (0, 0) one_user_db (Chat 1 ''login'' ''ann'' ''pw'') (createClient 1 7 ann_server))"

lemma ann_online:
  obtains x where "reachable True (0, 0) one_user_db ann_online" "client 1 ann_online = Some x" "user_session x"
    "c_username x = ''ann''" "map c_addr (sv_clients ann_online) = [1]"
proof -
  let ?sv = "createClient 1 7 ann_server"
  have r: "reachable True (0, 0) one_user_db ?sv" by (intro reachable_connect ann_start) (simp add: start_server_def)
  have us: "sv_users ?sv = one_user" by (simp add: createClient_def start_server_def)
  have off: "ui_line (us_heap one_user ! a) \<noteq> ''on''" if "user_addr one_user ''ann'' = Some a" for a
    using that ann_addr(1) one_user_loaded(3) by (simp add: add_node_def)
  have cl: "client 1 ?sv = Some \<lparr>c_addr = 1, c_userid = [], c_username = [], c_password = [], c_nodename = [],
      c_isvaliduser = False, c_isvalidnode = False, c_mynode_type = 7, c_lastinteraction = sv_unixtime ann_server, c_reply = []\<rparr>"
    by (rule client_new) (simp add: start_server_def)
  obtain sv' x' where l: "serve True (0, 0) one_user_db (Chat 1 ''login'' ''ann'' ''pw'') ?sv = Some sv'"
    "reachable True (0, 0) one_user_db sv'" "client 1 sv' = Some x'" "user_session x'" "c_username x' = ''ann''"
    "sessions sv' = map (\<lambda>x. if c_addr x = 1 then log_user ''ann'' ''pw'' x else x) (sessions ?sv)"
    by (rule reachable_user_login [OF r cl, of "''ann''" "''pw''"])
      (use ann_addr off us in \<open>auto simp: one_user_db_def num_consts\<close>)
  have "map c_addr (sessions sv') = [1]" using l(6) by (simp add: sessions_def createClient_def start_server_def log_user_def)
  then have "map c_addr (sv_clients sv') = [1]" by (simp add: sessions_def comp_def)
  then show ?thesis using that [of x'] l(1-5) by (simp add: ann_online_def)
qed

definition tv_online :: "unit server" where
  "tv_online = the (serve True (0, 0) one_user_db (Node 2 ''login'' ''id7'' ''tv'') (createClient 2 7 ann_server))"

lemma tv_online:
  obtains x where "reachable True (0, 0) one_user_db tv_online" "client 2 tv_online = Some x" "node_session x"
    "c_username x = ''ann''" "c_nodename x = ''tv''" "map c_addr (sv_clients tv_online) = [2]"
    "directory (sv_users tv_online) = [(''id7'', ''ann'')]"
proof -
  let ?sv = "createClient 2 7 ann_server"
  have r: "reachable True (0, 0) one_user_db ?sv" by (intro reachable_connect ann_start) (simp add: start_server_def)
  have us: "sv_users ?sv = one_user" by (simp add: createClient_def start_server_def)
  have cl: "client 2 ?sv = Some \<lparr>c_addr = 2, c_userid = [], c_username = [], c_password = [], c_nodename = [],
      c_isvaliduser = False, c_isvalidnode = False, c_mynode_type = 7, c_lastinteraction = sv_unixtime ann_server, c_reply = []\<rparr>"
    by (rule client_new) (simp add: start_server_def)
  have n: "node_index ''tv'' (us_heap one_user ! 0) \<noteq> None"
    using one_user_loaded(3) by (simp add: node_index_def add_node_def new_user_def newMyNodeUserInfo_def num_consts)
  obtain sv' where l: "serve True (0, 0) one_user_db (Node 2 ''login'' ''id7'' ''tv'') ?sv = Some sv'"
    "reachable True (0, 0) one_user_db sv'" "directory (sv_users sv') = directory one_user"
    "sessions sv' = map (\<lambda>x. if c_addr x = 2 then log_node (ui_name (us_heap one_user ! 0)) ''id7'' ''tv'' x else x) (sessions ?sv)"
    by (rule reachable_node_login [OF r cl, of "''id7''" 0 "''tv''"])
      (use ann_addr n us in \<open>auto simp: num_consts\<close>)
  have nm: "ui_name (us_heap one_user ! 0) = ''ann''" using one_user_loaded(3) by (simp add: add_node_def)
  have "map c_addr (sessions sv') = [2]" using l(4) by (simp add: sessions_def createClient_def start_server_def log_node_def)
  then have ca: "map c_addr (sv_clients sv') = [2]" by (simp add: sessions_def comp_def)
  obtain x' where x': "client 2 sv' = Some x'" "strip x' = log_node ''ann'' ''id7'' ''tv'' (strip (the (client 2 ?sv)))"
    using client_logged_in [OF cl _ l(4)] nm cl by (auto simp: log_node_def)
  have d: "directory one_user = [(''id7'', ''ann'')]" using one_user_loaded(3) by (simp add: directory_def add_node_def)
  have "node_session x'" "c_username x' = ''ann''" "c_nodename x' = ''tv''"
    using strip_eqD [OF x'(2)] by (simp_all add: log_node_def node_session_def)
  then show ?thesis using that [of x'] l(1-3) ca x'(1) d by (simp add: tv_online_def)
qed

section \<open>The properties\<close>



text \<open>
  C17. In every reachable state no user is logged in twice, names compared without case, and the
  directory shows a user on line exactly when a client is logged in as that user.
\<close>

theorem one_session_per_user:
  assumes "reachable can addrs my sv"
  shows "(\<forall>x \<in> set (sv_clients sv). \<forall>y \<in> set (sv_clients sv).
      user_session x \<and> user_session y \<and> same_name (c_username x) (c_username y) \<longrightarrow> x = y)
    \<and> (\<forall>a < length (us_heap (sv_users sv)). ui_line (us_heap (sv_users sv) ! a) = ''on'' \<longleftrightarrow>
        (\<exists>x \<in> set (sv_clients sv). user_session x \<and> user_addr (sv_users sv) (c_username x) = Some a))"
proof (intro conjI ballI impI)
  fix x y assume xy: "x \<in> set (sv_clients sv)" "y \<in> set (sv_clients sv)"
    and u: "user_session x \<and> user_session y \<and> same_name (c_username x) (c_username y)"
  have "c_addr x = c_addr y" using reachable_clients(4) [OF assms] xy u unfolding unique_users_def by blast
  then show "x = y" using reachable_clients(1) [OF assms] xy by (auto simp: distinct_map dest: inj_onD)
qed (use reachable_clients(3) [OF assms] in \<open>simp add: lines_match_def\<close>)

theorem one_session_per_user_witness:
  "reachable True (0, 0) one_user_db ann_online \<and> (\<exists>a < length (us_heap (sv_users ann_online)).
     ui_line (us_heap (sv_users ann_online) ! a) = ''on'')"
proof -
  obtain x where a: "reachable True (0, 0) one_user_db ann_online" "client 1 ann_online = Some x" "user_session x"
    using ann_online by metis
  have x: "x \<in> set (sv_clients ann_online)" using client_in [OF a(2)] by simp
  obtain b where b: "user_addr (sv_users ann_online) (c_username x) = Some b"
    using reachable_clients(2) [OF a(1) x] a(3) by (auto simp: session_ok_def user_session_def)
  then have "b < length (us_heap (sv_users ann_online))" using user_addr_Some by blast
  then show ?thesis using one_session_per_user [OF a(1)] a x b by blast
qed

text \<open>
  C18. In every reachable state a user has at most six nodes, with different names, and a node
  that is shown on line belongs to a client that is logged in as that node.
\<close>

theorem node_table_bounded:
  assumes "reachable can addrs my sv" "a < length (us_heap (sv_users sv))"
  shows "ui_index (us_heap (sv_users sv) ! a) \<le> MYNODE_MAX_NODES
    \<and> distinct (map (\<lambda>j. ni_name (ui_nodes (us_heap (sv_users sv) ! a) ! j)) [0..<ui_index (us_heap (sv_users sv) ! a)])
    \<and> (\<forall>n. node_on (us_heap (sv_users sv) ! a) n \<longrightarrow> (\<exists>x \<in> set (sv_clients sv).
        node_session x \<and> user_addr (sv_users sv) (c_username x) = Some a \<and> c_nodename x = n))"
proof -
  let ?u = "us_heap (sv_users sv) ! a"
  have ok: "user_ok ?u" by (rule users_inv_ok [OF reachable_clients(6) [OF assms(1)] assms(2)])
  have "map (\<lambda>j. ni_name (ui_nodes ?u ! j)) [0..<ui_index ?u] = map ni_name (take (ui_index ?u) (ui_nodes ?u))"
    using ok by (intro nth_equalityI) (auto simp: user_ok_def)
  then show ?thesis using ok reachable_clients(5) [OF assms(1)] assms(2) unfolding user_ok_def nodes_match_def by simp
qed

theorem node_table_bounded_witness:
  "reachable True (0, 0) one_user_db ann_server \<and> ui_index (us_heap (sv_users ann_server) ! 0) = 1
   \<and> ui_index (us_heap (sv_users ann_server) ! 0) \<le> MYNODE_MAX_NODES"
  using node_table_bounded [OF ann_start, of 0] ann_start one_user_loaded(3)
  by (simp add: start_server_def add_node_def)

text \<open>
  C37. The records of the directory keep their types: in every reachable state names and identifiers
  fit their arrays with the terminator, every state is \<open>on\<close> or \<open>off\<close>, a record has six node slots
  and a fill index within them, looking up the name of a record finds that record, and the chain of all
  records visits each of them exactly once.
\<close>

theorem directory_well_typed:
  assumes "reachable can addrs my sv"
  shows "let us = sv_users sv in us_count us = length (us_heap us) \<and> walk_users us (us_all us) = Some (rev [0..<length (us_heap us)])
    \<and> (\<forall>u \<in> set (us_heap us). length (ui_name u) < MY_NAME_LENGTH \<and> length (ui_userid u) < MY_NAME_LENGTH
        \<and> ui_line u \<in> {''on'', ''off''} \<and> length (ui_nodes u) = MYNODE_MAX_NODES \<and> ui_index u \<le> MYNODE_MAX_NODES
        \<and> (\<forall>nd \<in> set (take (ui_index u) (ui_nodes u)). length (ni_name nd) < MY_NAME_LENGTH \<and> ni_line nd \<in> {''on'', ''off''}))
    \<and> (\<forall>a < length (us_heap us). \<exists>us'. fetch_user (ui_name (us_heap us ! a)) us = Some (us', Some a))"
proof -
  define us where "us = sv_users sv"
  have i: "users_inv us" using reachable_clients(6) [OF assms(1)] by (simp add: us_def)
  have "\<exists>us'. fetch_user (ui_name (us_heap us ! a)) us = Some (us', Some a)" if "a < length (us_heap us)" for a
    using fetch_user_ok [OF i] user_addr_self [OF i that] by metis
  moreover have "us_count us = length (us_heap us)" "\<forall>u \<in> set (us_heap us). user_ok u" using i by (simp_all add: users_inv_def)
  ultimately show ?thesis using walk_users_all [OF i] unfolding user_ok_def node_ok_def Let_def us_def [symmetric] by blast
qed

theorem directory_well_typed_witness:
  "reachable True (0, 0) one_user_db ann_server
   \<and> walk_users (sv_users ann_server) (us_all (sv_users ann_server)) = Some [0]
   \<and> length (ui_name (us_heap (sv_users ann_server) ! 0)) < 256
   \<and> (\<exists>us'. fetch_user (ui_name (us_heap (sv_users ann_server) ! 0)) (sv_users ann_server) = Some (us', Some 0))"
  using directory_well_typed [OF ann_start] ann_start one_user_loaded(3)
  by (simp add: MY_NAME_LENGTH_def Let_def start_server_def)

text \<open>
  C19. A node can be logged in twice: the login of a fresh client asks for the state of the node
  of the fresh client, whose names are still empty, and not of the node it wants to be.  With a
  client already logged in as the node, a second one is let in, and the first stays.
\<close>

theorem node_login_twice:
  assumes "reachable can addrs my sv" "client c sv = Some x" "\<not> c_isvaliduser x"
    and "getNameByUserid userid (sv_users sv) = Some (Some username)" "user_addr (sv_users sv) [] = None"
    and "client d sv = Some y" "node_session y" "c_username y = username" "c_nodename y = n"
    and "length userid \<le> MAX_PRINTABLE" "length n \<le> MAX_PRINTABLE"
  shows "\<exists>sv' x' y'. serve can addrs my (Node c ''login'' userid n) sv = Some sv' \<and> c \<noteq> d
    \<and> client c sv' = Some x' \<and> node_session x' \<and> c_username x' = username \<and> c_nodename x' = n
    \<and> client d sv' = Some y' \<and> node_session y' \<and> c_username y' = username \<and> c_nodename y' = n"
proof -
  let ?us = "sv_users sv"
  have ui: "users_inv ?us" by (rule reachable_clients(6) [OF assms(1)])
  obtain a where a: "userid_addr ?us userid = Some a" and un: "username = ui_name (us_heap ?us ! a)"
    using assms(4) getNameByUserid_ok [OF ui, of userid] by auto
  have "user_addr ?us username = Some a" using user_addr_self [OF ui] userid_addr_Some [OF a] un by simp
  then have n: "node_index n (us_heap ?us ! a) \<noteq> None"
    using reachable_clients(2) [OF assms(1), of y] client_in [OF assms(6)] assms(7-9) by (auto simp: session_ok_def)
  obtain sv' where l: "serve can addrs my (Node c ''login'' userid n) sv = Some sv'"
      "sessions sv' = map (\<lambda>x. if c_addr x = c then log_node username userid n x else x) (sessions sv)"
    using reachable_node_login [OF assms(1-3) a n assms(5,10,11), folded un] by blast
  obtain x' where x': "client c sv' = Some x'" "strip x' = log_node username userid n (strip x)"
    using client_logged_in [OF assms(2) _ l(2)] by (auto simp: log_node_def)
  have cd: "c \<noteq> d" using assms(2,3,6,7) by (auto simp: node_session_def)
  have "find (\<lambda>x. c_addr x = d) (map (\<lambda>x. if c_addr x = c then log_node username userid n x else x) xs)
      = find (\<lambda>x. c_addr x = d) xs" for xs using cd by (induction xs) (auto simp: log_node_def)
  then have "map_option strip (client d sv') = map_option strip (client d sv)" by (simp only: client_sessions l(2))
  then obtain y' where y': "client d sv' = Some y'" "strip y' = strip y" using assms(6) by auto
  have "node_session x'" "c_username x' = username" "c_nodename x' = n"
    using strip_eqD [OF x'(2)] by (simp_all add: log_node_def node_session_def)
  moreover have "node_session y'" "c_username y' = username" "c_nodename y' = n"
    using strip_eqD [OF y'(2)] assms(7-9) by simp_all
  ultimately show ?thesis using l(1) cd x'(1) y'(1) by blast
qed

theorem node_login_twice_witness:
  "\<exists>sv' x' y'. serve True (0, 0) one_user_db (Node 3 ''login'' ''id7'' ''tv'') (createClient 3 7 tv_online) = Some sv'
    \<and> client 3 sv' = Some x' \<and> node_session x' \<and> c_nodename x' = ''tv''
    \<and> client 2 sv' = Some y' \<and> node_session y' \<and> c_nodename y' = ''tv''"
proof -
  let ?sv = "createClient 3 7 tv_online"
  obtain y where t: "reachable True (0, 0) one_user_db tv_online" "client 2 tv_online = Some y" "node_session y"
    "c_username y = ''ann''" "c_nodename y = ''tv''" "map c_addr (sv_clients tv_online) = [2]"
    "directory (sv_users tv_online) = [(''id7'', ''ann'')]" using tv_online by blast
  have new: "3 \<notin> c_addr ` set (sv_clients tv_online)" using arg_cong [OF t(6), of set] by simp
  have r: "reachable True (0, 0) one_user_db ?sv" by (rule reachable_connect [OF t(1) new])
  have us: "sv_users ?sv = sv_users tv_online" by (simp add: createClient_def)
  have d: "length (us_heap (sv_users tv_online)) = 1" "ui_userid (us_heap (sv_users tv_online) ! 0) = ''id7''"
    "ui_name (us_heap (sv_users tv_online) ! 0) = ''ann''" using t(7) by (auto simp: directory_def)
  have "client 2 ?sv = Some y" using t(2) by (simp add: client_def createClient_def find_append)
  moreover have "getNameByUserid ''id7'' (sv_users ?sv) = Some (Some ''ann'')"
    unfolding us getNameByUserid_ok [OF reachable_clients(6) [OF t(1)]] userid_addr_def using d by simp
  moreover have "user_addr (sv_users ?sv) [] = None"
    unfolding us user_addr_def using d by (simp add: dictSdsKeyCaseCompare_def)
  ultimately show ?thesis
    using node_login_twice [OF r client_new [OF new], of "''id7''" "''ann''" 2 y "''tv''"] t by (auto simp: num_consts)
qed

text \<open>The message of \<^verbatim>\<open>_chatSend\<close>, when it fits the buffer.\<close>

lemma chatSend_all:
  assumes "length (message_line tag from msg) < 1024"
  shows "chatSend tag from to msg ty sv = Some (sv\<lparr>sv_clients := map (\<lambda>x. if receives to ty x
      then x\<lparr>c_reply := c_reply x @ message_line tag from msg\<rparr> else x) (sv_clients sv)\<rparr>)"
  by (simp add: chatSend_def chatSend_loop_ok [OF assms])

text \<open>
  C20. A message that a user sends to a node name reaches every client of node type with that
  name, of whichever user it is a node: \<^verbatim>\<open>_chatSend\<close> compares the node name only.  No other client
  is sent anything.
\<close>

theorem node_command_crosses_users:
  assumes "reachable can addrs my sv" "client c sv = Some x" "user_session x" "length msg \<le> MAX_TEXT"
  shows "serve can addrs my (Node c ''say'' to msg) sv = Some (sv\<lparr>sv_clients :=
    map (\<lambda>y. if c_mynode_type y = MYNODE_TYPE_NODE \<and> (to = ''all'' \<or> c_nodename y = to)
             then y\<lparr>c_reply := c_reply y @ ''node ok '' @ c_username x @ '' '' @ msg @ crlf\<rparr> else y) (sv_clients sv)\<rparr>)"
proof -
  have ok: "session_ok (sv_users sv) x" using reachable_clients(2) [OF assms(1)] client_in [OF assms(2)] by blast
  then have "length (message_line ''node'' (c_username x) msg) < 1024"
    using assms(4) by (intro message_line_short) (auto simp: session_ok_def num_consts)
  note send = chatSend_all [OF this, of to MYNODE_TYPE_NODE sv]
  have v: "c_isvalidnode x" "c_mynode_type x = MYNODE_TYPE_USER" using ok assms(3) by (auto simp: session_ok_def user_session_def)
  have "receives to MYNODE_TYPE_NODE y \<longleftrightarrow> c_mynode_type y = MYNODE_TYPE_NODE \<and> (to = ''all'' \<or> c_nodename y = to)" for y
    by (auto simp: receives_def num_consts)
  then show ?thesis using send v assms(2) by (simp add: serve_def nodeCommand_def nodeSay_def message_line_def cong: if_cong)
qed

theorem node_command_crosses_users_witness:
  "\<exists>x. client 1 ann_online = Some x \<and> serve True (0, 0) one_user_db (Node 1 ''say'' ''tv'' ''on'') ann_online =
    Some (ann_online\<lparr>sv_clients := map (\<lambda>y. if c_mynode_type y = MYNODE_TYPE_NODE \<and> (''tv'' = ''all'' \<or> c_nodename y = ''tv'')
             then y\<lparr>c_reply := c_reply y @ ''node ok '' @ ''ann'' @ '' '' @ ''on'' @ crlf\<rparr> else y) (sv_clients ann_online)\<rparr>)"
proof -
  obtain x where a: "reachable True (0, 0) one_user_db ann_online" "client 1 ann_online = Some x" "user_session x"
    "c_username x = ''ann''" using ann_online by metis
  show ?thesis using node_command_crosses_users [OF a(1-3), of "''on''" "''tv''"] a by (simp add: num_consts)
qed



text \<open>
  C22. A node message of 1024 characters or more reads past the buffer of \<^verbatim>\<open>_chatSend\<close> as soon as
  one client is to receive it: \<^verbatim>\<open>snprintf\<close> returns the length the line would have had, and that
  many characters are sent.  Unlike \<^verbatim>\<open>chat say\<close>, \<^verbatim>\<open>node say\<close> has no limit.
\<close>

theorem node_message_overreads:
  assumes "reachable can addrs my sv" "client c sv = Some x" "user_session x"
    and "y \<in> set (sv_clients sv)" "c_mynode_type y = MYNODE_TYPE_NODE" "c_nodename y = to" "length msg \<ge> 1024"
  shows "serve can addrs my (Node c ''say'' to msg) sv = None"
proof -
  have ok: "session_ok (sv_users sv) x" using reachable_clients(2) [OF assms(1)] client_in [OF assms(2)] by blast
  then have v: "c_isvalidnode x" "c_mynode_type x = MYNODE_TYPE_USER" using assms(3) by (auto simp: session_ok_def user_session_def)
  have r: "receives to MYNODE_TYPE_NODE y" using assms(5,6) by (simp add: receives_def num_consts)
  have "chatSend_loop (message_line ''node'' (c_username x) msg) to MYNODE_TYPE_NODE xs = None" if "y \<in> set xs" for xs
    using that r assms(7) by (induction xs) (auto simp: message_line_def bind_eq_None_conv split: if_splits)
  then have "chatSend ''node'' (c_username x) to msg MYNODE_TYPE_NODE sv = None"
    using assms(4) by (simp add: chatSend_def)
  then show ?thesis using v assms(2) by (simp add: serve_def nodeCommand_def nodeSay_def)
qed

text \<open>A state with the user and the node of the user.\<close>

definition home_online :: "unit server" where
  "home_online = the (serve True (0, 0) one_user_db (Chat 1 ''login'' ''ann'' ''pw'') (createClient 1 7 tv_online))"

lemma home_online:
  obtains x y where "reachable True (0, 0) one_user_db home_online" "client 1 home_online = Some x" "user_session x"
    "c_username x = ''ann''" "client 2 home_online = Some y" "node_session y" "c_nodename y = ''tv''"
    "map c_addr (sv_clients home_online) = [2, 1]"
proof -
  let ?sv = "createClient 1 7 tv_online"
  obtain y where t: "reachable True (0, 0) one_user_db tv_online" "client 2 tv_online = Some y" "node_session y"
    "c_nodename y = ''tv''" "map c_addr (sv_clients tv_online) = [2]"
    "directory (sv_users tv_online) = [(''id7'', ''ann'')]" using tv_online by blast
  have new: "1 \<notin> c_addr ` set (sv_clients tv_online)" using arg_cong [OF t(5), of set] by simp
  have r: "reachable True (0, 0) one_user_db ?sv" by (rule reachable_connect [OF t(1) new])
  have us: "sv_users ?sv = sv_users tv_online" by (simp add: createClient_def)
  have cs: "sv_clients tv_online = [y]" using t(5) client_in [OF t(2)] by (cases "sv_clients tv_online") auto
  have ad: "user_addr (sv_users ?sv) ''ann'' \<noteq> None"
    unfolding us user_addr_iff [OF reachable_clients(6) [OF t(1)]] not_None_eq using t(6)
    by (auto simp: directory_def dictSdsKeyCaseCompare_def map_eq_Cons_conv intro!: exI [of _ 0])
  have nouser: "\<not> user_session x" if "x \<in> set (sv_clients ?sv)" for x
    using that cs t(3) by (auto simp: createClient_def user_session_def node_session_def num_consts)
  have off: "ui_line (us_heap (sv_users ?sv) ! a) \<noteq> ''on''" if "user_addr (sv_users ?sv) ''ann'' = Some a" for a
    using reachable_clients(3) [OF r] user_addr_Some [OF that] nouser unfolding lines_match_def by blast
  obtain sv' x' where l: "serve True (0, 0) one_user_db (Chat 1 ''login'' ''ann'' ''pw'') ?sv = Some sv'"
    "reachable True (0, 0) one_user_db sv'" "client 1 sv' = Some x'" "user_session x'" "c_username x' = ''ann''"
    "sessions sv' = map (\<lambda>x. if c_addr x = 1 then log_user ''ann'' ''pw'' x else x) (sessions ?sv)"
    by (rule reachable_user_login [OF r client_new [OF new], of "''ann''" "''pw''"])
      (use ad off in \<open>auto simp: one_user_db_def num_consts\<close>)
  have s: "sessions ?sv = [strip y, strip (the (client 1 ?sv))]"
    using cs client_new [OF new] by (simp add: sessions_def createClient_def)
  have y2: "c_addr y = 2" using client_in [OF t(2)] by simp
  have c1: "c_addr (the (client 1 ?sv)) = 1" using client_new [OF new] by simp
  have s': "sessions sv' = [strip y, log_user ''ann'' ''pw'' (strip (the (client 1 ?sv)))]" using l(6) s y2 c1 by simp
  have "map_option strip (client 2 sv') = Some (strip y)" unfolding client_sessions s' using y2 by simp
  then obtain y' where y': "client 2 sv' = Some y'" "strip y' = strip y" by auto
  have "map c_addr (sessions sv') = [2, 1]" unfolding s' using y2 c1 by (simp add: log_user_def)
  then have "map c_addr (sv_clients sv') = [2, 1]" by (simp add: sessions_def comp_def)
  moreover have "sv' = home_online" using l(1) by (simp add: home_online_def)
  ultimately show ?thesis using that [of x' y'] l(2-5) y'(1) strip_eqD(3,5) [OF y'(2)] t(3,4) by simp
qed

theorem node_message_overreads_witness:
  "serve True (0, 0) one_user_db (Node 1 ''say'' ''tv'' (replicate 1024 CHR ''x'')) home_online = None"
proof -
  obtain x y where a: "reachable True (0, 0) one_user_db home_online" "client 1 home_online = Some x" "user_session x"
    and y: "client 2 home_online = Some y" "node_session y" "c_nodename y = ''tv''"
    using home_online by metis
  show ?thesis using node_message_overreads [OF a, of y] client_in [OF y(1)] y(2,3) by (simp add: node_session_def)
qed

text \<open>
  C23. A client that has not logged in hears what is said to everybody: \<^verbatim>\<open>createClient\<close> leaves
  \<^verbatim>\<open>mynode_type\<close> as the memory had it, and when that is 0 the client counts as a user for
  \<^verbatim>\<open>_chatSend\<close>.
\<close>

theorem stranger_hears_broadcast:
  assumes "reachable can addrs my sv" "client c sv = Some x" "user_session x"
    and "d \<notin> c_addr ` set (sv_clients sv)" "length msg \<le> MYCHAT_MAX_MESSAGE"
  shows "\<exists>sv' y. serve can addrs my (Chat c ''say'' ''all'' msg) (createClient d 0 sv) = Some sv'
    \<and> client d sv' = Some y \<and> \<not> c_isvaliduser y \<and> c_reply y = ''chat ok '' @ c_username x @ '' '' @ msg @ crlf"
proof -
  let ?sv = "createClient d 0 sv"
  have ok: "session_ok (sv_users sv) x" using reachable_clients(2) [OF assms(1)] client_in [OF assms(2)] by blast
  then have "length (message_line ''chat'' (c_username x) msg) < 1024"
    using assms(5) by (intro message_line_short) (auto simp: session_ok_def num_consts)
  note send = chatSend_all [OF this, of "''all''" MYNODE_TYPE_USER ?sv]
  have c: "client c ?sv = Some x" using assms(2) by (simp add: client_def createClient_def find_append)
  let ?f = "\<lambda>x'. if receives ''all'' MYNODE_TYPE_USER x' then x'\<lparr>c_reply := c_reply x' @ message_line ''chat'' (c_username x) msg\<rparr> else x'"
  have "find (\<lambda>x. c_addr x = d) (map ?f xs) = map_option ?f (find (\<lambda>x. c_addr x = d) xs)" for xs
    by (induction xs) auto
  then have "client d (?sv\<lparr>sv_clients := map ?f (sv_clients ?sv)\<rparr>) = map_option ?f (client d ?sv)"
    by (simp add: client_def)
  then show ?thesis using send c assms(3,5) client_new [OF assms(4), of 0]
    by (simp add: serve_def chatCommand_def chatSay_def user_session_def receives_def message_line_def num_consts)
qed

theorem stranger_hears_broadcast_witness:
  "\<exists>sv' y. serve True (0, 0) one_user_db (Chat 1 ''say'' ''all'' ''home'') (createClient 9 0 ann_online) = Some sv'
    \<and> client 9 sv' = Some y \<and> \<not> c_isvaliduser y \<and> c_reply y = ''chat ok ann home'' @ crlf"
proof -
  obtain x where a: "reachable True (0, 0) one_user_db ann_online" "client 1 ann_online = Some x" "user_session x"
    "c_username x = ''ann''" "map c_addr (sv_clients ann_online) = [1]" using ann_online by metis
  have "9 \<notin> c_addr ` set (sv_clients ann_online)" using arg_cong [OF a(5), of set] by simp
  from stranger_hears_broadcast [OF a(1-3) this, of "''home''"] a(4) show ?thesis by (simp add: num_consts)
qed

lemma freed_user_off:
  assumes r: "reachable can addrs my sv" and cl: "client c sv = Some x" and us: "user_session x"
    and f: "serve can addrs my (Disconnect c) sv = Some sv1"
  shows "reachable can addrs my sv1" "sv_db sv1 = sv_db sv" "user_addr (sv_users sv1) = user_addr (sv_users sv)"
    "c_addr ` set (sv_clients sv1) \<subseteq> c_addr ` set (sv_clients sv)"
    "user_addr (sv_users sv1) (c_username x) = Some a \<Longrightarrow> ui_line (us_heap (sv_users sv1) ! a) \<noteq> ''on''"
proof -
  have inv: "chat_inv sv" by (rule reachable_inv [OF r])
  have "freeClient c sv = Some sv1" using f by (simp add: serve_def)
  then have fr: "sv_db sv1 = sv_db sv" "user_addr (sv_users sv1) = user_addr (sv_users sv)"
      "sessions sv1 = filter (\<lambda>x. c_addr x \<noteq> c) (sessions sv)"
    using freeClient_ok [OF inv cl] by (metis option.inject)+
  have "admissible my (Disconnect c) sv" using client_in [OF cl] by (auto simp: admissible_def)
  with f r show r1: "reachable can addrs my sv1" by (blast intro: reachable.event)
  show "sv_db sv1 = sv_db sv" "user_addr (sv_users sv1) = user_addr (sv_users sv)" by (fact fr)+
  have "set (map c_addr (sessions sv1)) \<subseteq> set (map c_addr (sessions sv))" using fr(3) by auto
  then show "c_addr ` set (sv_clients sv1) \<subseteq> c_addr ` set (sv_clients sv)" by (auto simp: sessions_def)
  assume a: "user_addr (sv_users sv1) (c_username x) = Some a"
  have "False" if y: "y \<in> set (sv_clients sv1)" and u: "user_session y" "user_addr (sv_users sv1) (c_username y) = Some a" for y
  proof -
    have "strip y \<in> set (sessions sv1)" using y by (simp add: sessions_def)
    then have y1: "strip y \<in> set (sessions sv)" "c_addr y \<noteq> c" unfolding fr(3) by auto
    have "same_name (c_username x) (c_username y)"
      using user_addr_Some [OF a] user_addr_Some [OF u(2)] by (auto intro: same_name_trans same_name_sym)
    moreover have "unique_users (set (sessions sv))" using inv by (simp add: chat_inv_def sessions_inv_def)
    moreover have "user_session (strip x)" "user_session (strip y)" "strip x \<in> set (sessions sv)"
      using u us client_session(1) [OF cl] by simp_all
    ultimately have "c_addr (strip x) = c_addr (strip y)"
      using y1(1) unfolding unique_users_def strip_simps(3) by (metis strip_simps(3))
    then have "c_addr x = c_addr y" by simp
    then show False using y1(2) client_in [OF cl] by simp
  qed
  then show "ui_line (us_heap (sv_users sv1) ! a) \<noteq> ''on''"
    using reachable_clients(3) [OF r1] user_addr_Some [OF a] unfolding lines_match_def by blast
qed

text \<open>
  C24. A user who is cut off can always come back: after the client of a user is freed, a new
  connection that gives the right password is logged in as that user.
\<close>

theorem user_can_come_back:
  assumes "reachable can addrs my sv" "client c sv = Some x" "user_session x"
    and "my_row my (sv_db sv) (login_query (c_username x) password)" "length password \<le> MAX_PRINTABLE"
    and "d \<notin> c_addr ` set (sv_clients sv)"
  shows "\<exists>sv1 sv2 y. serve can addrs my (Disconnect c) sv = Some sv1
    \<and> serve can addrs my (Chat d ''login'' (c_username x) password) (createClient d junk sv1) = Some sv2
    \<and> client d sv2 = Some y \<and> user_session y \<and> c_username y = c_username x"
proof -
  have ok: "session_ok (sv_users sv) x" using reachable_clients(2) [OF assms(1)] client_in [OF assms(2)] by blast
  obtain sv1 where s: "serve can addrs my (Disconnect c) sv = Some sv1"
    using freeClient_ok [OF reachable_inv [OF assms(1)] assms(2)] unfolding serve_def by (metis chat_event.case(2))
  note f = freed_user_off [OF assms(1-3) s]
  let ?sv = "createClient d junk sv1"
  have new: "d \<notin> c_addr ` set (sv_clients sv1)" using assms(6) f(4) by blast
  have r: "reachable can addrs my ?sv" by (rule reachable_connect [OF f(1) new])
  have us: "sv_users ?sv = sv_users sv1" "sv_db ?sv = sv_db sv" using f(2) by (simp_all add: createClient_def)
  have "user_addr (sv_users sv) (c_username x) \<noteq> None" using ok assms(3) by (auto simp: session_ok_def user_session_def)
  then have db: "user_addr (sv_users ?sv) (c_username x) \<noteq> None" using f(3) us by simp
  obtain sv2 y where "serve can addrs my (Chat d ''login'' (c_username x) password) ?sv = Some sv2"
    "client d sv2 = Some y" "user_session y" "c_username y = c_username x"
    by (rule reachable_user_login [OF r client_new [OF new], of "c_username x" password])
      (use db f(5) us assms(4,5) ok in \<open>auto simp: session_ok_def\<close>)
  then show ?thesis using s by blast
qed

theorem user_can_come_back_witness:
  "\<exists>sv1 sv2 y. serve True (0, 0) one_user_db (Disconnect 1) ann_online = Some sv1
    \<and> serve True (0, 0) one_user_db (Chat 5 ''login'' ''ann'' ''pw'') (createClient 5 7 sv1) = Some sv2
    \<and> client 5 sv2 = Some y \<and> user_session y"
proof -
  obtain x where a: "reachable True (0, 0) one_user_db ann_online" "client 1 ann_online = Some x" "user_session x"
    "c_username x = ''ann''" "map c_addr (sv_clients ann_online) = [1]" using ann_online by metis
  have "5 \<notin> c_addr ` set (sv_clients ann_online)" using arg_cong [OF a(5), of set] by simp
  then show ?thesis
    using user_can_come_back [OF a(1-3), of "''pw''" 5 7] a(4)
    by (auto simp: one_user_db_def num_consts)
qed

section \<open>Time-outs\<close>



section \<open>Registration\<close>

lemma adduser_registers:
  assumes r: "reachable can addrs my sv" and new: "user_addr (sv_users sv) username = None" "userid_addr (sv_users sv) userid = None"
    and q: "mysql_is_exist my (fst t) (query_saltmd5 userid) sv" "\<not> mysql_is_exist my (snd t) (query_name username) sv"
    and len: "length username \<le> MAX_PRINTABLE" "length userid \<le> MAX_PRINTABLE"
      "length username + length password + length userid + length email \<le> 200"
  obtains sv1 where "serve can addrs my (Register c t ctx ''adduser'' username password userid email) sv = Some sv1"
    "reachable can addrs my sv1" "sv_db sv1 = my_run my (sv_db sv) (insert_alluser userid username password email)"
    "c_addr ` set (sv_clients sv1) = c_addr ` set (sv_clients sv)"
    "user_addr (sv_users sv1) username = Some (length (us_heap (sv_users sv)))"
    "us_heap (sv_users sv1) = us_heap (sv_users sv) @ [new_user userid username (us_all (sv_users sv))]"
    "getNameByUserid userid (sv_users sv1) = Some (Some username)"
proof -
  let ?ev = "Register c t ctx ''adduser'' username password userid email"
  define sv0 where "sv0 = addReplyString c okRegister (mysqlRunCommand my (insert_alluser userid username password email) sv)"
  have "c_addr ` set (sv_clients s) = c_addr ` set (sessions s)" for s :: "'a server" by (simp add: sessions_def image_image)
  then have sv0: "sv_users sv0 = sv_users sv" "sv_db sv0 = my_run my (sv_db sv) (insert_alluser userid username password email)"
      "c_addr ` set (sv_clients sv0) = c_addr ` set (sv_clients sv)"
    by (simp_all add: sv0_def mysqlRunCommand_def) (simp add: sessions_def)
  have "chat_inv sv0" using reachable_inv [OF r] by (simp add: sv0_def chat_inv_def)
  then obtain us where us: "insertUserInfo can userid username (sv_users sv) = Some us"
      "us_heap us = us_heap (sv_users sv) @ [new_user userid username (us_all (sv_users sv))]"
    using insertUser_inv [of sv0 userid username can] new(1) len sv0(1) by auto
  have s: "serve can addrs my ?ev sv = Some (sv0\<lparr>sv_users := us\<rparr>)"
    using us(1) sv0(1) q len
    by (simp add: serve_def registerCommand_def register_adduser_def store_str_def queries sq_def sv0_def Let_def)
  have "admissible my ?ev sv" using len by (simp add: admissible_def)
  with s r have r1: "reachable can addrs my (sv0\<lparr>sv_users := us\<rparr>)" by (blast intro: reachable.event)
  have ui: "users_inv us" using reachable_clients(6) [OF r1] by simp
  have "user_addr us username = Some (length (us_heap (sv_users sv)))" unfolding user_addr_iff [OF ui] using us(2) by simp
  moreover have "getNameByUserid userid us = Some (Some username)"
    unfolding getNameByUserid_ok [OF ui] userid_addr_def using us(2) by simp
  ultimately show ?thesis using that [OF s r1] sv0 us(2) by simp
qed


definition reg_db :: "bool mysql" where
  "reg_db = \<lparr>my_row = (\<lambda>db q. q = query_saltmd5 ''u9'' \<or> db \<and> q = login_query ''bob'' ''pw''), my_run = (\<lambda>_ _. True)\<rparr>"

lemma reg_start: "reachable True (0, 0) reg_db (start_server no_users False 0 10 300)"
  by (rule reachable.start [of "[]"]) (simp_all add: loadable_rows_def do_mysql_dump_redis_def)

definition ctx0 :: md5_context where
  "ctx0 = \<lparr>total0 = 0, total1 = 0, state4 = (0, 0, 0, 0), buffer = [], ipad = [], opad = []\<rparr>"




end
