(* ===== verification/Sds.thy ===== *)
theory Sds
  imports Util "HOL-Library.Monad_Syntax"
begin

text \<open>
  The dynamic strings of the server (\<^verbatim>\<open>server/src/sds.c\<close>).  A string is a header with the length and
  the free space, followed by the characters and a nul character.  The header fields are C \<^verbatim>\<open>int\<close>s,
  so what is stored in them is cut to 32 bits.  An operation returns \<open>None\<close> where the code would
  touch memory outside the allocation or fail an assertion; memory is never exhausted.
\<close>

section \<open>Memory\<close>

abbreviation NUL :: char where "NUL \<equiv> CHR 0x00"

record sdshdr =
  sh_len :: int
  sh_free :: int
  sh_buf :: "char list"

definition int32 :: "int \<Rightarrow> int" where
  "int32 = signed_take_bit 31"

definition size_t :: "int \<Rightarrow> nat" where
  "size_t i = nat (take_bit 64 i)"

definition SDS_MAX_PREALLOC :: nat where [num_consts]: "SDS_MAX_PREALLOC = 1024 * 1024"

text \<open>Writing to and reading from an allocation; new memory holds what it held before, given by \<open>g\<close>.\<close>

definition poke :: "nat \<Rightarrow> string \<Rightarrow> string \<Rightarrow> string option" where
  "poke i src buf = (if i + length src \<le> length buf
    then Some (take i buf @ src @ drop (i + length src) buf) else None)"

definition peek :: "nat \<Rightarrow> nat \<Rightarrow> string \<Rightarrow> string option" where
  "peek i n buf = (if i + n \<le> length buf then Some (take n (drop i buf)) else None)"

definition zmalloc :: "(nat \<Rightarrow> char) \<Rightarrow> nat \<Rightarrow> string" where
  "zmalloc g n = map g [0..<n]"

definition zrealloc :: "(nat \<Rightarrow> char) \<Rightarrow> string \<Rightarrow> nat \<Rightarrow> string" where
  "zrealloc g buf n = take n buf @ map g [length buf..<n]"

section \<open>The code\<close>

definition sdslen :: "sdshdr \<Rightarrow> nat" where "sdslen s = size_t (sh_len s)"
definition sdsavail :: "sdshdr \<Rightarrow> nat" where "sdsavail s = size_t (sh_free s)"

definition sdsnewlen :: "(nat \<Rightarrow> char) \<Rightarrow> string option \<Rightarrow> nat \<Rightarrow> sdshdr option" where
  "sdsnewlen g init initlen = do {
    let buf = (if init \<noteq> None then zmalloc g (initlen + 1) else replicate (initlen + 1) NUL);
    buf \<leftarrow> (if initlen \<noteq> 0 \<and> init \<noteq> None then do { src \<leftarrow> peek 0 initlen (the init); poke 0 src buf } else Some buf);
    buf \<leftarrow> poke initlen [NUL] buf;
    Some \<lparr>sh_len = int32 (int initlen), sh_free = 0, sh_buf = buf\<rparr>
  }"

definition sdsempty :: "(nat \<Rightarrow> char) \<Rightarrow> sdshdr option" where
  "sdsempty g = sdsnewlen g (Some []) 0"

definition strlen :: "string \<Rightarrow> nat" where
  "strlen s = length (takeWhile (\<lambda>c. c \<noteq> NUL) s)"

definition sdsnew :: "(nat \<Rightarrow> char) \<Rightarrow> string option \<Rightarrow> sdshdr option" where
  "sdsnew g init = sdsnewlen g init (case init of None \<Rightarrow> 0 | Some s \<Rightarrow> strlen s)"

definition sdsdup :: "(nat \<Rightarrow> char) \<Rightarrow> sdshdr \<Rightarrow> sdshdr option" where
  "sdsdup g s = sdsnewlen g (Some (sh_buf s)) (sdslen s)"

definition sdsupdatelen :: "sdshdr \<Rightarrow> sdshdr" where
  "sdsupdatelen s = (let reallen = int (strlen (sh_buf s)) in
    s\<lparr>sh_free := int32 (sh_free s + (sh_len s - reallen)), sh_len := int32 reallen\<rparr>)"

definition sdsclear :: "sdshdr \<Rightarrow> sdshdr option" where
  "sdsclear s = do {
    buf \<leftarrow> poke 0 [NUL] (sh_buf s);
    Some \<lparr>sh_len = 0, sh_free = int32 (sh_free s + sh_len s), sh_buf = buf\<rparr>
  }"

definition sdsMakeRoomFor :: "(nat \<Rightarrow> char) \<Rightarrow> nat \<Rightarrow> sdshdr \<Rightarrow> sdshdr" where
  "sdsMakeRoomFor g addlen s = (
    if sdsavail s \<ge> addlen then s
    else
      let len = sdslen s;
          newlen = len + addlen;
          newlen = (if newlen < SDS_MAX_PREALLOC then newlen * 2 else newlen + SDS_MAX_PREALLOC)
      in s\<lparr>sh_free := int32 (int newlen - int len), sh_buf := zrealloc g (sh_buf s) (newlen + 1)\<rparr>)"

definition sdsRemoveFreeSpace :: "(nat \<Rightarrow> char) \<Rightarrow> sdshdr \<Rightarrow> sdshdr" where
  "sdsRemoveFreeSpace g s = s\<lparr>sh_free := 0, sh_buf := zrealloc g (sh_buf s) (nat (sh_len s) + 1)\<rparr>"

definition sdsAllocSize :: "sdshdr \<Rightarrow> int" where
  "sdsAllocSize s = 8 + sh_len s + sh_free s + 1"

definition sdsIncrLen :: "int \<Rightarrow> sdshdr \<Rightarrow> sdshdr option" where
  "sdsIncrLen incr s = (
    if \<not> sh_free s \<ge> incr then None
    else
      let s = s\<lparr>sh_len := int32 (sh_len s + incr), sh_free := int32 (sh_free s - incr)\<rparr> in
      if \<not> sh_free s \<ge> 0 \<or> sh_len s < 0 then None
      else do { buf \<leftarrow> poke (nat (sh_len s)) [NUL] (sh_buf s); Some (s\<lparr>sh_buf := buf\<rparr>) })"

definition sdsgrowzero :: "(nat \<Rightarrow> char) \<Rightarrow> nat \<Rightarrow> sdshdr \<Rightarrow> sdshdr option" where
  "sdsgrowzero g len s = (let curlen = sdslen s in
    if len \<le> curlen then Some s
    else do {
      let s = sdsMakeRoomFor g (len - curlen) s;
      buf \<leftarrow> poke curlen (replicate (len - curlen + 1) NUL) (sh_buf s);
      let totlen = sh_len s + sh_free s;
      Some \<lparr>sh_len = int32 (int len), sh_free = int32 (totlen - int len), sh_buf = buf\<rparr>
    })"

definition sdscatlen :: "(nat \<Rightarrow> char) \<Rightarrow> string \<Rightarrow> sdshdr \<Rightarrow> sdshdr option" where
  "sdscatlen g t s = do {
    let len = length t;
    let curlen = sdslen s;
    let s = sdsMakeRoomFor g len s;
    buf \<leftarrow> poke curlen t (sh_buf s);
    buf \<leftarrow> poke (curlen + len) [NUL] buf;
    Some \<lparr>sh_len = int32 (int (curlen + len)), sh_free = int32 (sh_free s - int len), sh_buf = buf\<rparr>
  }"

definition sdscat :: "(nat \<Rightarrow> char) \<Rightarrow> string \<Rightarrow> sdshdr \<Rightarrow> sdshdr option" where
  "sdscat g t s = sdscatlen g (take (strlen t) t) s"

definition sdscatsds :: "(nat \<Rightarrow> char) \<Rightarrow> sdshdr \<Rightarrow> sdshdr \<Rightarrow> sdshdr option" where
  "sdscatsds g t s = do { t \<leftarrow> peek 0 (sdslen t) (sh_buf t); sdscatlen g t s }"

definition sdscpylen :: "(nat \<Rightarrow> char) \<Rightarrow> string \<Rightarrow> sdshdr \<Rightarrow> sdshdr option" where
  "sdscpylen g t s = do {
    let len = length t;
    let s = (if nat (sh_free s + sh_len s) < len then sdsMakeRoomFor g (nat (int len - sh_len s)) s else s);
    let totlen = sh_free s + sh_len s;
    buf \<leftarrow> poke 0 t (sh_buf s);
    buf \<leftarrow> poke len [NUL] buf;
    Some \<lparr>sh_len = int32 (int len), sh_free = int32 (totlen - int len), sh_buf = buf\<rparr>
  }"

definition sdscpy :: "(nat \<Rightarrow> char) \<Rightarrow> string \<Rightarrow> sdshdr \<Rightarrow> sdshdr option" where
  "sdscpy g t s = sdscpylen g (take (strlen t) t) s"

text \<open>\<^verbatim>\<open>strchr(cset, c)\<close> also finds the nul character that ends \<open>cset\<close>.\<close>

definition in_cset :: "string \<Rightarrow> char \<Rightarrow> bool" where
  "in_cset cset c \<longleftrightarrow> c = NUL \<or> c \<in> set (take (strlen cset) cset)"

definition sdstrim :: "string \<Rightarrow> sdshdr \<Rightarrow> sdshdr option" where
  "sdstrim cset s = do {
    str \<leftarrow> peek 0 (sdslen s) (sh_buf s);
    let sp = length (takeWhile (in_cset cset) str);
    let ep = int (length str) - 1 - int (length (takeWhile (in_cset cset) (rev (tl str))));
    let len = (if int sp > ep then 0 else nat (ep - int sp) + 1);
    src \<leftarrow> peek sp len (sh_buf s);
    buf \<leftarrow> poke 0 src (sh_buf s);
    buf \<leftarrow> poke len [NUL] buf;
    Some \<lparr>sh_len = int len, sh_free = int32 (sh_free s + (sh_len s - int len)), sh_buf = buf\<rparr>
  }"

definition sdsrange :: "int \<Rightarrow> int \<Rightarrow> sdshdr \<Rightarrow> sdshdr option" where
  "sdsrange start en s = (let len = int (sdslen s) in
    if len = 0 then Some s
    else do {
      let start = (if start < 0 then max 0 (int32 (len + start)) else start);
      let en = (if en < 0 then max 0 (int32 (len + en)) else en);
      let newlen = (if start > en then 0 else en - start + 1);
      let (start, newlen) = (
        if newlen \<noteq> 0 then
          if start \<ge> len then (start, 0)
          else if en \<ge> len then (start, if start > len - 1 then 0 else len - 1 - start + 1)
          else (start, newlen)
        else (0, newlen));
      buf \<leftarrow> (if start \<noteq> 0 \<and> newlen \<noteq> 0
        then do { src \<leftarrow> peek (nat start) (nat newlen) (sh_buf s); poke 0 src (sh_buf s) }
        else Some (sh_buf s));
      buf \<leftarrow> poke (nat newlen) [NUL] buf;
      Some \<lparr>sh_len = int32 newlen, sh_free = int32 (sh_free s + (sh_len s - newlen)), sh_buf = buf\<rparr>
    })"

definition c_toupper :: "char \<Rightarrow> char" where
  "c_toupper c = (let n = of_char c :: nat in if 97 \<le> n \<and> n \<le> 122 then char_of (n - 32) else c)"

text \<open>The loops that replace every character of the string.\<close>

definition map_chars :: "(char \<Rightarrow> char) \<Rightarrow> sdshdr \<Rightarrow> sdshdr option" where
  "map_chars f s = do {
    str \<leftarrow> peek 0 (sdslen s) (sh_buf s);
    buf \<leftarrow> poke 0 (map f str) (sh_buf s);
    Some (s\<lparr>sh_buf := buf\<rparr>)
  }"

definition sdstolower :: "sdshdr \<Rightarrow> sdshdr option" where "sdstolower = map_chars c_tolower"
definition sdstoupper :: "sdshdr \<Rightarrow> sdshdr option" where "sdstoupper = map_chars c_toupper"

definition mapchar :: "string \<Rightarrow> string \<Rightarrow> char \<Rightarrow> char" where
  "mapchar from to c = (case find (\<lambda>i. c = from ! i) [0..<length from] of None \<Rightarrow> c | Some i \<Rightarrow> to ! i)"

definition sdsmapchars :: "string \<Rightarrow> string \<Rightarrow> sdshdr \<Rightarrow> sdshdr option" where
  "sdsmapchars from to s = (if length to < length from then None else map_chars (mapchar from to) s)"

text \<open>\<^verbatim>\<open>memcmp\<close> compares the characters as unsigned numbers; only the sign of its result is defined.\<close>

fun memcmp :: "string \<Rightarrow> string \<Rightarrow> int" where
  "memcmp (a # s) (b # t) = (if a = b then memcmp s t
    else if (of_char a :: nat) < of_char b then -1 else 1)"
| "memcmp _ _ = 0"

definition sdscmp :: "sdshdr \<Rightarrow> sdshdr \<Rightarrow> int option" where
  "sdscmp s1 s2 = do {
    let minlen = min (sdslen s1) (sdslen s2);
    a \<leftarrow> peek 0 minlen (sh_buf s1);
    b \<leftarrow> peek 0 minlen (sh_buf s2);
    let cmp = memcmp a b;
    Some (if cmp = 0 then int32 (int (sdslen s1) - int (sdslen s2)) else cmp)
  }"

section \<open>What a header represents\<close>

definition is_sds :: "sdshdr \<Rightarrow> string \<Rightarrow> bool" where
  "is_sds s str \<longleftrightarrow> (\<exists>junk. s = \<lparr>sh_len = int (length str), sh_free = int (length junk), sh_buf = str @ NUL # junk\<rparr>
    \<and> length str + length junk < 2 ^ 31)"

lemma is_sdsI:
  assumes "sh_buf s = str @ NUL # junk" "sh_len s = int (length str)" "sh_free s = int (length junk)"
    "length str + length junk < 2 ^ 31"
  shows "is_sds s str"
  using assms unfolding is_sds_def by (intro exI [of _ junk]) (cases s, simp)

lemma is_sdsE:
  assumes "is_sds s str"
  obtains junk where "s = \<lparr>sh_len = int (length str), sh_free = int (length junk), sh_buf = str @ NUL # junk\<rparr>"
    "length str + length junk < 2 ^ 31"
  using assms unfolding is_sds_def by blast

lemma int32_id: "- (2 ^ 31) \<le> x \<Longrightarrow> x < 2 ^ 31 \<Longrightarrow> int32 x = x"
  unfolding int32_def by (rule signed_take_bit_int_eq_self) simp_all

lemma int32_nat [simp]: "n < 2 ^ 31 \<Longrightarrow> int32 (int n) = int n"
  by (rule int32_id) simp_all

lemma size_t_nat [simp]: "n < 2 ^ 31 \<Longrightarrow> size_t (int n) = n"
  by (simp add: size_t_def take_bit_int_eq_self)

lemma sdslen_str: "is_sds s str \<Longrightarrow> sdslen s = length str"
  by (auto simp: is_sds_def sdslen_def)

lemma peek_str: "is_sds s str \<Longrightarrow> peek 0 (sdslen s) (sh_buf s) = Some str"
  by (auto simp: is_sds_def sdslen_def peek_def)

lemma poke_at: "i = length a \<Longrightarrow> length src \<le> length b \<Longrightarrow> poke i src (a @ b) = Some (a @ src @ drop (length src) b)"
  by (simp add: poke_def)

lemma sdsnewlen_str: "length init < 2 ^ 31 \<Longrightarrow> \<exists>s. sdsnewlen g (Some init) (length init) = Some s \<and> is_sds s init"
  by (auto simp: sdsnewlen_def peek_def poke_def zmalloc_def Let_def intro!: is_sdsI [where junk = "[]"])

lemma sdsMakeRoomFor_str:
  assumes "is_sds s str" "length str + n \<le> 2 ^ 30"
  obtains junk where "sdsMakeRoomFor g n s = \<lparr>sh_len = int (length str), sh_free = int (length junk), sh_buf = str @ NUL # junk\<rparr>"
    "n \<le> length junk" "length str + length junk < 2 ^ 31"
proof -
  obtain junk where j: "s = \<lparr>sh_len = int (length str), sh_free = int (length junk), sh_buf = str @ NUL # junk\<rparr>"
    "length str + length junk < 2 ^ 31" using assms(1) by (rule is_sdsE)
  have l: "sdslen s = length str" "sdsavail s = length junk" using j by (simp_all add: sdslen_def sdsavail_def)
  show ?thesis
  proof (cases "n \<le> length junk")
    case True
    then show ?thesis using that [of junk] j l by (simp add: sdsMakeRoomFor_def)
  next
    case False
    define newlen where "newlen = (if length str + n < SDS_MAX_PREALLOC then (length str + n) * 2 else length str + n + SDS_MAX_PREALLOC)"
    define junk' where "junk' = junk @ map g [length str + length junk + 1..<newlen + 1]"
    have n: "length str + n \<le> newlen" "newlen < 2 ^ 31" using assms(2) by (auto simp: newlen_def num_consts)
    then have z: "zrealloc g (str @ NUL # junk) (newlen + 1) = str @ NUL # junk'" "length str + length junk' = newlen"
      using False by (simp_all add: zrealloc_def junk'_def)
    have "int32 (int newlen - int (length str)) = int (length junk')" using z(2) n(2) by (subst int32_id) auto
    then have "sdsMakeRoomFor g n s = \<lparr>sh_len = int (length str), sh_free = int (length junk'), sh_buf = str @ NUL # junk'\<rparr>"
      using False l j z n(2) by (simp add: sdsMakeRoomFor_def Let_def flip: newlen_def)
    then show ?thesis using that n z(2) by simp
  qed
qed

lemma sdscatlen_str:
  assumes "is_sds s str" "length str + length t \<le> 2 ^ 30"
  shows "\<exists>s'. sdscatlen g t s = Some s' \<and> is_sds s' (str @ t)"
proof -
  obtain junk where m: "sdsMakeRoomFor g (length t) s = \<lparr>sh_len = int (length str), sh_free = int (length junk), sh_buf = str @ NUL # junk\<rparr>"
    "length t \<le> length junk" "length str + length junk < 2 ^ 31" using assms by (rule sdsMakeRoomFor_str)
  have "poke (length str) t (str @ NUL # junk) = Some ((str @ t) @ drop (length t) (NUL # junk))"
    using m(2) by (subst poke_at) auto
  moreover have "poke (length str + length t) [NUL] ((str @ t) @ drop (length t) (NUL # junk)) = Some ((str @ t) @ NUL # drop (length t) junk)"
    using m(2) by (subst poke_at) auto
  moreover have "int32 (int (length junk) - int (length t)) = int (length junk - length t)" using m(2,3) by (subst int32_id) auto
  ultimately show ?thesis using m sdslen_str [OF assms(1)] assms(2)
    by (auto simp: sdscatlen_def Let_def simp flip: of_nat_add intro!: is_sdsI [where junk = "drop (length t) junk"])
qed

lemma sdsclear_str:
  assumes "is_sds s str"
  shows "\<exists>s'. sdsclear s = Some s' \<and> is_sds s' []"
proof -
  obtain junk where j: "s = \<lparr>sh_len = int (length str), sh_free = int (length junk), sh_buf = str @ NUL # junk\<rparr>"
    "length str + length junk < 2 ^ 31" using assms by (rule is_sdsE)
  have "poke 0 [NUL] (str @ NUL # junk) = Some (NUL # tl (str @ NUL # junk))" by (cases str) (simp_all add: poke_def)
  moreover have "int32 (int (length junk) + int (length str)) = int (length junk + length str)"
    using j(2) by (subst int32_id) auto
  ultimately show ?thesis using j
    by (auto simp: sdsclear_def intro!: is_sdsI [where junk = "tl (str @ NUL # junk)"])
qed

lemma sdsRemoveFreeSpace_str:
  assumes "is_sds s str"
  shows "is_sds (sdsRemoveFreeSpace g s) str"
  using assms by (auto simp: is_sds_def sdsRemoveFreeSpace_def zrealloc_def)

lemma sdsgrowzero_str:
  assumes "is_sds s str" "n \<le> 2 ^ 30"
  shows "\<exists>s'. sdsgrowzero g n s = Some s' \<and> is_sds s' (str @ replicate (n - length str) NUL)"
proof (cases "n \<le> length str")
  case True
  then show ?thesis using assms by (simp add: sdsgrowzero_def sdslen_str Let_def)
next
  case False
  define k where "k = n - length str"
  have k: "length str + k = n" using False by (simp add: k_def)
  obtain junk where m: "sdsMakeRoomFor g k s = \<lparr>sh_len = int (length str), sh_free = int (length junk), sh_buf = str @ NUL # junk\<rparr>"
    "k \<le> length junk" "length str + length junk < 2 ^ 31"
    using sdsMakeRoomFor_str [OF assms(1), of k g] k assms(2) by auto
  have "poke (length str) (replicate (k + 1) NUL) (str @ NUL # junk) = Some ((str @ replicate k NUL) @ NUL # drop k junk)"
    using m(2) by (subst poke_at) (auto simp: replicate_append_same [symmetric])
  moreover have "int32 (int (length str) + int (length junk) - int n) = int (length junk - k)"
    using m(2,3) k by (subst int32_id) auto
  ultimately show ?thesis using m sdslen_str [OF assms(1)] False assms(2) k
    by (auto simp: sdsgrowzero_def Let_def simp flip: k_def intro!: is_sdsI [where junk = "drop k junk"])
qed

lemma sdscpylen_str:
  assumes "is_sds s str" "length t \<le> 2 ^ 30"
  shows "\<exists>s'. sdscpylen g t s = Some s' \<and> is_sds s' t"
proof -
  obtain junk where j: "s = \<lparr>sh_len = int (length str), sh_free = int (length junk), sh_buf = str @ NUL # junk\<rparr>"
    "length str + length junk < 2 ^ 31" using assms(1) by (rule is_sdsE)
  let ?s = "if nat (sh_free s + sh_len s) < length t then sdsMakeRoomFor g (nat (int (length t) - sh_len s)) s else s"
  obtain junk' where m: "?s = \<lparr>sh_len = int (length str), sh_free = int (length junk'), sh_buf = str @ NUL # junk'\<rparr>"
    "length t \<le> length str + length junk'" "length str + length junk' < 2 ^ 31"
  proof (cases "length junk + length str < length t")
    case True
    then have e: "?s = sdsMakeRoomFor g (length t - length str) s" using j(1) by (simp add: nat_diff_distrib)
    have "length str + (length t - length str) \<le> 2 ^ 30" using True assms(2) by simp
    then obtain junk' where "sdsMakeRoomFor g (length t - length str) s = \<lparr>sh_len = int (length str), sh_free = int (length junk'), sh_buf = str @ NUL # junk'\<rparr>"
      "length t - length str \<le> length junk'" "length str + length junk' < 2 ^ 31" by (rule sdsMakeRoomFor_str [OF assms(1)])
    then show ?thesis using that [of junk'] e by simp
  next
    case False
    then have "?s = s" using j(1) by simp
    then show ?thesis using that [of junk] j False by simp
  qed
  define rest where "rest = drop (length t) (str @ NUL # junk')"
  have r: "length rest = Suc (length str + length junk' - length t)" using m(2) by (simp add: rest_def)
  have "poke 0 t (str @ NUL # junk') = Some (t @ rest)" using m(2) by (simp add: poke_def rest_def)
  moreover have "poke (length t) [NUL] (t @ rest) = Some (t @ NUL # tl rest)"
    using r by (subst poke_at) (auto simp: drop_Suc)
  moreover have "int32 (int (length junk') + int (length str) - int (length t)) = int (length (tl rest))"
    using m(2,3) r by (subst int32_id) auto
  moreover have "sdscpylen g t s = do {
      buf \<leftarrow> poke 0 t (sh_buf ?s); buf \<leftarrow> poke (length t) [NUL] buf;
      Some \<lparr>sh_len = int32 (int (length t)), sh_free = int32 (sh_free ?s + sh_len ?s - int (length t)), sh_buf = buf\<rparr> }"
    by (simp only: sdscpylen_def Let_def)
  ultimately show ?thesis unfolding m(1) using m(2,3) r assms(2)
    by (auto intro!: is_sdsI [where junk = "tl rest"])
qed

text \<open>Trimming to a slice of the string, which the next two operations do.\<close>

lemma slice_str:
  assumes "is_sds s str" "i + n \<le> length str"
  shows "\<exists>buf. poke 0 (take n (drop i str)) (sh_buf s) = Some buf \<and> peek i n (sh_buf s) = Some (take n (drop i str))
    \<and> (\<exists>buf'. poke n [NUL] buf = Some buf' \<and>
      is_sds \<lparr>sh_len = int n, sh_free = int32 (sh_free s + (sh_len s - int n)), sh_buf = buf'\<rparr> (take n (drop i str)))"
proof -
  obtain junk where j: "s = \<lparr>sh_len = int (length str), sh_free = int (length junk), sh_buf = str @ NUL # junk\<rparr>"
    "length str + length junk < 2 ^ 31" using assms(1) by (rule is_sdsE)
  let ?t = "take n (drop i str)"
  have t: "length ?t = n" using assms(2) by simp
  define rest where "rest = drop n (str @ NUL # junk)"
  have r: "length rest = Suc (length str + length junk - n)" using assms(2) by (simp add: rest_def)
  have "poke 0 ?t (sh_buf s) = Some (?t @ rest)" using j t assms(2) by (simp add: poke_def rest_def)
  moreover have "peek i n (sh_buf s) = Some ?t" using j assms(2) by (simp add: peek_def)
  moreover have "poke n [NUL] (?t @ rest) = Some (?t @ NUL # tl rest)"
    using r t by (subst poke_at) (auto simp: drop_Suc)
  moreover have "int32 (sh_free s + (sh_len s - int n)) = int (length (tl rest))"
    using j r assms(2) by (subst int32_id) auto
  ultimately show ?thesis using t r j assms(2)
    by (auto intro!: is_sdsI [where junk = "tl rest"])
qed

definition trim :: "(char \<Rightarrow> bool) \<Rightarrow> string \<Rightarrow> string" where
  "trim p s = rev (dropWhile p (rev (dropWhile p s)))"

text \<open>The indices that the two loops of \<^verbatim>\<open>sdstrim\<close> stop at.\<close>

lemma trim_slice:
  fixes p :: "char \<Rightarrow> bool" and s :: string
  defines "sp \<equiv> length (takeWhile p s)" and "ep \<equiv> int (length s) - 1 - int (length (takeWhile p (rev (tl s))))"
  defines "n \<equiv> if int sp > ep then 0 else nat (ep - int sp) + 1"
  shows "trim p s = take n (drop sp s)" "sp + n \<le> length s"
proof -
  have "trim p s = take n (drop sp s) \<and> sp + n \<le> length s"
  proof (cases "\<forall>c \<in> set s. p c")
    case True
    then have "takeWhile p s = s" by (simp add: takeWhile_eq_all_conv)
    then have "length (takeWhile p s) = length s" by (rule arg_cong)
    then have "n = 0" "sp = length s" by (simp_all add: n_def sp_def ep_def)
    moreover have "trim p s = []"
      unfolding trim_def dropWhile_eq_Nil_conv [THEN iffD2, OF True] by simp
    ultimately show ?thesis by simp
  next
    case False
    then obtain h t where s: "s = h # t" by (cases s) auto
    have tw: "takeWhile p (rev t) = takeWhile p (rev s)"
      using False s by (cases "\<forall>c \<in> set t. p c") (auto simp: takeWhile_tail)
    define u where "u = dropWhile p s"
    have su: "s = takeWhile p s @ u" by (simp add: u_def)
    then have u: "drop sp s = u" "length s = sp + length u" unfolding sp_def by (metis append_eq_conv_conj, metis length_append)
    obtain x where x: "x \<in> set u" "\<not> p x" using False su by (metis Un_iff set_append set_takeWhileD)
    have "takeWhile p (rev s) = takeWhile p (rev u @ rev (takeWhile p s))" by (subst su) simp
    also have "\<dots> = takeWhile p (rev u)" using x by (intro takeWhile_append1 [of x]) simp_all
    finally have ep: "ep = int (length s) - 1 - int (length (takeWhile p (rev u)))" using s tw by (simp add: ep_def)
    have "takeWhile p (rev u) \<noteq> rev u" using x by (auto simp: takeWhile_eq_all_conv)
    then have "length (takeWhile p (rev u)) < length u"
      by (metis length_rev length_takeWhile_le order_le_imp_less_or_eq takeWhile_eq_take take_all_iff order_refl)
    then have n: "n = length u - length (takeWhile p (rev u))" using ep u by (simp add: n_def)
    have "trim p s = take (length u - length (takeWhile p (rev u))) u"
      unfolding trim_def u_def [symmetric] by (simp add: dropWhile_eq_drop rev_drop)
    then show ?thesis using n u by simp
  qed
  then show "trim p s = take n (drop sp s)" "sp + n \<le> length s" by auto
qed

lemma sdstrim_str:
  assumes "is_sds s str"
  shows "\<exists>s'. sdstrim cset s = Some s' \<and> is_sds s' (trim (in_cset cset) str)"
  using trim_slice [of "in_cset cset" str] slice_str [OF assms trim_slice(2) [of "in_cset cset" str]] peek_str [OF assms]
  by (auto simp: sdstrim_def Let_def)

text \<open>Negative indices count from the end; the slice is cut to the string.\<close>

definition str_range :: "int \<Rightarrow> int \<Rightarrow> string \<Rightarrow> string" where
  "str_range start en s = (
    let len = int (length s);
        start = (if start < 0 then max 0 (len + start) else start);
        en = (if en < 0 then max 0 (len + en) else en)
    in take (nat (min en (len - 1) - start + 1)) (drop (nat start) s))"

lemma sdsrange_str:
  assumes "is_sds s str" "- (2 ^ 31) \<le> start" "- (2 ^ 31) \<le> en"
  shows "\<exists>s'. sdsrange start en s = Some s' \<and> is_sds s' (str_range start en str)"
proof (cases "str = []")
  case True
  then show ?thesis using assms by (simp add: sdsrange_def sdslen_str str_range_def Let_def)
next
  case False
  define len where "len = int (length str)"
  have len: "0 < len" "len < 2 ^ 31" using False assms(1) by (auto simp: len_def is_sds_def)
  define a where "a = (if start < 0 then max 0 (len + start) else start)"
  define e where "e = (if en < 0 then max 0 (len + en) else en)"
  have i: "start < 0 \<Longrightarrow> int32 (len + start) = len + start" "en < 0 \<Longrightarrow> int32 (len + en) = len + en"
    using assms(2,3) len by (auto intro!: int32_id)
  define n where "n = (if a > e \<or> a \<ge> len then 0 else nat (min e (len - 1) - a + 1))"
  have a0: "0 \<le> a" "0 \<le> e" by (auto simp: a_def e_def)
  have n: "n \<noteq> 0 \<Longrightarrow> nat a + n \<le> length str" using a0 by (auto simp: n_def len_def split: if_splits)
  have n31: "n \<le> length str" "n < 2 ^ 31" using n len by (cases "n = 0"; simp add: len_def)+
  have st: "str_range start en str = take n (drop (nat a) str)"
    using a0 by (auto simp: str_range_def n_def len_def Let_def simp flip: a_def [unfolded len_def] e_def [unfolded len_def])
  have code: "sdsrange start en s = do {
      buf \<leftarrow> (if a \<noteq> 0 \<and> n \<noteq> 0 then do { src \<leftarrow> peek (nat a) n (sh_buf s); poke 0 src (sh_buf s) } else Some (sh_buf s));
      buf \<leftarrow> poke n [NUL] buf;
      Some \<lparr>sh_len = int32 (int n), sh_free = int32 (sh_free s + (sh_len s - int n)), sh_buf = buf\<rparr> }"
  proof -
    have a32: "(if start < 0 then max 0 (int32 (len + start)) else start) = a" "(if en < 0 then max 0 (int32 (len + en)) else en) = e"
      using i by (simp_all add: a_def e_def)
    have l: "int (sdslen s) = len" "len \<noteq> 0" using len by (simp_all add: sdslen_str [OF assms(1)] len_def)
    show ?thesis unfolding sdsrange_def Let_def l(1) a32 using l(2) a0
      by (cases "a > e"; cases "a \<ge> len"; cases "e \<ge> len") (simp_all add: n_def)
  qed
  show ?thesis
  proof (cases "a \<noteq> 0 \<and> n \<noteq> 0")
    case True
    then show ?thesis using slice_str [OF assms(1), of "nat a" n] n n31 unfolding code st by auto
  next
    case False
    have "take n (drop (nat a) str) = take n (drop 0 str)" using False by auto
    moreover have "n \<le> length str" using n31(1) .
    moreover have "poke 0 (take n str) (sh_buf s) = Some (sh_buf s)"
      using assms(1) n31(1) by (auto simp: is_sds_def poke_def min_absorb2)
    moreover obtain buf where "poke n [NUL] (sh_buf s) = Some buf"
      "is_sds \<lparr>sh_len = int n, sh_free = int32 (sh_free s + (sh_len s - int n)), sh_buf = buf\<rparr> (take n str)"
      using slice_str [OF assms(1), of 0 n] n31(1) calculation by auto
    ultimately show ?thesis using n31(2) unfolding code st if_not_P [OF False] by simp
  qed
qed

lemma map_chars_str:
  assumes "is_sds s str"
  shows "\<exists>s'. map_chars f s = Some s' \<and> is_sds s' (map f str)"
proof -
  obtain junk where j: "s = \<lparr>sh_len = int (length str), sh_free = int (length junk), sh_buf = str @ NUL # junk\<rparr>"
    "length str + length junk < 2 ^ 31" using assms by (rule is_sdsE)
  have "poke 0 (map f str) (sh_buf s) = Some (map f str @ NUL # junk)" using j(1) by (simp add: poke_def)
  then show ?thesis using peek_str [OF assms] j
    by (auto simp: map_chars_def intro!: is_sdsI [where junk = junk])
qed

text \<open>Cutting off the end, and the way the server reads from a socket: room, bytes behind the end, new length.\<close>

lemma sdsIncrLen_cut:
  assumes "is_sds s str" "k \<le> length str"
  shows "\<exists>s'. sdsIncrLen (- int k) s = Some s' \<and> is_sds s' (take (length str - k) str)"
proof -
  obtain junk where j: "s = \<lparr>sh_len = int (length str), sh_free = int (length junk), sh_buf = str @ NUL # junk\<rparr>"
    "length str + length junk < 2 ^ 31" using assms(1) by (rule is_sdsE)
  define n where "n = length str - k"
  have k: "int32 (int (length str) - int k) = int n" "int32 (int (length junk) + int k) = int (length junk + k)"
    using j(2) assms(2) by (auto simp: int32_id n_def)
  define rest where "rest = drop n (str @ NUL # junk)"
  have r: "length rest = Suc (length junk + k)" using assms(2) by (simp add: rest_def n_def)
  have "str @ NUL # junk = take n str @ rest" using assms(2) by (simp add: rest_def n_def)
  then have "poke n [NUL] (str @ NUL # junk) = Some (take n str @ NUL # tl rest)"
    using r assms(2) by (simp add: poke_at n_def drop_Suc)
  moreover have "length (take n str) = n" "n + (length junk + k) < 2 ^ 31" using j(2) assms(2) by (simp_all add: n_def)
  ultimately show ?thesis using j(1) k r unfolding n_def [symmetric]
    by (auto simp: sdsIncrLen_def Let_def intro!: is_sdsI [where junk = "tl rest"])
qed

definition sds_read :: "(nat \<Rightarrow> char) \<Rightarrow> nat \<Rightarrow> string \<Rightarrow> sdshdr \<Rightarrow> sdshdr option" where
  "sds_read g readlen bytes s = do {
    let qblen = sdslen s;
    let s = sdsMakeRoomFor g readlen s;
    buf \<leftarrow> poke qblen bytes (sh_buf s);
    sdsIncrLen (int (length bytes)) (s\<lparr>sh_buf := buf\<rparr>)
  }"

lemma sds_read_str:
  assumes "is_sds s str" "length bytes \<le> n" "length str + n \<le> 2 ^ 30"
  shows "\<exists>s'. sds_read g n bytes s = Some s' \<and> is_sds s' (str @ bytes)"
proof -
  obtain junk where m: "sdsMakeRoomFor g n s = \<lparr>sh_len = int (length str), sh_free = int (length junk), sh_buf = str @ NUL # junk\<rparr>"
    "n \<le> length junk" "length str + length junk < 2 ^ 31" using assms(1,3) by (rule sdsMakeRoomFor_str)
  have "poke (length str) bytes (str @ NUL # junk) = Some ((str @ bytes) @ drop (length bytes) (NUL # junk))"
    using m(2) assms(2) by (subst poke_at) auto
  moreover have "poke (length str + length bytes) [NUL] ((str @ bytes) @ drop (length bytes) (NUL # junk))
      = Some ((str @ bytes) @ NUL # drop (length bytes) junk)"
    using m(2) assms(2) by (subst poke_at) auto
  moreover have "int32 (int (length str) + int (length bytes)) = int (length str + length bytes)"
    "int32 (int (length junk) - int (length bytes)) = int (length junk - length bytes)"
    using m(2,3) assms(2,3) by (auto simp: int32_id)
  ultimately show ?thesis using m assms(2) sdslen_str [OF assms(1)]
    by (auto simp: sds_read_def sdsIncrLen_def Let_def nat_add_distrib intro!: is_sdsI [where junk = "drop (length bytes) junk"])
qed

lemma memcmp_0: "length a = length b \<Longrightarrow> memcmp a b = 0 \<longleftrightarrow> a = b"
  by (induction a b rule: memcmp.induct) auto

lemma sdscmp_0:
  assumes "is_sds s a" "is_sds t b"
  shows "\<exists>r. sdscmp s t = Some r \<and> (r = 0 \<longleftrightarrow> a = b)"
proof -
  define n where "n = min (length a) (length b)"
  have ab: "length a < 2 ^ 31" "length b < 2 ^ 31" using assms by (auto simp: is_sds_def)
  have p: "peek 0 n (sh_buf s) = Some (take n a)" "peek 0 n (sh_buf t) = Some (take n b)"
    using assms by (auto simp: is_sds_def peek_def n_def)
  have "int32 (int (length a) - int (length b)) = int (length a) - int (length b)" using ab by (auto simp: int32_id)
  moreover have "memcmp (take n a) (take n b) = 0 \<longleftrightarrow> take n a = take n b" by (rule memcmp_0) (simp add: n_def)
  moreover have "length a = length b \<and> take n a = take n b \<longleftrightarrow> a = b" by (auto simp: n_def)
  ultimately show ?thesis using p sdslen_str [OF assms(1)] sdslen_str [OF assms(2)]
    by (auto simp: sdscmp_def Let_def simp flip: n_def)
qed

section \<open>Sequences of operations\<close>

datatype sds_op = Catlen string | Cpylen string | Range int int | Trim string | Clear | Growzero nat
  | Makeroom nat | Removefree | Lower | Upper | Mapchars string string | Cut nat | Read nat string

definition sds_step :: "(nat \<Rightarrow> char) \<Rightarrow> sds_op \<Rightarrow> sdshdr \<Rightarrow> sdshdr option" where
  "sds_step g p s = (case p of
     Catlen t \<Rightarrow> sdscatlen g t s
   | Cpylen t \<Rightarrow> sdscpylen g t s
   | Range a b \<Rightarrow> sdsrange a b s
   | Trim cset \<Rightarrow> sdstrim cset s
   | Clear \<Rightarrow> sdsclear s
   | Growzero n \<Rightarrow> sdsgrowzero g n s
   | Makeroom n \<Rightarrow> Some (sdsMakeRoomFor g n s)
   | Removefree \<Rightarrow> Some (sdsRemoveFreeSpace g s)
   | Lower \<Rightarrow> sdstolower s
   | Upper \<Rightarrow> sdstoupper s
   | Mapchars f t \<Rightarrow> sdsmapchars f t s
   | Cut k \<Rightarrow> sdsIncrLen (- int k) s
   | Read n bytes \<Rightarrow> sds_read g n bytes s)"

text \<open>The same operations on a plain string, and when a caller may use them.\<close>

definition str_step :: "sds_op \<Rightarrow> string \<Rightarrow> string" where
  "str_step p s = (case p of
     Catlen t \<Rightarrow> s @ t
   | Cpylen t \<Rightarrow> t
   | Range a b \<Rightarrow> str_range a b s
   | Trim cset \<Rightarrow> trim (in_cset cset) s
   | Clear \<Rightarrow> []
   | Growzero n \<Rightarrow> s @ replicate (n - length s) NUL
   | Makeroom n \<Rightarrow> s
   | Removefree \<Rightarrow> s
   | Lower \<Rightarrow> map c_tolower s
   | Upper \<Rightarrow> map c_toupper s
   | Mapchars f t \<Rightarrow> map (mapchar f t) s
   | Cut k \<Rightarrow> take (length s - k) s
   | Read n bytes \<Rightarrow> s @ bytes)"

definition may_step :: "sds_op \<Rightarrow> string \<Rightarrow> bool" where
  "may_step p s \<longleftrightarrow> (case p of
     Catlen t \<Rightarrow> length s + length t \<le> 2 ^ 30
   | Cpylen t \<Rightarrow> length t \<le> 2 ^ 30
   | Range a b \<Rightarrow> - (2 ^ 31) \<le> a \<and> - (2 ^ 31) \<le> b
   | Growzero n \<Rightarrow> n \<le> 2 ^ 30
   | Makeroom n \<Rightarrow> length s + n \<le> 2 ^ 30
   | Mapchars f t \<Rightarrow> length f \<le> length t
   | Cut k \<Rightarrow> k \<le> length s
   | Read n bytes \<Rightarrow> length bytes \<le> n \<and> length s + n \<le> 2 ^ 30
   | _ \<Rightarrow> True)"

fun sds_run :: "(nat \<Rightarrow> char) \<Rightarrow> sds_op list \<Rightarrow> sdshdr \<Rightarrow> sdshdr option" where
  "sds_run g [] s = Some s"
| "sds_run g (p # ps) s = Option.bind (sds_step g p s) (sds_run g ps)"

fun str_run :: "sds_op list \<Rightarrow> string \<Rightarrow> string option" where
  "str_run [] s = Some s"
| "str_run (p # ps) s = (if may_step p s then str_run ps (str_step p s) else None)"

lemma sds_step_str:
  assumes "is_sds s str" "may_step p str"
  shows "\<exists>s'. sds_step g p s = Some s' \<and> is_sds s' (str_step p str)"
proof (cases p)
  case (Makeroom n)
  then obtain junk where "sdsMakeRoomFor g n s = \<lparr>sh_len = int (length str), sh_free = int (length junk), sh_buf = str @ NUL # junk\<rparr>"
    "length str + length junk < 2 ^ 31" using sdsMakeRoomFor_str [OF assms(1), of n g] assms(2) by (auto simp: may_step_def)
  then show ?thesis using Makeroom by (auto simp: sds_step_def str_step_def is_sds_def)
qed (use assms in \<open>auto simp: sds_step_def str_step_def may_step_def sdsmapchars_def sdstolower_def sdstoupper_def
   intro: sdscatlen_str sdscpylen_str sdsrange_str sdstrim_str sdsclear_str sdsgrowzero_str sdsRemoveFreeSpace_str
     map_chars_str sdsIncrLen_cut sds_read_str\<close>)

text \<open>
  C38. The dynamic strings are strings: any sequence of operations on a header, started from
  \<^verbatim>\<open>sdsnewlen\<close> and kept below 2^30 characters, stays inside the allocated memory, keeps length, free
  space and terminator consistent, and leaves exactly the characters that the same operations on a
  plain string leave, whatever the allocator returns.
\<close>

theorem sds_is_a_string:
  assumes "length init \<le> 2 ^ 30" "str_run ps init = Some str"
  shows "\<exists>s s'. sdsnewlen g (Some init) (length init) = Some s \<and> sds_run g ps s = Some s'
    \<and> sh_len s' = int (length str) \<and> 0 \<le> sh_free s' \<and> sh_len s' + sh_free s' + 1 = int (length (sh_buf s'))
    \<and> take (length str + 1) (sh_buf s') = str @ [NUL]"
proof -
  have run: "is_sds s a \<Longrightarrow> str_run ps a = Some b \<Longrightarrow> \<exists>s'. sds_run g ps s = Some s' \<and> is_sds s' b" for s a b
  proof (induction ps arbitrary: s a)
    case (Cons p ps)
    then have "may_step p a" "str_run ps (str_step p a) = Some b" by (auto split: if_splits)
    then show ?case using sds_step_str [OF Cons.prems(1), of p g] Cons.IH by auto
  qed simp
  obtain s where s: "sdsnewlen g (Some init) (length init) = Some s" "is_sds s init"
    using sdsnewlen_str [of init g] assms(1) by auto
  obtain s' where "sds_run g ps s = Some s'" "is_sds s' str" using run [OF s(2) assms(2)] by blast
  then show ?thesis using s(1) by (auto simp: is_sds_def)
qed

theorem sds_is_a_string_witness:
  "\<exists>s s'. sdsnewlen (\<lambda>_. CHR ''?'') (Some ''hello'') 5 = Some s
    \<and> sds_run (\<lambda>_. CHR ''?'') [Catlen '' world'', Range 1 (-2)] s = Some s' \<and> take 10 (sh_buf s') = ''ello worl'' @ [NUL]"
proof -
  have "str_run [Catlen '' world'', Range 1 (-2)] ''hello'' = Some ''ello worl''" by (simp add: may_step_def str_step_def str_range_def)
  moreover have "length ''hello'' \<le> 2 ^ 30" "length ''hello'' = 5" "length ''ello worl'' + 1 = 10" by simp_all
  ultimately show ?thesis using sds_is_a_string [of "''hello''" _ _ "\<lambda>_. CHR ''?''"] by metis
qed

end
