(* ===== verification/Sds_Args.thy ===== *)
theory Sds_Args
  imports Sds
begin

text \<open>
  Quoting and splitting of strings (the second half of \<^verbatim>\<open>server/src/sds.c\<close>): the quoted notation that
  \<^verbatim>\<open>sdscatrepr\<close> writes and \<^verbatim>\<open>sdssplitargs\<close> reads, and splitting at a separator.  The strings that
  are built up with \<^verbatim>\<open>sdscatlen\<close> are plain lists of characters here.
\<close>

section \<open>The code\<close>

abbreviation DQ :: char where "DQ \<equiv> CHR 0x22"
abbreviation SQ :: char where "SQ \<equiv> CHR 0x27"
abbreviation BS :: char where "BS \<equiv> CHR 0x5C"

definition isspace :: "char \<Rightarrow> bool" where
  "isspace c \<longleftrightarrow> c \<in> {CHR '' '', CHR 0x09, CHR 0x0A, CHR 0x0B, CHR 0x0C, CHR 0x0D}"

definition isprint :: "char \<Rightarrow> bool" where
  "isprint c \<longleftrightarrow> 32 \<le> (of_char c :: nat) \<and> (of_char c :: nat) \<le> 126"

definition xdigit :: "nat \<Rightarrow> char" where
  "xdigit n = char_of (if n < 10 then 48 + n else 87 + n)"

definition repr_char :: "char \<Rightarrow> string" where
  "repr_char c = (
    if c = BS \<or> c = DQ then [BS, c]
    else if c = CHR 0x0A then [BS, CHR ''n'']
    else if c = CHR 0x0D then [BS, CHR ''r'']
    else if c = CHR 0x09 then [BS, CHR ''t'']
    else if c = CHR 0x07 then [BS, CHR ''a'']
    else if c = CHR 0x08 then [BS, CHR ''b'']
    else if isprint c then [c]
    else [BS, CHR ''x'', xdigit (of_char c div 16), xdigit (of_char c mod 16)])"

definition sdscatrepr :: "string \<Rightarrow> string \<Rightarrow> string" where
  "sdscatrepr s p = s @ DQ # concat (map repr_char p) @ [DQ]"

definition is_hex_digit :: "char \<Rightarrow> bool" where
  "is_hex_digit c \<longleftrightarrow> (let n = of_char c :: nat in 48 \<le> n \<and> n \<le> 57 \<or> 97 \<le> n \<and> n \<le> 102 \<or> 65 \<le> n \<and> n \<le> 70)"

definition hex_digit_to_int :: "char \<Rightarrow> nat" where
  "hex_digit_to_int c = (let n = of_char c in
    if 48 \<le> n \<and> n \<le> 57 then n - 48
    else if 97 \<le> n \<and> n \<le> 102 then n - 87
    else if 65 \<le> n \<and> n \<le> 70 then n - 55
    else 0)"

definition unescape :: "char \<Rightarrow> char" where
  "unescape c = (
    if c = CHR ''n'' then CHR 0x0A
    else if c = CHR ''r'' then CHR 0x0D
    else if c = CHR ''t'' then CHR 0x09
    else if c = CHR ''b'' then CHR 0x08
    else if c = CHR ''a'' then CHR 0x07
    else c)"

text \<open>
  The loop that reads one token, in its three modes: inside double quotes, inside single quotes and
  outside.  What was read so far is \<open>cur\<close>; the result is the token and the rest of the line, or
  \<open>None\<close> for unbalanced quotes.
\<close>

definition close_quote :: "string \<Rightarrow> string \<Rightarrow> (string \<times> string) option" where
  "close_quote p cur = (if p \<noteq> [] \<and> \<not> isspace (hd p) then None else Some (cur, p))"

definition hex_escape :: "string \<Rightarrow> bool" where
  "hex_escape p \<longleftrightarrow> length p \<ge> 3 \<and> p ! 0 = CHR ''x'' \<and> is_hex_digit (p ! 1) \<and> is_hex_digit (p ! 2)"

fun token_inq :: "string \<Rightarrow> string \<Rightarrow> (string \<times> string) option" where
  "token_inq [] cur = None"
| "token_inq (c # p) cur = (
    if c = BS \<and> hex_escape p then
      token_inq (drop 3 p) (cur @ [char_of (hex_digit_to_int (p ! 1) * 16 + hex_digit_to_int (p ! 2))])
    else if c = BS \<and> p \<noteq> [] then token_inq (tl p) (cur @ [unescape (hd p)])
    else if c = DQ then close_quote p cur
    else token_inq p (cur @ [c]))"

fun token_insq :: "string \<Rightarrow> string \<Rightarrow> (string \<times> string) option" where
  "token_insq [] cur = None"
| "token_insq (c # p) cur = (
    if c = BS \<and> p \<noteq> [] \<and> hd p = SQ then token_insq (tl p) (cur @ [SQ])
    else if c = SQ then close_quote p cur
    else token_insq p (cur @ [c]))"

fun token_plain :: "string \<Rightarrow> string \<Rightarrow> (string \<times> string) option" where
  "token_plain [] cur = Some (cur, [])"
| "token_plain (c # p) cur = (
    if c \<in> {CHR '' '', CHR 0x0A, CHR 0x0D, CHR 0x09} then Some (cur, p)
    else if c = DQ then token_inq p cur
    else if c = SQ then token_insq p cur
    else token_plain p (cur @ [c]))"

lemma token_inq_shorter: "token_inq p cur = Some (t, r) \<Longrightarrow> length r \<le> length p"
proof (induction p cur rule: token_inq.induct)
  case (2 c p cur)
  then show ?case by (auto simp: close_quote_def split: if_splits)
qed simp

lemma token_insq_shorter: "token_insq p cur = Some (t, r) \<Longrightarrow> length r \<le> length p"
proof (induction p cur rule: token_insq.induct)
  case (2 c p cur)
  then show ?case by (auto simp: close_quote_def split: if_splits)
qed simp

lemma token_plain_shorter: "token_plain p cur = Some (t, r) \<Longrightarrow> length r \<le> length p - 1"
proof (induction p cur rule: token_plain.induct)
  case (2 c p cur)
  then show ?case using token_inq_shorter [of p cur t r] token_insq_shorter [of p cur t r]
    by (fastforce split: if_splits)
qed simp

function sdssplitargs_loop :: "string \<Rightarrow> string list option" where
  "sdssplitargs_loop p = (let p = dropWhile isspace p in
    if p = [] then Some []
    else case token_plain p [] of None \<Rightarrow> None
      | Some (t, r) \<Rightarrow> map_option (Cons t) (sdssplitargs_loop r))"
  by pat_completeness auto
termination
proof (relation "measure length", goal_cases)
  case (2 p x a t r)
  then have "length r \<le> length x - 1" using token_plain_shorter by fastforce
  moreover have "length x \<le> length p" using 2(1) by (simp add: length_dropWhile_le)
  ultimately show ?case using 2(2) by (cases x) auto
qed simp

declare sdssplitargs_loop.simps [simp del]

definition sdssplitargs :: "string \<Rightarrow> string list option" where
  "sdssplitargs line = sdssplitargs_loop (take (strlen line) line)"

text \<open>
  Splitting at every occurrence of the separator, and joining.  The loop is entered with a separator
  that is not empty.
\<close>

function splitlen_loop :: "string \<Rightarrow> string \<Rightarrow> nat \<Rightarrow> nat \<Rightarrow> string list" where
  "splitlen_loop s sep start j = (
    if sep \<noteq> [] \<and> int j < int (length s) - (int (length sep) - 1) then
      if take (length sep) (drop j s) = sep
      then take (j - start) (drop start s) # splitlen_loop s sep (j + length sep) (j + length sep - 1 + 1)
      else splitlen_loop s sep start (j + 1)
    else [drop start s])"
  by pat_completeness auto
termination
  by (relation "measure (\<lambda>(s, sep, start, j). Suc (length s) - j)") (auto simp flip: length_greater_0_conv)

declare splitlen_loop.simps [simp del]

definition sdssplitlen :: "string \<Rightarrow> string \<Rightarrow> string list option" where
  "sdssplitlen s sep = (if length sep < 1 then None else if length s = 0 then Some [] else Some (splitlen_loop s sep 0 0))"

fun sdsjoin :: "string list \<Rightarrow> string \<Rightarrow> string" where
  "sdsjoin [] sep = []"
| "sdsjoin [a] sep = a"
| "sdsjoin (a # as) sep = a @ sep @ sdsjoin as sep"

definition sdsfromlonglong :: "64 word \<Rightarrow> string" where
  "sdsfromlonglong value = (
    let v = (if sint value < 0 then - value else value); p = ll2string_loop v []
    in if sint value < 0 then CHR ''-'' # p else p)"

section \<open>Quoting and reading back\<close>

lemma xdigit_hex: "n < 16 \<Longrightarrow> is_hex_digit (xdigit n)" "n < 16 \<Longrightarrow> hex_digit_to_int (xdigit n) = n"
    "n < 16 \<Longrightarrow> isprint (xdigit n)"
  by (auto simp: xdigit_def is_hex_digit_def hex_digit_to_int_def isprint_def of_char_of Let_def)

lemma token_inq_char: "token_inq (repr_char c @ p) cur = token_inq p (cur @ [c])"
proof -
  have esc: "token_inq (BS # d # p) cur = token_inq p (cur @ [unescape d])" if "d \<noteq> CHR ''x''" for d
    using that by (simp add: hex_escape_def)
  have n: "(of_char c :: nat) < 256" by simp
  have hex: "token_inq (BS # CHR ''x'' # xdigit (of_char c div 16) # xdigit (of_char c mod 16) # p) cur = token_inq p (cur @ [c])"
    using xdigit_hex [of "of_char c div 16"] xdigit_hex [of "of_char c mod 16"] n
    by (simp add: hex_escape_def less_mult_imp_div_less numeral_3_eq_3)
  have pl: "c \<noteq> BS \<Longrightarrow> c \<noteq> DQ \<Longrightarrow> token_inq (c # p) cur = token_inq p (cur @ [c])" by simp
  show ?thesis using pl by (simp add: repr_char_def unescape_def esc hex del: token_inq.simps)
qed

lemma token_inq_repr: "token_inq (concat (map repr_char s) @ p) cur = token_inq p (cur @ s)"
  by (induction s arbitrary: cur) (simp_all add: token_inq_char)

lemma token_quoted:
  assumes "p = [] \<or> isspace (hd p)"
  shows "token_plain (sdscatrepr [] s @ p) [] = Some (s, p)"
  using assms by (simp add: sdscatrepr_def token_inq_repr close_quote_def)

lemma loop_quoted:
  assumes "p = [] \<or> isspace (hd p)"
  shows "sdssplitargs_loop (sdscatrepr [] s @ p) = map_option (Cons s) (sdssplitargs_loop p)"
proof -
  have "dropWhile isspace (sdscatrepr [] s @ p) = sdscatrepr [] s @ p" by (simp add: sdscatrepr_def isspace_def)
  then show ?thesis using token_quoted [OF assms]
    by (subst sdssplitargs_loop.simps) (simp add: sdscatrepr_def)
qed

lemma loop_blank: "isspace c \<Longrightarrow> sdssplitargs_loop (c # p) = sdssplitargs_loop p"
  by (subst (1 2) sdssplitargs_loop.simps) simp

lemma loop_args: "sdssplitargs_loop (sdsjoin (map (sdscatrepr []) args) '' '') = Some args"
proof (induction args rule: induct_list012)
  case (2 a)
  show ?case using loop_quoted [of "[]" a] by (simp add: sdssplitargs_loop.simps [of "[]"])
next
  case (3 a b args)
  have "isspace CHR '' ''" by (simp add: isspace_def)
  then show ?case using 3 loop_quoted [of "'' '' @ sdsjoin (map (sdscatrepr []) (b # args)) '' ''" a]
    by (simp add: loop_blank)
qed (simp add: sdssplitargs_loop.simps [of "[]"])

lemma repr_no_control: "d \<in> set (repr_char c) \<Longrightarrow> isprint d"
proof -
  have "(of_char c :: nat) < 256" by simp
  then have "isprint (xdigit (of_char c div 16))" "isprint (xdigit (of_char c mod 16))"
    by (simp_all add: xdigit_hex less_mult_imp_div_less)
  moreover have "isprint BS" "isprint DQ" "isprint CHR ''n''" "isprint CHR ''r''" "isprint CHR ''t''" "isprint CHR ''a''"
    "isprint CHR ''b''" "isprint CHR ''x''" by (simp_all add: isprint_def)
  ultimately show "d \<in> set (repr_char c) \<Longrightarrow> isprint d" by (auto simp: repr_char_def split: if_splits)
qed

lemma quoted_print: "c \<in> set (sdsjoin (map (sdscatrepr []) args) '' '') \<Longrightarrow> isprint c"
  by (induction args rule: induct_list012) (auto simp: sdscatrepr_def isprint_def dest: repr_no_control [unfolded isprint_def])

lemma strlen_print: "(\<And>c. c \<in> set s \<Longrightarrow> isprint c) \<Longrightarrow> strlen s = length s"
proof -
  assume p: "\<And>c. c \<in> set s \<Longrightarrow> isprint c"
  have "\<not> isprint NUL" by (simp add: isprint_def)
  then have "takeWhile (\<lambda>c. c \<noteq> NUL) s = s" using p by (intro takeWhile_eq_all_conv [THEN iffD2]) blast
  then show ?thesis unfolding strlen_def by (rule arg_cong)
qed

lemma join_split:
  assumes "sep \<noteq> []" "start \<le> j" "j \<le> length s"
  shows "sdsjoin (splitlen_loop s sep start j) sep = drop start s \<and> splitlen_loop s sep start j \<noteq> []"
  using assms
proof (induction s sep start j rule: splitlen_loop.induct)
  case (1 s sep start j)
  show ?case
  proof (cases "int j < int (length s) - (int (length sep) - 1) \<and> take (length sep) (drop j s) = sep")
    case True
    let ?r = "splitlen_loop s sep (j + length sep) (j + length sep)"
    have fits: "j + length sep \<le> length s" using True by simp
    then have r: "sdsjoin ?r sep = drop (j + length sep) s" "?r \<noteq> []"
      using "1.IH"(1) "1.prems"(1) True by (auto simp flip: length_greater_0_conv)
    have "drop start s = take (j - start) (drop start s) @ drop j s"
      using "1.prems"(2) by (metis append_take_drop_id drop_drop le_add_diff_inverse2)
    also have "drop j s = sep @ drop (j + length sep) s" using True by (metis add.commute append_take_drop_id drop_drop)
    finally have "sdsjoin (take (j - start) (drop start s) # ?r) sep = drop start s"
      using r by (cases ?r) auto
    moreover have "splitlen_loop s sep start j = take (j - start) (drop start s) # ?r"
      using True "1.prems"(1) by (subst splitlen_loop.simps) (auto simp flip: length_greater_0_conv)
    ultimately show ?thesis by simp
  next
    case False
    show ?thesis
    proof (cases "int j < int (length s) - (int (length sep) - 1)")
      case True
      then have "j + 1 \<le> length s" using "1.prems"(1) by (cases sep) auto
      moreover have "splitlen_loop s sep start j = splitlen_loop s sep start (j + 1)"
        using False True "1.prems"(1) by (subst splitlen_loop.simps) simp
      ultimately show ?thesis using False True "1.IH"(2) "1.prems" by simp
    next
      case False
      then have "splitlen_loop s sep start j = [drop start s]" by (subst splitlen_loop.simps) simp
      then show ?thesis by simp
    qed
  qed
qed


end
