(* ===== verification/Resp.thy ===== *)
theory Resp
  imports Sds_Args
begin

text \<open>
  How the server takes commands out of the bytes of a connection (\<^verbatim>\<open>readQueryFromClient\<close>,
  \<^verbatim>\<open>processInputBuffer\<close> and what they call in \<^verbatim>\<open>server/src/networking.c\<close>).  The query buffer is a
  dynamic string, here the list of its characters.  What a command does is the argument \<open>exec\<close>: it
  returns the new state and whether the command was executed (\<^verbatim>\<open>REDIS_OK\<close>); it is not executed only
  for \<^verbatim>\<open>quit\<close>, which marks the connection for closing.  \<open>None\<close> is a failed assertion.
\<close>

section \<open>The code\<close>

definition REDIS_INLINE_MAX_SIZE :: nat where [num_consts]: "REDIS_INLINE_MAX_SIZE = 1024 * 64"
definition REDIS_MBULK_BIG_ARG :: nat where [num_consts]: "REDIS_MBULK_BIG_ARG = 1024 * 32"
definition REDIS_IOBUF_LEN :: nat where [num_consts]: "REDIS_IOBUF_LEN = 1024 * 16"

abbreviation CR :: char where "CR \<equiv> CHR 0x0D"
abbreviation LF :: char where "LF \<equiv> CHR 0x0A"

datatype reqtype = REQ_NONE | REDIS_REQ_INLINE | REDIS_REQ_MULTIBULK

record query =
  querybuf :: string
  q_reqtype :: reqtype
  multibulklen :: nat
  bulklen :: int
  q_argv :: "string list"
  close_after_reply :: bool
  q_errors :: string

definition new_query :: query where
  "new_query = \<lparr>querybuf = [], q_reqtype = REQ_NONE, multibulklen = 0, bulklen = -1, q_argv = [],
    close_after_reply = False, q_errors = []\<rparr>"

text \<open>The index of the first \<open>c\<close> before the first nul character.\<close>

definition strchr :: "string \<Rightarrow> char \<Rightarrow> nat option" where
  "strchr s c = (let n = length (takeWhile (\<lambda>x. x \<noteq> c \<and> x \<noteq> NUL) s) in
    if n < length s \<and> s ! n = c then Some n else None)"

definition addReplyError :: "string \<Rightarrow> query \<Rightarrow> query" where
  "addReplyError err q = q\<lparr>q_errors := q_errors q @ ''-ERR '' @ err @ [CR, LF]\<rparr>"

definition addReplyErrorFormat :: "string \<Rightarrow> query \<Rightarrow> query" where
  "addReplyErrorFormat s q = addReplyError (map (\<lambda>c. if c = CR \<or> c = LF then CHR '' '' else c) s) q"

definition resetClient :: "query \<Rightarrow> query" where
  "resetClient q = q\<lparr>q_argv := [], q_reqtype := REQ_NONE, multibulklen := 0, bulklen := -1\<rparr>"

definition setProtocolError :: "nat \<Rightarrow> query \<Rightarrow> query" where
  "setProtocolError pos q = q\<lparr>close_after_reply := True, querybuf := str_range (int pos) (-1) (querybuf q)\<rparr>"

definition processInlineBuffer :: "query \<Rightarrow> query \<times> bool" where
  "processInlineBuffer q = (case strchr (querybuf q) LF of
     None \<Rightarrow> (if length (querybuf q) > REDIS_INLINE_MAX_SIZE
         then setProtocolError 0 (addReplyError ''Protocol error: too big inline request'' q) else q, False)
   | Some newline \<Rightarrow>
       let newline = (if newline \<noteq> 0 \<and> querybuf q ! (newline - 1) = CR then newline - 1 else newline);
           querylen = newline
       in case sdssplitargs (take querylen (querybuf q)) of
         None \<Rightarrow> (setProtocolError 0 (addReplyError ''Protocol error: unbalanced quotes in request'' q), False)
       | Some argv \<Rightarrow> (q\<lparr>querybuf := str_range (int querylen + 2) (-1) (querybuf q),
             q_argv := filter (\<lambda>a. a \<noteq> []) argv\<rparr>, True))"

text \<open>
  The first line of a multi bulk request.  The result is a value to return at once, or the
  position behind the line.
\<close>

definition multibulk_header :: "query \<Rightarrow> ((query \<times> bool) + (nat \<times> query)) option" where
  "multibulk_header q = (
    if q_argv q \<noteq> [] then None
    else case strchr (querybuf q) CR of
      None \<Rightarrow> Some (Inl (if length (querybuf q) > REDIS_INLINE_MAX_SIZE
          then setProtocolError 0 (addReplyError ''Protocol error: too big mbulk count string'' q) else q, False))
    | Some newline \<Rightarrow>
        if int newline > int (length (querybuf q)) - 2 then Some (Inl (q, False))
        else if querybuf q ! 0 \<noteq> CHR ''*'' then None
        else case string2ll (take (newline - 1) (drop 1 (querybuf q))) of
          None \<Rightarrow> Some (Inl (setProtocolError 0 (addReplyError ''Protocol error: invalid multibulk length'' q), False))
        | Some ll \<Rightarrow>
            if sint ll > 1024 * 1024
            then Some (Inl (setProtocolError 0 (addReplyError ''Protocol error: invalid multibulk length'' q), False))
            else if sint ll \<le> 0
            then Some (Inl (q\<lparr>querybuf := str_range (int newline + 2) (-1) (querybuf q)\<rparr>, True))
            else Some (Inr (newline + 2, q\<lparr>multibulklen := nat (sint ll)\<rparr>)))"

datatype bulk_exit = Break | Return

text \<open>The line with the length of the next argument.\<close>

definition bulk_header :: "nat \<Rightarrow> query \<Rightarrow> (bulk_exit \<times> nat \<times> query) + (nat \<times> query)" where
  "bulk_header pos q = (case strchr (drop pos (querybuf q)) CR of
     None \<Rightarrow> Inl (Break, pos, if length (querybuf q) > REDIS_INLINE_MAX_SIZE
         then setProtocolError 0 (addReplyError ''Protocol error: too big bulk count string'' q) else q)
   | Some k \<Rightarrow>
       if int (pos + k) > int (length (querybuf q)) - 2 then Inl (Break, pos, q)
       else if querybuf q ! pos \<noteq> CHR ''$''
       then Inl (Return, pos, setProtocolError pos (addReplyErrorFormat
         (''Protocol error: expected '' @ [CHR 0x27, CHR ''$'', CHR 0x27] @ '', got '' @ [CHR 0x27, querybuf q ! pos, CHR 0x27]) q))
       else case string2ll (take (k - 1) (drop (pos + 1) (querybuf q))) of
         None \<Rightarrow> Inl (Return, pos, setProtocolError pos (addReplyError ''Protocol error: invalid bulk length'' q))
       | Some ll \<Rightarrow>
           if sint ll < 0 \<or> sint ll > 512 * 1024 * 1024
           then Inl (Return, pos, setProtocolError pos (addReplyError ''Protocol error: invalid bulk length'' q))
           else let pos = pos + k + 2 in
             if sint ll \<ge> int REDIS_MBULK_BIG_ARG
             then Inr (0, q\<lparr>querybuf := str_range (int pos) (-1) (querybuf q), bulklen := sint ll\<rparr>)
             else Inr (pos, q\<lparr>bulklen := sint ll\<rparr>))"

text \<open>The argument itself.\<close>

definition bulk_argument :: "nat \<Rightarrow> query \<Rightarrow> (nat \<times> query) option" where
  "bulk_argument pos q = (let n = nat (bulklen q) in
    if length (querybuf q) - pos < n + 2 then None
    else if pos = 0 \<and> bulklen q \<ge> int REDIS_MBULK_BIG_ARG \<and> length (querybuf q) = n + 2
    then Some (0, q\<lparr>q_argv := q_argv q @ [take n (querybuf q)], querybuf := [],
        bulklen := -1, multibulklen := multibulklen q - 1\<rparr>)
    else Some (pos + n + 2, q\<lparr>q_argv := q_argv q @ [take n (drop pos (querybuf q))],
        bulklen := -1, multibulklen := multibulklen q - 1\<rparr>))"

fun bulk_loop :: "nat \<Rightarrow> nat \<Rightarrow> query \<Rightarrow> bulk_exit \<times> nat \<times> query" where
  "bulk_loop 0 pos q = (Break, pos, q)"
| "bulk_loop (Suc n) pos q = (
    case (if bulklen q = -1 then bulk_header pos q else Inr (pos, q)) of
      Inl r \<Rightarrow> r
    | Inr (pos, q) \<Rightarrow> (case bulk_argument pos q of None \<Rightarrow> (Break, pos, q)
        | Some (pos, q) \<Rightarrow> bulk_loop n pos q))"

definition multibulk_arguments :: "nat \<Rightarrow> query \<Rightarrow> (query \<times> bool) option" where
  "multibulk_arguments pos q = (
    if multibulklen q = 0 then None
    else case bulk_loop (multibulklen q) pos q of
      (Return, pos, q) \<Rightarrow> Some (q, False)
    | (Break, pos, q) \<Rightarrow>
        let q = (if pos \<noteq> 0 then q\<lparr>querybuf := str_range (int pos) (-1) (querybuf q)\<rparr> else q)
        in Some (q, multibulklen q = 0))"

definition processMultibulkBuffer :: "query \<Rightarrow> (query \<times> bool) option" where
  "processMultibulkBuffer q = (
    if multibulklen q = 0 then case multibulk_header q of None \<Rightarrow> None
      | Some (Inl r) \<Rightarrow> Some r
      | Some (Inr (pos, q)) \<Rightarrow> multibulk_arguments pos q
    else multibulk_arguments 0 q)"

definition process_request :: "query \<Rightarrow> (query \<times> bool) option" where
  "process_request q = (
    let q = (if q_reqtype q = REQ_NONE
      then q\<lparr>q_reqtype := if querybuf q ! 0 = CHR ''*'' then REDIS_REQ_MULTIBULK else REDIS_REQ_INLINE\<rparr> else q)
    in if q_reqtype q = REDIS_REQ_INLINE then Some (processInlineBuffer q) else processMultibulkBuffer q)"

partial_function (option) processInputBuffer :: "(string list \<Rightarrow> 's \<Rightarrow> ('s \<times> bool) option) \<Rightarrow> query \<Rightarrow> 's \<Rightarrow> (query \<times> 's) option" where
  "processInputBuffer exec q st = (
    if querybuf q = [] \<or> close_after_reply q then Some (q, st)
    else do {
      (q, ok) \<leftarrow> process_request q;
      if \<not> ok then Some (q, st)
      else if q_argv q = [] then processInputBuffer exec (resetClient q) st
      else do {
        (st, ok) \<leftarrow> exec (q_argv q) st;
        if ok then processInputBuffer exec (resetClient q) st
        else processInputBuffer exec (q\<lparr>close_after_reply := True\<rparr>) st
      }
    })"

text \<open>How many bytes the server asks for, and what it does with those that come.\<close>

definition readlen :: "query \<Rightarrow> nat" where
  "readlen q = (
    if q_reqtype q = REDIS_REQ_MULTIBULK \<and> multibulklen q \<noteq> 0 \<and> bulklen q \<noteq> -1 \<and> bulklen q \<ge> int REDIS_MBULK_BIG_ARG
    then min REDIS_IOBUF_LEN (nat (bulklen q + 2) - length (querybuf q)) else REDIS_IOBUF_LEN)"

text \<open>
  The connection is given up when the peer closed it or the buffer grows over the limit; the first
  component of the result is then \<open>None\<close>.
\<close>

definition readQueryFromClient :: "(string list \<Rightarrow> 's \<Rightarrow> ('s \<times> bool) option) \<Rightarrow> nat \<Rightarrow> string \<Rightarrow> query \<Rightarrow> 's
    \<Rightarrow> (query option \<times> 's) option" where
  "readQueryFromClient exec client_max_querybuf_len bytes q st = (
    if bytes = [] then Some (None, st)
    else if length (querybuf q @ bytes) > client_max_querybuf_len then Some (None, st)
    else map_option (\<lambda>(q, st). (Some q, st)) (processInputBuffer exec (q\<lparr>querybuf := querybuf q @ bytes\<rparr>) st))"

end
