(* ===== verification/Resp_Stream.thy ===== *)
theory Resp_Stream
  imports Resp
begin

text \<open>
  What a client writes arrives: the commands of a stream of requests are executed one after the
  other, each with exactly its arguments, however the stream is cut into reads.
\<close>

section \<open>Requests\<close>

definition bulk :: "string \<Rightarrow> string" where
  "bulk a = CHR ''$'' # show_nat (length a) @ CR # LF # a @ [CR, LF]"

definition request :: "string list \<Rightarrow> string" where
  "request args = CHR ''*'' # show_nat (length args) @ CR # LF # concat (map bulk args)"

definition valid_args :: "string list \<Rightarrow> bool" where
  "valid_args args \<longleftrightarrow> args \<noteq> [] \<and> length args \<le> 1024 * 1024 \<and> (\<forall>a \<in> set args. length a \<le> 512 * 1024 * 1024)"

section \<open>Lines\<close>

lemma str_range_drop: "str_range (int p) (-1) s = drop p s"
proof (cases "p \<le> length s")
  case True
  then show ?thesis by (cases "s = []") (auto simp: str_range_def Let_def min_def nat_diff_distrib)
qed (simp add: str_range_def Let_def)

lemma strchr_line:
  assumes "CR \<notin> set w" "NUL \<notin> set w"
  shows "strchr (w @ CR # s) CR = Some (length w)"
proof -
  have "takeWhile (\<lambda>x. x \<noteq> CR \<and> x \<noteq> NUL) (w @ CR # s) = w"
    using assms by (subst takeWhile_append2) auto
  then show ?thesis by (simp add: strchr_def)
qed

lemma strchr_none: "CR \<notin> set w \<Longrightarrow> strchr w CR = None"
  by (auto simp: strchr_def Let_def) (metis nth_mem)

text \<open>A buffer with the beginning of a line either holds the whole line or lacks its end.\<close>

lemma line_cases:
  assumes b: "b @ inp = w @ CR # LF # rest" and w: "CR \<notin> set w" "NUL \<notin> set w"
  obtains (part) "length b < length w + 2" "strchr b CR = None \<or> (\<exists>k. strchr b CR = Some k \<and> int k > int (length b) - 2)"
  | (whole) b' where "b = w @ CR # LF # b'" "b' @ inp = rest" "strchr b CR = Some (length w)"
proof (cases "length b < length w + 2")
  case True
  have "b = take (length b) (b @ inp)" by simp
  also have "\<dots> = take (length b) ((w @ [CR, LF]) @ rest)" using b by simp
  also have "\<dots> = take (length b) (w @ [CR, LF])" using True unfolding take_append by simp
  finally have t: "b = take (length b) (w @ [CR, LF])" .
  show ?thesis
  proof (cases "length b \<le> length w")
    case True
    then have "b = take (length b) w" using t by simp
    then have "CR \<notin> set b" using w(1) by (metis in_set_takeD)
    then show ?thesis using part \<open>length b < length w + 2\<close> strchr_none by blast
  next
    case False
    then have "b = w @ [CR]" using t True by (cases "length b - length w") auto
    then show ?thesis using part \<open>length b < length w + 2\<close> strchr_line [OF w, of "[]"] by simp
  qed
next
  case False
  then have "take (length w + 2) (b @ inp) = take (length w + 2) b" by simp
  then have "take (length w + 2) b = w @ [CR, LF]" unfolding b by simp
  then obtain b' where b': "b = w @ CR # LF # b'" by (metis append.assoc append_Cons append_Nil append_take_drop_id)
  then show ?thesis using whole [OF b'] b strchr_line [OF w] by simp
qed

lemma string2ll_show_nat:
  assumes "n < 2 ^ 63"
  shows "string2ll (show_nat n) = Some (of_nat n)" "sint (of_nat n :: 64 word) = int n"
proof -
  have u: "unat (of_nat n :: 64 word) = n" using assms by (simp add: unat_of_nat)
  then have "\<not> sint (of_nat n :: 64 word) < 0" using assms by (simp add: sint_unat(1))
  then show "string2ll (show_nat n) = Some (of_nat n)" "sint (of_nat n :: 64 word) = int n"
    using u sint_unat(3) [of "of_nat n"] by (simp_all add: string2ll_decimal show_int_def)
qed

lemma count_line:
  assumes "c = CHR ''*'' \<or> c = CHR ''$''"
  shows "CR \<notin> set (c # show_nat n)" "NUL \<notin> set (c # show_nat n)"
  using assms show_nat_digits [of n] by (auto simp: list_all_iff is_digit_def)

section \<open>One argument\<close>

text \<open>
  The buffer is never so long that the search for a line gives up: it is short, or it holds nothing
  but a long argument.
\<close>

definition short_buffer :: "nat \<Rightarrow> query \<Rightarrow> bool" where
  "short_buffer pos q \<longleftrightarrow> length (querybuf q) \<le> REDIS_INLINE_MAX_SIZE
    \<or> pos = 0 \<and> bulklen q \<ge> int REDIS_MBULK_BIG_ARG \<and> int (length (querybuf q)) \<le> bulklen q + 2"

lemma bulk_header_step:
  assumes pos: "pos \<le> length (querybuf q)" and tx: "drop pos (querybuf q) @ inp = bulk a @ rest"
    and a: "length a \<le> 512 * 1024 * 1024" and short: "length (querybuf q) \<le> REDIS_INLINE_MAX_SIZE"
  obtains (part) "bulk_header pos q = Inl (Break, pos, q)" "length (drop pos (querybuf q)) \<le> length (show_nat (length a)) + 2"
  | (whole) pos' qb where "bulk_header pos q = Inr (pos', q\<lparr>querybuf := qb, bulklen := int (length a)\<rparr>)"
      "drop pos' qb @ inp = a @ CR # LF # rest" "pos' \<le> length qb" "length qb \<le> REDIS_INLINE_MAX_SIZE"
proof -
  let ?b = "drop pos (querybuf q)" and ?w = "CHR ''$'' # show_nat (length a)"
  have b: "?b @ inp = ?w @ CR # LF # a @ CR # LF # rest" using tx by (simp add: bulk_def)
  have l: "length ?b = length (querybuf q) - pos" by simp
  have nw: "CR \<notin> set ?w" "NUL \<notin> set ?w" by (rule count_line; simp)+
  show ?thesis using b nw
  proof (cases rule: line_cases)
    case part
    from part(2) have "bulk_header pos q = Inl (Break, pos, q)"
    proof (elim disjE exE conjE)
      fix k assume "strchr ?b CR = Some k" "int k > int (length ?b) - 2"
      then show ?thesis using l pos by (simp add: bulk_header_def)
    qed (use short in \<open>simp add: bulk_header_def\<close>)
    then show ?thesis using that(1) part by simp
  next
    case (whole b')
    have "pos < length (querybuf q)" using whole(1) by (metis append_Cons drop_all list.distinct(1) not_le)
    then have q0: "querybuf q ! pos = CHR ''$''" using whole(1) by (metis append_Cons hd_drop_conv_nth list.sel(1))
    have tl: "drop (pos + 1) (querybuf q) = tl ?b" by (simp add: drop_Suc tl_drop)
    have n: "string2ll (take (length ?w - 1) (drop (pos + 1) (querybuf q))) = Some (of_nat (length a))"
      unfolding tl whole(1) using a string2ll_show_nat(1) [of "length a"] by simp
    have sn: "sint (of_nat (length a) :: 64 word) = int (length a)" using a string2ll_show_nat(2) [of "length a"] by simp
    have fits: "pos + length ?w + 2 \<le> length (querybuf q)" using l pos whole(1) by simp
    have "drop (length ?w + 2) ?b = b'" unfolding whole(1) by simp
    then have dr: "drop (pos + length ?w + 2) (querybuf q) = b'" by (simp add: add.commute add.left_commute)
    have "int (pos + length ?w + 2) = 3 + int (pos + length (show_nat (length a)))" by simp
    then have sr: "str_range (3 + int (pos + length (show_nat (length a)))) (-1) (querybuf q) = b'"
      using dr by (metis str_range_drop)
    have h: "bulk_header pos q = (if length a \<ge> REDIS_MBULK_BIG_ARG
        then Inr (0, q\<lparr>querybuf := b', bulklen := int (length a)\<rparr>)
        else Inr (pos + length ?w + 2, q\<lparr>bulklen := int (length a)\<rparr>))"
      using whole(3) q0 n sn fits a sr by (simp add: bulk_header_def Let_def flip: of_nat_add)
    show ?thesis
    proof (cases "length a \<ge> REDIS_MBULK_BIG_ARG")
      case True
      have "length b' \<le> length (querybuf q)" unfolding dr [symmetric] by simp
      then show ?thesis using that(2) [of 0 b'] True h whole(2) short by simp
    next
      case False
      then show ?thesis using that(2) [of "pos + length ?w + 2" "querybuf q"] h dr whole(2) short fits by simp
    qed
  qed
qed

lemma bulk_argument_step:
  assumes bl: "bulklen q = int (length a)" and pos: "pos \<le> length (querybuf q)" and short: "short_buffer pos q"
    and tx: "drop pos (querybuf q) @ inp = a @ CR # LF # rest"
  obtains (part) "bulk_argument pos q = None" "length (drop pos (querybuf q)) < length a + 2"
  | (whole) pos' qb where "bulk_argument pos q = Some (pos', q\<lparr>q_argv := q_argv q @ [a], querybuf := qb, bulklen := -1,
        multibulklen := multibulklen q - 1\<rparr>)" "drop pos' qb @ inp = rest" "pos' \<le> length qb" "length qb \<le> REDIS_INLINE_MAX_SIZE"
proof (cases "length (querybuf q) - pos < length a + 2")
  case True
  then show ?thesis using that(1) bl by (simp add: bulk_argument_def)
next
  case False
  then have "take (length a + 2) (drop pos (querybuf q)) = take (length a + 2) (drop pos (querybuf q) @ inp)" by simp
  also have "\<dots> = a @ [CR, LF]" unfolding tx by simp
  finally have t: "take (length a + 2) (drop pos (querybuf q)) = a @ [CR, LF]" .
  then have ta: "take (length a) (drop pos (querybuf q)) = a" by (metis append_eq_conv_conj le_add1 min.absorb1 take_take)
  have "drop pos (querybuf q) = (a @ [CR, LF]) @ drop (length a + 2) (drop pos (querybuf q))" using t by (metis append_take_drop_id)
  then have r: "drop (pos + length a + 2) (querybuf q) @ inp = rest"
    using tx by (simp add: add.commute add.left_commute)
  show ?thesis
  proof (cases "pos = 0 \<and> bulklen q \<ge> int REDIS_MBULK_BIG_ARG \<and> length (querybuf q) = length a + 2")
    case True
    then have "inp = rest" using r by simp
    moreover have "bulk_argument pos q = Some (0, q\<lparr>q_argv := q_argv q @ [a], querybuf := [], bulklen := -1, multibulklen := multibulklen q - 1\<rparr>)"
      using True bl ta by (simp add: bulk_argument_def)
    ultimately show ?thesis using that(2) by simp
  next
    case other: False
    have "bulk_argument pos q = Some (pos + length a + 2, q\<lparr>q_argv := q_argv q @ [a], querybuf := querybuf q, bulklen := -1,
        multibulklen := multibulklen q - 1\<rparr>)"
      using other False bl ta by (auto simp: bulk_argument_def)
    moreover have "length (querybuf q) \<le> REDIS_INLINE_MAX_SIZE" using other False short bl by (auto simp: short_buffer_def)
    moreover have "pos + length a + 2 \<le> length (querybuf q)" using False by simp
    ultimately show ?thesis using that(2) r by blast
  qed
qed

section \<open>The arguments of a request\<close>

text \<open>What is still to come in a request, and when the server has to wait for it.\<close>

definition rest_text :: "int \<Rightarrow> string list \<Rightarrow> string" where
  "rest_text bl left = (if bl = -1 then concat (map bulk left) else hd left @ CR # LF # concat (map bulk (tl left)))"

definition waits :: "int \<Rightarrow> string list \<Rightarrow> string \<Rightarrow> bool" where
  "waits bl left b \<longleftrightarrow> left \<noteq> [] \<and> (bl = -1 \<and> length b \<le> length (show_nat (length (hd left))) + 2
    \<or> bl = int (length (hd left)) \<and> length b < length (hd left) + 2)"

text \<open>
  The loop over the arguments reads \<open>l1\<close>, the first of those that are left, and stops because it has all
  of them or because the text of the next one is not complete.
\<close>

definition reads_arguments :: "query \<Rightarrow> nat \<Rightarrow> string list \<Rightarrow> string \<Rightarrow> string \<Rightarrow> bool" where
  "reads_arguments q pos left inp tail \<longleftrightarrow> (\<exists>pos' qb bl l1 l2.
      bulk_loop (length left) pos q = (Break, pos', q\<lparr>querybuf := qb, bulklen := bl,
        q_argv := q_argv q @ l1, multibulklen := length l2\<rparr>) \<and> left = l1 @ l2 \<and> pos' \<le> length qb
      \<and> drop pos' qb @ inp = rest_text bl l2 @ tail \<and> (if l2 = [] then bl = -1 \<and> length qb \<le> REDIS_INLINE_MAX_SIZE else waits bl l2 (drop pos' qb)))"

lemma reads_waiting:
  assumes "bulk_loop (length left) pos q = (Break, pos', q\<lparr>querybuf := qb, bulklen := bl\<rparr>)" "multibulklen q = length left" "left \<noteq> []"
    and "pos' \<le> length qb" "drop pos' qb @ inp = rest_text bl left @ tail" "waits bl left (drop pos' qb)"
  shows "reads_arguments q pos left inp tail"
proof -
  have "q\<lparr>querybuf := qb, bulklen := bl\<rparr> = q\<lparr>querybuf := qb, bulklen := bl, q_argv := q_argv q @ [], multibulklen := length left\<rparr>"
    using assms(2) by (cases q) simp
  then show ?thesis using assms unfolding reads_arguments_def by (metis append_Nil)
qed

lemma reads_argument:
  assumes IH: "\<And>pos q. bulklen q = -1 \<Longrightarrow> multibulklen q = length left \<Longrightarrow> pos \<le> length (querybuf q)
      \<Longrightarrow> length (querybuf q) \<le> REDIS_INLINE_MAX_SIZE \<Longrightarrow> drop pos (querybuf q) @ inp = concat (map bulk left) @ tail
      \<Longrightarrow> reads_arguments q pos left inp tail"
    and q: "multibulklen q = Suc (length left)" "r = q\<lparr>querybuf := qb, bulklen := int (length a)\<rparr>"
    and pos': "pos' \<le> length qb" "short_buffer pos' r" "drop pos' qb @ inp = a @ CR # LF # concat (map bulk left) @ tail"
    and loop: "bulk_loop (length (a # left)) pos q = (case bulk_argument pos' r of None \<Rightarrow> (Break, pos', r)
        | Some (pos, q) \<Rightarrow> bulk_loop (length left) pos q)"
  shows "reads_arguments q pos (a # left) inp tail"
proof -
  have rq: "bulklen r = int (length a)" "querybuf r = qb" "q_argv r = q_argv q" "multibulklen r = Suc (length left)"
    using q by simp_all
  have r: "pos' \<le> length (querybuf r)" "drop pos' (querybuf r) @ inp = a @ CR # LF # concat (map bulk left) @ tail"
    using pos'(1,3) rq(2) by simp_all
  from rq(1) r(1) pos'(2) r(2) show ?thesis
  proof (cases rule: bulk_argument_step)
    case part
    then have "waits (int (length a)) (a # left) (drop pos' qb)" using rq(2) by (simp add: waits_def)
    then show ?thesis using part loop q pos' by (intro reads_waiting [where pos' = pos' and qb = qb and bl = "int (length a)"]) (simp_all add: rest_text_def)
  next
    case (whole pos2 qb2)
    let ?q = "r\<lparr>q_argv := q_argv r @ [a], querybuf := qb2, bulklen := -1, multibulklen := multibulklen r - 1\<rparr>"
    have "reads_arguments ?q pos2 left inp tail" using whole rq by (intro IH) simp_all
    then obtain pos3 qb3 bl l1 l2 where x: "bulk_loop (length left) pos2 ?q = (Break, pos3, ?q\<lparr>querybuf := qb3, bulklen := bl,
        q_argv := q_argv ?q @ l1, multibulklen := length l2\<rparr>)" "left = l1 @ l2" "pos3 \<le> length qb3"
        "drop pos3 qb3 @ inp = rest_text bl l2 @ tail" "if l2 = [] then bl = -1 \<and> length qb3 \<le> REDIS_INLINE_MAX_SIZE else waits bl l2 (drop pos3 qb3)"
      unfolding reads_arguments_def by blast
    have "bulk_loop (length (a # left)) pos q = bulk_loop (length left) pos2 ?q" using loop whole(1) by simp
    also have "\<dots> = (Break, pos3, q\<lparr>querybuf := qb3, bulklen := bl, q_argv := q_argv q @ (a # l1), multibulklen := length l2\<rparr>)"
      unfolding x(1) using q(2) by simp
    finally show ?thesis using x(2-5) unfolding reads_arguments_def by (metis append_Cons)
  qed
qed

lemma bulk_loop_step:
  assumes "bulklen q = -1 \<or> bulklen q = int (length (hd left))" "multibulklen q = length left"
    and "\<forall>a \<in> set left. length a \<le> 512 * 1024 * 1024" "pos \<le> length (querybuf q)"
    and "short_buffer pos q" "bulklen q = -1 \<longrightarrow> length (querybuf q) \<le> REDIS_INLINE_MAX_SIZE"
    and "drop pos (querybuf q) @ inp = rest_text (bulklen q) left @ tail" "left = [] \<Longrightarrow> bulklen q = -1"
  shows "reads_arguments q pos left inp tail"
  using assms
proof (induction left arbitrary: pos q)
  case Nil
  then show ?case unfolding reads_arguments_def
    by (intro exI [of _ pos] exI [of _ "querybuf q"] exI [of _ "-1"] exI [of _ "[]"]) simp
next
  case (Cons a left)
  have IH: "reads_arguments q pos left inp tail" if "bulklen q = -1" "multibulklen q = length left" "pos \<le> length (querybuf q)"
      "length (querybuf q) \<le> REDIS_INLINE_MAX_SIZE" "drop pos (querybuf q) @ inp = concat (map bulk left) @ tail" for pos q
    using that Cons.prems(3) by (intro Cons.IH) (auto simp: short_buffer_def rest_text_def)
  have loop: "bulk_loop (length (a # left)) pos q = (case (if bulklen q = -1 then bulk_header pos q else Inr (pos, q)) of
      Inl r \<Rightarrow> r | Inr (pos, q) \<Rightarrow> (case bulk_argument pos q of None \<Rightarrow> (Break, pos, q) | Some (pos, q) \<Rightarrow> bulk_loop (length left) pos q))"
    by simp
  have m: "multibulklen q = Suc (length left)" using Cons.prems(2) by simp
  show ?case
  proof (cases "bulklen q = -1")
    case True
    have "drop pos (querybuf q) @ inp = bulk a @ concat (map bulk left) @ tail" "length a \<le> 512 * 1024 * 1024"
        "length (querybuf q) \<le> REDIS_INLINE_MAX_SIZE"
      using Cons.prems(3,6,7) True by (simp_all add: rest_text_def)
    with Cons.prems(4) show ?thesis
    proof (cases rule: bulk_header_step)
      case part
      have "q = q\<lparr>querybuf := querybuf q, bulklen := -1\<rparr>" using True by (cases q) simp
      then have "bulk_loop (length (a # left)) pos q = (Break, pos, q\<lparr>querybuf := querybuf q, bulklen := -1\<rparr>)"
        using loop True part(1) by simp
      then show ?thesis using part(2) Cons.prems(2,4,7) True 
        by (intro reads_waiting [where pos' = pos and qb = "querybuf q" and bl = "-1"]) (simp_all add: waits_def)
    next
      case (whole pos' qb)
      show ?thesis by (rule reads_argument [OF IH m refl, of pos' qb]) (use whole loop True in \<open>simp_all add: short_buffer_def\<close>)
    qed
  next
    case False
    then have bl: "bulklen q = int (length a)" using Cons.prems(1) by simp
    then have eq: "q = q\<lparr>querybuf := querybuf q, bulklen := int (length a)\<rparr>" by (cases q) simp
    show ?thesis
      by (rule reads_argument [where pos' = pos, OF IH m eq]) (use Cons.prems(4,5,7) loop False bl in \<open>simp_all add: rest_text_def\<close>)
  qed
qed

lemma multibulk_arguments_step:
  assumes "bulklen q = -1 \<or> bulklen q = int (length (hd left))" "multibulklen q = length left" "left \<noteq> []"
    and "\<forall>a \<in> set left. length a \<le> 512 * 1024 * 1024" "pos \<le> length (querybuf q)" "short_buffer pos q"
    and "drop pos (querybuf q) @ inp = rest_text (bulklen q) left @ tail"
  shows "\<exists>qb bl l1 l2. multibulk_arguments pos q = Some (q\<lparr>querybuf := qb, bulklen := bl,
      q_argv := q_argv q @ l1, multibulklen := length l2\<rparr>, l2 = []) \<and> left = l1 @ l2 \<and> qb @ inp = rest_text bl l2 @ tail
      \<and> (if l2 = [] then bl = -1 \<and> length qb \<le> REDIS_INLINE_MAX_SIZE else waits bl l2 qb)"
proof -
  have s6: "bulklen q = -1 \<longrightarrow> length (querybuf q) \<le> REDIS_INLINE_MAX_SIZE" using assms(6) by (auto simp: short_buffer_def)
  obtain pos' qb bl l1 l2 where x: "bulk_loop (length left) pos q = (Break, pos', q\<lparr>querybuf := qb, bulklen := bl,
      q_argv := q_argv q @ l1, multibulklen := length l2\<rparr>)" "left = l1 @ l2" "pos' \<le> length qb"
      "drop pos' qb @ inp = rest_text bl l2 @ tail"
      "if l2 = [] then bl = -1 \<and> length qb \<le> REDIS_INLINE_MAX_SIZE else waits bl l2 (drop pos' qb)"
    using bulk_loop_step [OF assms(1,2,4,5,6) s6 assms(7)] assms(3) unfolding reads_arguments_def by blast
  have "multibulk_arguments pos q = Some (q\<lparr>querybuf := drop pos' qb, bulklen := bl,
      q_argv := q_argv q @ l1, multibulklen := length l2\<rparr>, l2 = [])"
    using x(1) assms(2,3) by (auto simp: multibulk_arguments_def str_range_drop Let_def)
  moreover have "if l2 = [] then bl = -1 \<and> length (drop pos' qb) \<le> REDIS_INLINE_MAX_SIZE else waits bl l2 (drop pos' qb)"
    using x(5) by (auto split: if_splits)
  ultimately show ?thesis using x(2,4) by blast
qed

section \<open>Requests in the buffer\<close>

text \<open>
  The connection expects the rest of the current request, of which the arguments \<open>left\<close> are
  missing, and then the requests \<open>cmds\<close>; \<open>inp\<close> is still in the network.
\<close>

definition expects :: "query \<Rightarrow> string list \<Rightarrow> string list list \<Rightarrow> string \<Rightarrow> bool" where
  "expects q left cmds inp \<longleftrightarrow> \<not> close_after_reply q \<and> q_errors q = [] \<and> list_all valid_args cmds
    \<and> multibulklen q = length left \<and> querybuf q @ inp = rest_text (bulklen q) left @ concat (map request cmds)
    \<and> (if left = [] then bulklen q = -1 \<and> q_argv q = [] \<and> q_reqtype q \<noteq> REDIS_REQ_INLINE
       else q_reqtype q = REDIS_REQ_MULTIBULK \<and> (bulklen q = -1 \<or> bulklen q = int (length (hd left)))
         \<and> (\<forall>a \<in> set left. length a \<le> 512 * 1024 * 1024))"

definition pending :: "query \<Rightarrow> string list \<Rightarrow> string list list \<Rightarrow> string list list" where
  "pending q left cmds = (if left = [] then cmds else (q_argv q @ left) # cmds)"

text \<open>When the server waits, the buffer holds less than a line or less than the argument.\<close>

definition small :: "query \<Rightarrow> bool" where
  "small q \<longleftrightarrow> (if bulklen q = -1 then length (querybuf q) \<le> 30 else int (length (querybuf q)) < bulklen q + 2)"

lemma waits_small:
  assumes "waits bl left qb" "\<forall>a \<in> set left. length a \<le> 512 * 1024 * 1024" "querybuf q = qb" "bulklen q = bl"
  shows "small q"
proof -
  have "length (hd left) < 10 ^ 9" using assms(1,2) by (cases left) (auto simp: waits_def)
  then have "length (show_nat (length (hd left))) \<le> 9" by (intro show_nat_length) simp_all
  then show ?thesis using assms by (auto simp: waits_def small_def)
qed

lemma arguments_pending:
  assumes q: "multibulklen q = length left" "left \<noteq> []" "bulklen q = -1 \<or> bulklen q = int (length (hd left))"
    "q_reqtype q = REDIS_REQ_MULTIBULK" "\<not> close_after_reply q" "q_errors q = []"
    and l: "\<forall>a \<in> set left. length a \<le> 512 * 1024 * 1024" "list_all valid_args cmds"
    and b: "pos \<le> length (querybuf q)" "short_buffer pos q"
      "drop pos (querybuf q) @ inp = rest_text (bulklen q) left @ concat (map request cmds)"
  obtains (wait) q' left' where "multibulk_arguments pos q = Some (q', False)" "expects q' left' cmds inp" "small q'"
      "inp \<noteq> []" "left' \<noteq> []" "q_argv q' @ left' = q_argv q @ left"
  | (complete) q' where "multibulk_arguments pos q = Some (q', True)" "expects (resetClient q') [] cmds inp"
      "q_argv q' = q_argv q @ left" "length (querybuf q') \<le> REDIS_INLINE_MAX_SIZE" "\<not> close_after_reply q'"
proof -
  obtain qb bl l1 l2 where x: "multibulk_arguments pos q = Some (q\<lparr>querybuf := qb, bulklen := bl,
      q_argv := q_argv q @ l1, multibulklen := length l2\<rparr>, l2 = [])" "left = l1 @ l2"
      "qb @ inp = rest_text bl l2 @ concat (map request cmds)"
      "if l2 = [] then bl = -1 \<and> length qb \<le> REDIS_INLINE_MAX_SIZE else waits bl l2 qb"
    using multibulk_arguments_step [OF q(3,1,2) l(1) b] by blast
  let ?q = "q\<lparr>querybuf := qb, bulklen := bl, q_argv := q_argv q @ l1, multibulklen := length l2\<rparr>"
  show ?thesis
  proof (cases "l2 = []")
    case True
    then have "expects (resetClient ?q) [] cmds inp" using x q l by (simp add: expects_def resetClient_def rest_text_def)
    then show ?thesis using that(2) [of ?q] x True q by simp
  next
    case False
    then have "expects ?q l2 cmds inp" using x q l by (auto simp: expects_def waits_def)
    moreover have "small ?q" using False x l by (intro waits_small [of bl l2 qb]) auto
    moreover have "inp \<noteq> []"
    proof
      assume "inp = []"
      then have "length (rest_text bl l2) \<le> length qb" using x(3) by simp
      then show False using False x(4) by (cases l2) (auto simp: waits_def rest_text_def bulk_def)
    qed
    ultimately show ?thesis using that(1) [of ?q l2] x False by simp
  qed
qed

text \<open>The first line of a request: the reader takes the connection as one of multi bulk requests.\<close>

lemma process_first_line:
  assumes "expects q [] cmds inp" "querybuf q ! 0 = CHR ''*''"
  shows "process_request q = (case multibulk_header (q\<lparr>q_reqtype := REDIS_REQ_MULTIBULK\<rparr>) of None \<Rightarrow> None | Some (Inl r) \<Rightarrow> Some r
      | Some (Inr (pos, q)) \<Rightarrow> multibulk_arguments pos q)"
proof (cases "q_reqtype q = REDIS_REQ_MULTIBULK")
  case True
  then have eq: "q\<lparr>q_reqtype := REDIS_REQ_MULTIBULK\<rparr> = q" by (cases q) simp
  show ?thesis unfolding eq using True assms by (simp add: expects_def process_request_def processMultibulkBuffer_def Let_def)
next
  case False
  then have "q_reqtype q = REQ_NONE" using assms by (cases "q_reqtype q") (auto simp: expects_def)
  then show ?thesis using assms by (simp add: expects_def process_request_def processMultibulkBuffer_def Let_def)
qed

lemma new_request_step:
  assumes e: "expects q [] cmds inp" and ne: "querybuf q \<noteq> []" and short: "short_buffer 0 q"
  obtains (wait) q' left' cmds' where "process_request q = Some (q', False)" "expects q' left' cmds' inp" "small q'" "inp \<noteq> []"
      "pending q' left' cmds' = cmds"
  | (complete) q' cmds' where "process_request q = Some (q', True)" "cmds = q_argv q' # cmds'"
      "expects (resetClient q') [] cmds' inp" "q_argv q' \<noteq> []" "length (querybuf q') \<le> REDIS_INLINE_MAX_SIZE"
proof -
  let ?q = "q\<lparr>q_reqtype := REDIS_REQ_MULTIBULK\<rparr>"
  have b: "querybuf q @ inp = concat (map request cmds)" using e by (simp add: expects_def rest_text_def)
  then obtain args cmds' where c: "cmds = args # cmds'" using ne by (cases cmds) auto
  have va: "valid_args args" "list_all valid_args cmds'" using e c by (auto simp: expects_def)
  let ?w = "CHR ''*'' # show_nat (length args)" and ?t = "concat (map bulk args) @ concat (map request cmds')"
  have bw: "querybuf q @ inp = ?w @ CR # LF # ?t" using b c by (simp add: request_def)
  then have q0: "querybuf q ! 0 = CHR ''*''" using ne by (cases "querybuf q") auto
  note pr = process_first_line [OF e q0]
  have nw: "CR \<notin> set ?w" "NUL \<notin> set ?w" by (rule count_line; simp)+
  have sh: "length (querybuf q) \<le> REDIS_INLINE_MAX_SIZE" using short e by (auto simp: short_buffer_def expects_def)
  have av: "q_argv q = []" using e by (simp add: expects_def)
  from bw nw show ?thesis
  proof (cases rule: line_cases)
    case part
    from part(2) have "multibulk_header ?q = Some (Inl (?q, False))"
      by (elim disjE exE conjE) (use sh av in \<open>simp_all add: multibulk_header_def\<close>)
    moreover have "length (show_nat (length args)) \<le> 9" using va(1) by (intro show_nat_length) (auto simp: valid_args_def)
    moreover have "inp \<noteq> []" using part(1) bw by auto
    ultimately show ?thesis using that(1) [of ?q "[]" cmds] part(1) pr e
      by (simp add: expects_def pending_def small_def)
  next
    case (whole b')
    let ?q1 = "?q\<lparr>multibulklen := length args\<rparr>"
    have n: "take (length ?w - 1) (drop 1 (querybuf q)) = show_nat (length args)" unfolding whole(1) by simp
    have l: "length ?w + 2 \<le> length (querybuf q)" "length args \<le> 1024 * 1024" "0 < length args" using whole(1) va(1) by (auto simp: valid_args_def)
    have h: "multibulk_header ?q = Some (Inr (length ?w + 2, ?q1))"
      using whole(3) q0 n l av string2ll_show_nat [of "length args"] by (simp add: multibulk_header_def)
    have d: "drop (length ?w + 2) (querybuf q) = b'" unfolding whole(1) by simp
    show ?thesis
    proof (rule arguments_pending [of ?q1 args cmds' "length ?w + 2" inp], goal_cases)
      case (12 q' left')
      then show ?case using that(1) [of q' left' cmds'] pr c h av by (simp add: pending_def)
    next
      case (13 q')
      then show ?case using that(2) [of q' cmds'] pr c h av l(3) by simp
    next
      case 11
      show ?case using d whole(2) e by (simp add: expects_def rest_text_def)
    qed (use e va l sh in \<open>auto simp: expects_def valid_args_def short_buffer_def\<close>)
  qed
qed

lemma process_request_step:
  assumes e: "expects q left cmds inp" and ne: "querybuf q \<noteq> []" and short: "short_buffer 0 q"
  obtains (wait) q' left' cmds' where "process_request q = Some (q', False)" "expects q' left' cmds' inp" "small q'" "inp \<noteq> []"
      "pending q' left' cmds' = pending q left cmds"
  | (complete) q' cmds' where "process_request q = Some (q', True)" "pending q left cmds = q_argv q' # cmds'"
      "expects (resetClient q') [] cmds' inp" "q_argv q' \<noteq> []" "length (querybuf q') \<le> REDIS_INLINE_MAX_SIZE"
proof (cases "left = []")
  case False
  have pr: "process_request q = multibulk_arguments 0 q"
    using e False by (simp add: expects_def process_request_def processMultibulkBuffer_def Let_def)
  have p: "pending q left cmds = (q_argv q @ left) # cmds" using False by (simp add: pending_def)
  show ?thesis
  proof (rule arguments_pending [of q left cmds 0 inp], goal_cases)
    case (12 q' left')
    then show ?case using that(1) [of q' left' cmds] pr p by (simp add: pending_def)
  next
    case (13 q')
    then show ?case using that(2) [of q' cmds] pr p False by simp
  qed (use e False short in \<open>simp_all add: expects_def\<close>)
next
  case True
  then have "expects q [] cmds inp" "pending q left cmds = cmds" using e by (simp_all add: pending_def)
  then show ?thesis using new_request_step [of q cmds inp] ne short that by metis
qed

section \<open>The whole stream\<close>

fun run_commands :: "(string list \<Rightarrow> 's \<Rightarrow> ('s \<times> bool) option) \<Rightarrow> string list list \<Rightarrow> 's \<Rightarrow> 's option" where
  "run_commands exec [] st = Some st"
| "run_commands exec (c # cs) st = (case exec c st of Some (st, True) \<Rightarrow> run_commands exec cs st | _ \<Rightarrow> None)"

text \<open>
  Whatever part of the stream is in the buffer, the commands that are complete are executed, and
  the rest is kept.
\<close>

lemma processInputBuffer_step:
  assumes "expects q left cmds inp" "short_buffer 0 q" "run_commands exec (pending q left cmds) st = Some st'"
  shows "\<exists>q2 left2 cmds2 st2. processInputBuffer exec q st = Some (q2, st2) \<and> expects q2 left2 cmds2 inp
    \<and> run_commands exec (pending q2 left2 cmds2) st2 = Some st' \<and> (querybuf q2 = [] \<or> small q2 \<and> inp \<noteq> [])"
  using assms
proof (induction "length (pending q left cmds)" arbitrary: q left cmds st rule: less_induct)
  case less
  note simps = processInputBuffer.simps [of exec q st]
  have cl: "\<not> close_after_reply q" using less.prems(1) by (simp add: expects_def)
  show ?case
  proof (cases "querybuf q = []")
    case True
    then have "processInputBuffer exec q st = Some (q, st)" by (subst simps) simp
    then show ?thesis using True less.prems by blast
  next
    case False
    show ?thesis using less.prems(1) False less.prems(2)
    proof (cases rule: process_request_step)
      case (wait q' left' cmds')
      then have "processInputBuffer exec q st = Some (q', st)" using False cl by (subst simps) simp
      then show ?thesis using wait less.prems(3) by metis
    next
      case (complete q' cmds')
      obtain st1 where st1: "exec (q_argv q') st = Some (st1, True)" "run_commands exec cmds' st1 = Some st'"
        using less.prems(3) complete(2) by (auto split: option.splits prod.splits bool.splits)
      have p: "pending (resetClient q') [] cmds' = cmds'" by (simp add: pending_def)
      have "processInputBuffer exec q st = processInputBuffer exec (resetClient q') st1"
        using False cl complete(1,4) st1(1) by (subst simps) simp
      moreover have "short_buffer 0 (resetClient q')" using complete(5) by (simp add: short_buffer_def resetClient_def)
      ultimately show ?thesis using less.hyps [of "resetClient q'" "[]" cmds' st1] complete(2,3) p st1(2) by simp
    qed
  qed
qed

text \<open>
  The reads of the server: the network has \<open>inp\<close>, and each read delivers at most as many bytes as
  the server asks for and at most as many as are given for it.
\<close>

fun reads :: "(string list \<Rightarrow> 's \<Rightarrow> ('s \<times> bool) option) \<Rightarrow> nat \<Rightarrow> nat list \<Rightarrow> string \<Rightarrow> query \<Rightarrow> 's
    \<Rightarrow> (string \<times> query option \<times> 's) option" where
  "reads exec maxlen [] inp q st = Some (inp, Some q, st)"
| "reads exec maxlen (n # ns) inp q st = (
    if inp = [] then Some (inp, Some q, st)
    else let k = min (Suc n) (readlen q) in
      case readQueryFromClient exec maxlen (take k inp) q st of
        None \<Rightarrow> None
      | Some (None, st) \<Rightarrow> Some (drop k inp, None, st)
      | Some (Some q, st) \<Rightarrow> reads exec maxlen ns (drop k inp) q st)"

lemma expects_nothing:
  assumes "expects q left cmds []" "querybuf q = []"
  shows "left = []" "cmds = []"
proof -
  have e: "rest_text (bulklen q) left = []" "concat (map request cmds) = []" using assms by (simp_all add: expects_def)
  then show "cmds = []" by (cases cmds) (auto simp: request_def)
  show "left = []" using e(1) by (cases left) (auto simp: rest_text_def bulk_def split: if_splits)
qed

lemma stream_done:
  assumes "expects q left cmds []" "querybuf q = []" "run_commands exec (pending q left cmds) st = Some st'"
  shows "st' = st" "q_errors q = []" "\<not> close_after_reply q"
proof -
  have "pending q left cmds = []" using expects_nothing [OF assms(1,2)] by (simp add: pending_def)
  then show "st' = st" using assms(3) by simp
  show "q_errors q = []" "\<not> close_after_reply q" using assms(1) by (simp_all add: expects_def)
qed

text \<open>One read keeps the buffer short.\<close>

lemma read_bounds:
  assumes e: "expects q left cmds inp" and sm: "querybuf q = [] \<or> small q" and b: "length b \<le> readlen q"
  shows "0 < readlen q" "short_buffer 0 (q\<lparr>querybuf := querybuf q @ b\<rparr>)" "length (querybuf q @ b) \<le> 2 ^ 30"
proof -
  have bl: "bulklen q \<le> 512 * 1024 * 1024"
    using e by (cases left) (auto simp: expects_def split: if_splits)
  have mb: "bulklen q \<noteq> -1 \<Longrightarrow> q_reqtype q = REDIS_REQ_MULTIBULK \<and> multibulklen q \<noteq> 0 \<and> 0 \<le> bulklen q"
    using e by (cases left) (auto simp: expects_def)
  show "0 < readlen q" using sm mb by (auto simp: readlen_def small_def num_consts)
  show "short_buffer 0 (q\<lparr>querybuf := querybuf q @ b\<rparr>)"
  proof (cases "bulklen q \<ge> int REDIS_MBULK_BIG_ARG")
    case True
    then have "length b \<le> nat (bulklen q + 2) - length (querybuf q)" using b mb by (auto simp: readlen_def num_consts split: if_splits)
    then show ?thesis using True sm mb by (auto simp: short_buffer_def small_def num_consts)
  next
    case False
    then have "length (querybuf q) \<le> REDIS_MBULK_BIG_ARG + 1" using sm mb by (auto simp: small_def num_consts split: if_splits)
    moreover have "length b \<le> REDIS_IOBUF_LEN" using b by (simp add: readlen_def split: if_splits)
    ultimately show ?thesis by (simp add: short_buffer_def num_consts)
  qed
  then show "length (querybuf q @ b) \<le> 2 ^ 30" using bl by (auto simp: short_buffer_def num_consts)
qed

lemma reads_stream:
  assumes "expects q left cmds inp" "querybuf q = [] \<or> small q \<and> inp \<noteq> []"
    and "run_commands exec (pending q left cmds) st = Some st'" "length inp \<le> length ns" "2 ^ 30 \<le> maxlen"
  shows "\<exists>q'. reads exec maxlen ns inp q st = Some ([], Some q', st') \<and> querybuf q' = [] \<and> q_errors q' = [] \<and> \<not> close_after_reply q'"
  using assms
proof (induction ns arbitrary: inp q left cmds st)
  case Nil
  then have i: "inp = []" "querybuf q = []" by auto
  then show ?case using stream_done [OF _ i(2) Nil.prems(3)] Nil.prems(1) by simp
next
  case (Cons n ns)
  show ?case
  proof (cases "inp = []")
    case True
    then have "querybuf q = []" using Cons.prems(2) by simp
    then show ?thesis using stream_done [OF _ _ Cons.prems(3)] Cons.prems(1) True by simp
  next
    case False
    define k b where "k = min (Suc n) (readlen q)" and "b = take k inp"
    let ?q = "q\<lparr>querybuf := querybuf q @ b\<rparr>"
    have sm: "querybuf q = [] \<or> small q" using Cons.prems(2) by blast
    have bl: "length b \<le> readlen q" by (simp add: b_def k_def)
    note rb = read_bounds [OF Cons.prems(1) sm bl]
    have b: "b \<noteq> []" "0 < k" using False rb(1) by (auto simp: b_def k_def)
    have e: "expects ?q left cmds (drop k inp)" using Cons.prems(1) by (cases "left = []") (simp_all add: expects_def b_def)
    have "pending ?q left cmds = pending q left cmds" by (simp add: pending_def)
    then have "run_commands exec (pending ?q left cmds) st = Some st'" using Cons.prems(3) by (rule ssubst)
    from processInputBuffer_step [OF e rb(2) this] obtain q2 left2 cmds2 st2 where x:
      "processInputBuffer exec ?q st = Some (q2, st2)" "expects q2 left2 cmds2 (drop k inp)"
      "run_commands exec (pending q2 left2 cmds2) st2 = Some st'" "querybuf q2 = [] \<or> small q2 \<and> drop k inp \<noteq> []" by blast
    have "length (drop k inp) \<le> length ns" using Cons.prems(4) b(2) False by (cases inp) auto
    then have IH: "\<exists>q'. reads exec maxlen ns (drop k inp) q2 st2 = Some ([], Some q', st') \<and> querybuf q' = [] \<and> q_errors q' = [] \<and> \<not> close_after_reply q'"
      by (intro Cons.IH [OF x(2,4,3)] Cons.prems(5))
    have "\<not> length (querybuf q @ b) > maxlen" using rb(3) Cons.prems(5) by linarith
    then have "readQueryFromClient exec maxlen b q st = Some (Some q2, st2)"
      using b(1) x(1) by (simp add: readQueryFromClient_def)
    then have "reads exec maxlen (n # ns) inp q st = reads exec maxlen ns (drop k inp) q2 st2"
      using False by (simp add: Let_def flip: k_def b_def)
    then show ?thesis using IH by simp
  qed
qed

text \<open>
  C32. A client that sends requests of at most 1048576 arguments of at most 512 MB each has exactly
  these commands executed, in order, each with its arguments byte for byte, however the network
  cuts the stream into reads; no protocol error is raised, and nothing is left in the buffer.
\<close>

theorem requests_are_executed:
  assumes "list_all valid_args cmds" "run_commands exec cmds st = Some st'"
    and "length (concat (map request cmds)) \<le> length ns" "2 ^ 30 \<le> maxlen"
  shows "\<exists>q. reads exec maxlen ns (concat (map request cmds)) new_query st = Some ([], Some q, st')
    \<and> querybuf q = [] \<and> q_errors q = [] \<and> \<not> close_after_reply q"
  using assms by (intro reads_stream [of new_query "[]" cmds])
    (simp_all add: expects_def new_query_def rest_text_def pending_def)

theorem requests_are_executed_witness:
  "\<exists>q. reads (\<lambda>args st. Some (st @ [args], True)) (2 ^ 30) (replicate 40 2)
      (concat (map request [[''chat'', ''a''], [''x'']])) new_query [] = Some ([], Some q, [[''chat'', ''a''], [''x'']])
    \<and> querybuf q = [] \<and> q_errors q = [] \<and> \<not> close_after_reply q"
  by (rule requests_are_executed) (simp_all add: valid_args_def request_def bulk_def show_nat_small)

text \<open>
  C36. A request in one line gives the arguments that were quoted in it, except for empty ones.  When
  the line ends with carriage return and line feed nothing of the next request is touched; when it
  ends with a line feed alone, the first character of the next request is lost, because two
  characters are removed for the end of the line.
\<close>

theorem inline_request:
  "processInlineBuffer (q\<lparr>querybuf := sdsjoin (map (sdscatrepr []) args) '' '' @ CR # LF # rest\<rparr>)
      = (q\<lparr>querybuf := rest, q_argv := filter (\<lambda>a. a \<noteq> []) args\<rparr>, True)
    \<and> processInlineBuffer (q\<lparr>querybuf := sdsjoin (map (sdscatrepr []) args) '' '' @ LF # rest\<rparr>)
      = (q\<lparr>querybuf := drop 1 rest, q_argv := filter (\<lambda>a. a \<noteq> []) args\<rparr>, True)"
proof -
  let ?l = "sdsjoin (map (sdscatrepr []) args) '' ''"
  have pr: "\<not> isprint CR" "\<not> isprint LF" "\<not> isprint NUL" by (simp_all add: isprint_def)
  have no: "c \<in> set ?l \<Longrightarrow> c \<noteq> CR \<and> c \<noteq> LF \<and> c \<noteq> NUL" for c using quoted_print [of c args] pr by blast
  have at: "strchr (w @ LF # s) LF = Some (length w)" if "\<And>c. c \<in> set w \<Longrightarrow> c \<noteq> LF \<and> c \<noteq> NUL" for w s
  proof -
    have "takeWhile (\<lambda>x. x \<noteq> LF \<and> x \<noteq> NUL) (w @ LF # s) = w" using that by (subst takeWhile_append2) auto
    then show ?thesis by (simp add: strchr_def)
  qed
  have sa: "sdssplitargs ?l = Some args"
    using loop_args [of args] strlen_print [OF quoted_print [of _ args]] by (simp add: sdssplitargs_def)
  have sr: "str_range (int (length ?l) + 2) (-1) s = drop (length ?l + 2) s" for s
    using str_range_drop [of "length ?l + 2" s] by (simp add: add.commute)
  have "strchr (?l @ CR # LF # rest) LF = Some (Suc (length ?l))"
    using at [of "?l @ [CR]" rest] no by (auto simp: in_set_conv_decomp)
  then have "processInlineBuffer (q\<lparr>querybuf := ?l @ CR # LF # rest\<rparr>) = (q\<lparr>querybuf := rest, q_argv := filter (\<lambda>a. a \<noteq> []) args\<rparr>, True)"
    using sa by (simp add: processInlineBuffer_def sr)
  moreover have "\<not> (length ?l \<noteq> 0 \<and> (?l @ LF # rest) ! (length ?l - 1) = CR)"
    using no [of "?l ! (length ?l - 1)"] by (auto simp: nth_append)
  then have "processInlineBuffer (q\<lparr>querybuf := ?l @ LF # rest\<rparr>) = (q\<lparr>querybuf := drop 1 rest, q_argv := filter (\<lambda>a. a \<noteq> []) args\<rparr>, True)"
    using sa at [of ?l rest] no by (auto simp: processInlineBuffer_def sr)
  ultimately show ?thesis by simp
qed

end
