(* ===== verification/Resp_Total.thy ===== *)
theory Resp_Total
  imports Resp_Stream
begin

text \<open>
  The request reader on any input: whatever bytes a client sends, in whatever pieces, the reader
  keeps its state well-formed, none of its assertions fails, and it comes to an end as long as the
  commands do.
\<close>

section \<open>Well-formed reading states\<close>

text \<open>
  Between two reads: the counters are in their ranges, and a state that waits for the first line of
  a request has neither arguments nor a length left from an earlier one.  After a protocol error or
  \<^verbatim>\<open>QUIT\<close> nothing is parsed any more.
\<close>

definition fresh_counts :: "query \<Rightarrow> bool" where
  "fresh_counts q \<longleftrightarrow> q_argv q = [] \<and> multibulklen q = 0 \<and> bulklen q = -1"

definition counts_bounded :: "query \<Rightarrow> bool" where
  "counts_bounded q \<longleftrightarrow> multibulklen q \<le> 1024 * 1024 \<and> -1 \<le> bulklen q \<and> bulklen q \<le> 512 * 1024 * 1024"

definition wf_query :: "query \<Rightarrow> bool" where
  "wf_query q \<longleftrightarrow> counts_bounded q \<and> (close_after_reply q \<or> (case q_reqtype q of
     REDIS_REQ_MULTIBULK \<Rightarrow> multibulklen q = 0 \<longrightarrow> fresh_counts q \<and> querybuf q \<noteq> [] \<and> querybuf q ! 0 = CHR ''*''
   | _ \<Rightarrow> fresh_counts q))"

lemma wf_new_query: "wf_query new_query"
  by (simp add: wf_query_def counts_bounded_def fresh_counts_def new_query_def)

lemma wf_append: "wf_query q \<Longrightarrow> wf_query (q\<lparr>querybuf := querybuf q @ bytes\<rparr>)"
  by (auto simp: wf_query_def counts_bounded_def fresh_counts_def nth_append split: reqtype.splits)

lemma wf_reset: "wf_query (resetClient q)"
  by (simp add: wf_query_def counts_bounded_def fresh_counts_def resetClient_def)

lemma wf_close: "counts_bounded q \<Longrightarrow> wf_query (q\<lparr>close_after_reply := True\<rparr>)"
  by (simp add: wf_query_def counts_bounded_def)

lemma strchr_bound: "strchr s c = Some k \<Longrightarrow> k < length s"
  by (auto simp: strchr_def Let_def split: if_splits)

lemma str_range_le: "length (str_range a b s) \<le> length s"
  unfolding str_range_def Let_def length_take length_drop by (meson diff_le_self le_trans min.cobounded1)

lemma protocol_error_simps [simp]:
  "close_after_reply (setProtocolError p q)" "multibulklen (setProtocolError p q) = multibulklen q"
  "bulklen (setProtocolError p q) = bulklen q" "q_reqtype (setProtocolError p q) = q_reqtype q"
  "querybuf (setProtocolError p q) = drop p (querybuf q)"
  "multibulklen (addReplyError e q) = multibulklen q" "bulklen (addReplyError e q) = bulklen q"
  "q_reqtype (addReplyError e q) = q_reqtype q" "querybuf (addReplyError e q) = querybuf q"
  "multibulklen (addReplyErrorFormat e q) = multibulklen q" "bulklen (addReplyErrorFormat e q) = bulklen q"
  "q_reqtype (addReplyErrorFormat e q) = q_reqtype q" "querybuf (addReplyErrorFormat e q) = querybuf q"
  by (simp_all add: setProtocolError_def addReplyError_def addReplyErrorFormat_def str_range_drop)

section \<open>The steps of a request\<close>

text \<open>What every step of a multi bulk request keeps, and what it adds.\<close>

definition bulk_keeps :: "query \<Rightarrow> query \<Rightarrow> bool" where
  "bulk_keeps q q' \<longleftrightarrow> q_reqtype q' = q_reqtype q \<and> length (querybuf q') \<le> length (querybuf q)
    \<and> multibulklen q' \<le> multibulklen q \<and> -1 \<le> bulklen q' \<and> bulklen q' \<le> 512 * 1024 * 1024"

lemma bulk_keeps_trans: "bulk_keeps q q' \<Longrightarrow> bulk_keeps q' q'' \<Longrightarrow> bulk_keeps q q''"
  by (auto simp: bulk_keeps_def)

lemma bulk_header_stops:
  assumes "bulk_header pos q = Inl (ex, pos', q')" "bulklen q = -1"
  shows "bulk_keeps q q' \<and> multibulklen q' = multibulklen q \<and> (ex = Return \<longrightarrow> close_after_reply q')"
  using assms by (auto simp: bulk_header_def bulk_keeps_def Let_def split: option.splits if_splits)

lemma bulk_header_goes_on:
  assumes "bulk_header pos q = Inr (pos', q')"
  shows "bulk_keeps q q' \<and> multibulklen q' = multibulklen q \<and> 0 \<le> bulklen q'"
  using assms by (auto simp: bulk_header_def bulk_keeps_def str_range_le Let_def split: option.splits if_splits)

lemma bulk_argument_taken:
  assumes "bulk_argument pos q = Some (pos', q')" "-1 \<le> bulklen q"
  shows "bulk_keeps q q' \<and> multibulklen q' = multibulklen q - 1 \<and> bulklen q' = -1 \<and> (pos' \<noteq> 0 \<or> querybuf q' = [])"
  using assms by (auto simp: bulk_argument_def bulk_keeps_def Let_def split: if_splits)

text \<open>The loop ends with an error, short of arguments, or having read some text for the last one.\<close>

definition bulk_result :: "query \<Rightarrow> bulk_exit \<times> nat \<times> query \<Rightarrow> bool" where
  "bulk_result q r \<longleftrightarrow> (case r of (ex, pos, q') \<Rightarrow> bulk_keeps q q' \<and> (ex = Return \<longrightarrow> close_after_reply q')
    \<and> (ex = Break \<longrightarrow> multibulklen q' \<noteq> 0 \<or> pos \<noteq> 0 \<or> querybuf q' = []))"

lemma bulk_loop_result:
  assumes "-1 \<le> bulklen q" "bulklen q \<le> 512 * 1024 * 1024" "multibulklen q = n"
    and "n \<noteq> 0 \<or> pos \<noteq> 0 \<or> querybuf q = []"
  shows "bulk_result q (bulk_loop n pos q)"
  using assms
proof (induction n arbitrary: pos q)
  case 0
  then show ?case by (simp add: bulk_result_def bulk_keeps_def)
next
  case (Suc n)
  let ?h = "if bulklen q = -1 then bulk_header pos q else Inr (pos, q)"
  show ?case
  proof (cases ?h)
    case (Inl r)
    then show ?thesis using bulk_header_stops [of pos q] Suc.prems
      by (cases r) (auto simp: bulk_result_def split: if_splits)
  next
    case (Inr pq)
    then obtain p1 q1 where h: "?h = Inr (p1, q1)" by (cases pq) auto
    then have k1: "bulk_keeps q q1" "multibulklen q1 = Suc n" "0 \<le> bulklen q1"
      using bulk_header_goes_on [of pos q p1 q1] Suc.prems by (auto simp: bulk_keeps_def split: if_splits)
    show ?thesis
    proof (cases "bulk_argument p1 q1")
      case None
      then show ?thesis using h k1 by (simp add: bulk_result_def)
    next
      case (Some pq2)
      then obtain p2 q2 where a: "bulk_argument p1 q1 = Some (p2, q2)" by (cases pq2) auto
      then have k2: "bulk_keeps q1 q2" "multibulklen q2 = n" "bulklen q2 = -1" "p2 \<noteq> 0 \<or> querybuf q2 = []"
        using bulk_argument_taken [OF a] k1 by auto
      have "bulk_result q2 (bulk_loop n p2 q2)" using Suc.IH [of q2 p2] k2 by auto
      then show ?thesis using h a bulk_keeps_trans [OF bulk_keeps_trans [OF k1(1) k2(1)]]
        by (auto simp: bulk_result_def)
    qed
  qed
qed

text \<open>What a step of the reader promises: a complete request has used up text, an incomplete one leaves a well-formed state.\<close>

definition request_result :: "query \<Rightarrow> query \<times> bool \<Rightarrow> bool" where
  "request_result q r \<longleftrightarrow> (case r of (q', ok) \<Rightarrow> counts_bounded q' \<and>
    (if ok then length (querybuf q') < length (querybuf q) else wf_query q'))"

lemma multibulk_arguments_result:
  assumes "counts_bounded q" "multibulklen q \<noteq> 0" "querybuf q \<noteq> []" "q_reqtype q = REDIS_REQ_MULTIBULK"
  shows "\<exists>r. multibulk_arguments pos q = Some r \<and> request_result q r"
proof -
  obtain ex p q1 where l: "bulk_loop (multibulklen q) pos q = (ex, p, q1)" by (cases "bulk_loop (multibulklen q) pos q") auto
  then have b: "bulk_result q (ex, p, q1)"
    using bulk_loop_result [of q "multibulklen q" pos] assms by (simp add: counts_bounded_def)
  then have c: "counts_bounded q1" "q_reqtype q1 = REDIS_REQ_MULTIBULK" "length (querybuf q1) \<le> length (querybuf q)"
    using assms by (auto simp: bulk_result_def bulk_keeps_def counts_bounded_def)
  show ?thesis
  proof (cases ex)
    case Return
    then show ?thesis using l b c assms(2) by (auto simp: multibulk_arguments_def request_result_def bulk_result_def wf_query_def)
  next
    case Break
    have "length (drop p (querybuf q1)) < length (querybuf q)" if "multibulklen q1 = 0"
      using that b c(3) assms(3) Break by (cases "querybuf q1 = []") (auto simp: bulk_result_def intro: less_le_trans [OF diff_less])
    moreover have "wf_query (q1\<lparr>querybuf := t\<rparr>)" if "multibulklen q1 \<noteq> 0" for t
      using that c by (auto simp: wf_query_def counts_bounded_def)
    moreover have "p = 0 \<Longrightarrow> q1\<lparr>querybuf := drop p (querybuf q1)\<rparr> = q1" by simp
    ultimately show ?thesis using l c assms(2) Break
      by (auto simp: multibulk_arguments_def request_result_def str_range_drop Let_def counts_bounded_def)
         (metis query.surjective query.update_convs(1) drop_0)+
  qed
qed

lemma wf_protocol_error: "counts_bounded q \<Longrightarrow> request_result q (setProtocolError p (addReplyError e q), False)"
  by (simp add: request_result_def wf_query_def counts_bounded_def)

lemma multibulk_header_result:
  assumes "wf_query q" "\<not> close_after_reply q" "querybuf q \<noteq> []" "q_reqtype q = REDIS_REQ_MULTIBULK" "multibulklen q = 0"
  shows "\<exists>h. multibulk_header q = Some h \<and> (case h of Inl r \<Rightarrow> request_result q r
    | Inr (pos, q1) \<Rightarrow> counts_bounded q1 \<and> multibulklen q1 \<noteq> 0 \<and> querybuf q1 = querybuf q \<and> q_reqtype q1 = REDIS_REQ_MULTIBULK)"
proof -
  have f: "counts_bounded q" "q_argv q = []" "querybuf q ! 0 = CHR ''*''" using assms by (auto simp: wf_query_def fresh_counts_def)
  have u: "request_result q (q, False)" using assms(1) by (simp add: request_result_def wf_query_def)
  have s: "length (str_range (int n + 2) (-1) (querybuf q)) < length (querybuf q)" for n
    using str_range_drop [of "n + 2" "querybuf q"] assms(3) by (simp add: add.commute)
  have d: "request_result q (q\<lparr>querybuf := str_range (int n + 2) (-1) (querybuf q)\<rparr>, True)" for n
    using s [of n] f(1) by (simp add: request_result_def counts_bounded_def)
  have m: "counts_bounded (q\<lparr>multibulklen := nat i\<rparr>)" if "i \<le> 1024 * 1024" for i
    using that f(1) by (simp add: counts_bounded_def)
  note step = f u d wf_protocol_error [OF f(1)]
  show ?thesis
  proof (cases "strchr (querybuf q) CR")
    case None
    then show ?thesis using step by (simp add: multibulk_header_def)
  next
    case (Some newline)
    show ?thesis
    proof (cases "string2ll (take (newline - 1) (drop 1 (querybuf q)))")
      case None
      then show ?thesis using Some step by (simp add: multibulk_header_def)
    next
      case ll: (Some ll)
      then show ?thesis using Some step m [of "sint ll"] assms(4) by (simp add: multibulk_header_def)
    qed
  qed
qed

lemma multibulk_result:
  assumes "wf_query q" "\<not> close_after_reply q" "querybuf q \<noteq> []" "q_reqtype q = REDIS_REQ_MULTIBULK"
  shows "\<exists>r. processMultibulkBuffer q = Some r \<and> request_result q r"
proof (cases "multibulklen q = 0")
  case False
  then show ?thesis using multibulk_arguments_result assms by (simp add: processMultibulkBuffer_def wf_query_def)
next
  case True
  obtain h where h: "multibulk_header q = Some h" "case h of Inl r \<Rightarrow> request_result q r
    | Inr (pos, q1) \<Rightarrow> counts_bounded q1 \<and> multibulklen q1 \<noteq> 0 \<and> querybuf q1 = querybuf q \<and> q_reqtype q1 = REDIS_REQ_MULTIBULK"
    using multibulk_header_result [OF assms True] by (elim exE conjE)
  show ?thesis
  proof (cases h)
    case (Inl r)
    then show ?thesis using h True by (simp add: processMultibulkBuffer_def)
  next
    case (Inr pq)
    then obtain pos q1 where i: "h = Inr (pos, q1)" by (cases pq) auto
    then obtain r where "multibulk_arguments pos q1 = Some r" "request_result q1 r"
      using h(2) multibulk_arguments_result [of q1 pos] assms(3) by auto
    moreover have "request_result q r = request_result q1 r" using h(2) i by (simp add: request_result_def)
    ultimately show ?thesis using h(1) i True by (simp add: processMultibulkBuffer_def)
  qed
qed

lemma inline_result:
  assumes "wf_query q" "\<not> close_after_reply q" "querybuf q \<noteq> []" "q_reqtype q = REDIS_REQ_INLINE"
  shows "request_result q (processInlineBuffer q)"
proof -
  have c: "counts_bounded q" using assms(1) by (simp add: wf_query_def)
  have u: "request_result q (q, False)" using assms(1) c by (simp add: request_result_def)
  have s: "length (str_range (int n + 2) (-1) (querybuf q)) < length (querybuf q)" for n
    using str_range_drop [of "n + 2" "querybuf q"] assms(3) by (simp add: add.commute)
  have d: "request_result q (q\<lparr>querybuf := str_range (int n + 2) (-1) (querybuf q), q_argv := a\<rparr>, True)" for n a
    using s [of n] c by (simp add: request_result_def counts_bounded_def)
  show ?thesis
  proof (cases "strchr (querybuf q) LF")
    case None
    then show ?thesis using u wf_protocol_error [OF c] by (simp add: processInlineBuffer_def)
  next
    case (Some n)
    define nl where "nl = (if n \<noteq> 0 \<and> querybuf q ! (n - 1) = CR then n - 1 else n)"
    then show ?thesis using Some d wf_protocol_error [OF c]
      by (cases "sdssplitargs (take nl (querybuf q))") (simp_all add: processInlineBuffer_def flip: nl_def)
  qed
qed

lemma process_request_result:
  assumes "wf_query q" "\<not> close_after_reply q" "querybuf q \<noteq> []"
  shows "\<exists>r. process_request q = Some r \<and> request_result q r"
proof -
  define q0 where "q0 = (if q_reqtype q = REQ_NONE
      then q\<lparr>q_reqtype := if querybuf q ! 0 = CHR ''*'' then REDIS_REQ_MULTIBULK else REDIS_REQ_INLINE\<rparr> else q)"
  have w: "wf_query q0" "\<not> close_after_reply q0" "querybuf q0 = querybuf q" "q_reqtype q0 \<noteq> REQ_NONE"
    using assms by (auto simp: q0_def wf_query_def counts_bounded_def fresh_counts_def)
  have r: "request_result q0 r = request_result q r" for r by (simp add: request_result_def w(3))
  show ?thesis
  proof (cases "q_reqtype q0")
    case REDIS_REQ_INLINE
    then show ?thesis using inline_result [OF w(1,2)] w(3) assms(3) r by (simp add: process_request_def flip: q0_def)
  next
    case REDIS_REQ_MULTIBULK
    then show ?thesis using multibulk_result [OF w(1,2)] w(3) assms(3) r by (simp add: process_request_def flip: q0_def)
  qed (use w in simp)
qed

section \<open>Any input\<close>

text \<open>What the reader needs of the commands: they come to an end, in a state that satisfies \<open>good\<close>.\<close>

locale total_commands =
  fixes exec :: "string list \<Rightarrow> 's \<Rightarrow> ('s \<times> bool) option" and good :: "'s \<Rightarrow> bool"
  assumes exec_total: "good st \<Longrightarrow> \<exists>st' ok. exec args st = Some (st', ok) \<and> good st'"
begin

lemma input_total:
  "wf_query q \<Longrightarrow> good st \<Longrightarrow> \<exists>q' st'. processInputBuffer exec q st = Some (q', st') \<and> wf_query q' \<and> good st'"
proof (induction "length (querybuf q)" arbitrary: q st rule: less_induct)
  case less
  show ?case
  proof (cases "querybuf q = [] \<or> close_after_reply q")
    case True
    then show ?thesis using less.prems by (subst processInputBuffer.simps) auto
  next
    case False
    then obtain q1 ok where p: "process_request q = Some (q1, ok)" "request_result q (q1, ok)"
      using process_request_result [OF less.prems(1)] by fastforce
    obtain st1 ok1 where e: "exec (q_argv q1) st = Some (st1, ok1)" "good st1" using exec_total less.prems(2) by blast
    have IH: "\<exists>q' st'. processInputBuffer exec q2 st2 = Some (q', st') \<and> wf_query q' \<and> good st'"
      if "ok" "querybuf q2 = querybuf q1" "wf_query q2" "good st2" for q2 st2
      using less.hyps [of q2 st2] that p(2) by (simp add: request_result_def)
    have w: "wf_query (q1\<lparr>close_after_reply := True\<rparr>)" using p(2) by (simp add: wf_close request_result_def)
    have b: "querybuf (resetClient q1) = querybuf q1" by (simp add: resetClient_def)
    note unfold = processInputBuffer.simps [of exec q st]
    consider "\<not> ok" | "ok" "q_argv q1 = []" | "ok" "q_argv q1 \<noteq> []" ok1 | "ok" "q_argv q1 \<noteq> []" "\<not> ok1" by blast
    then show ?thesis
    proof cases
      case 1
      then show ?thesis using p less.prems(2) False by (simp add: unfold request_result_def)
    next
      case 2
      then show ?thesis using p(1) False IH [OF 2(1) b wf_reset less.prems(2)] by (simp add: unfold)
    next
      case 3
      then show ?thesis using p(1) False e(1) IH [OF 3(1) b wf_reset e(2)] by (simp add: unfold)
    next
      case 4
      then show ?thesis using p(1) False e(1) IH [OF 4(1) _ w e(2)] by (simp add: unfold)
    qed
  qed
qed

lemma read_total:
  assumes "wf_query q" "good st"
  shows "\<exists>qo st'. readQueryFromClient exec maxlen bytes q st = Some (qo, st') \<and> pred_option wf_query qo \<and> good st'"
proof -
  obtain q1 st1 where "processInputBuffer exec (q\<lparr>querybuf := querybuf q @ bytes\<rparr>) st = Some (q1, st1)" "wf_query q1" "good st1"
    using input_total [OF wf_append [OF assms(1)] assms(2)] by blast
  then show ?thesis using assms(2) by (simp add: readQueryFromClient_def)
qed

lemma reads_total:
  "wf_query q \<Longrightarrow> good st \<Longrightarrow> \<exists>inp' qo st'. reads exec maxlen ns inp q st = Some (inp', qo, st')
    \<and> pred_option wf_query qo \<and> good st'"
proof (induction ns arbitrary: inp q st)
  case (Cons n ns)
  let ?k = "min (Suc n) (readlen q)"
  obtain qo st1 where r: "readQueryFromClient exec maxlen (take ?k inp) q st = Some (qo, st1)" "pred_option wf_query qo" "good st1"
    using read_total [OF Cons.prems] by blast
  show ?case
  proof (cases "inp = []")
    case True
    then show ?thesis using Cons.prems by simp
  next
    case inp: False
    show ?thesis
    proof (cases qo)
      case None
      then show ?thesis using r inp by (simp add: Let_def)
    next
      case (Some q1)
      then show ?thesis using r inp Cons.IH [of q1 st1 "drop ?k inp"] by (simp add: Let_def)
    qed
  qed
qed simp

end

text \<open>Commands that always come to an end satisfy this with any state as a good one.\<close>

lemma total_commands_any: "(\<forall>args st. exec args st \<noteq> None) \<Longrightarrow> total_commands exec (\<lambda>_. True)"
  by unfold_locales (metis option.exhaust surj_pair)

text \<open>
  C34. The reader is total and keeps its state well-formed: as long as the commands come to an end,
  every sequence of reads of any bytes, cut in any way, is processed to its end; no assertion of
  the reader fails, the number of arguments still expected never exceeds 1048576, and the length of
  the expected argument never exceeds 512 MB.
\<close>

theorem reader_total:
  assumes "\<forall>args st. exec args st \<noteq> None" "wf_query q"
  shows "\<exists>inp' qo st'. reads exec maxlen ns inp q st = Some (inp', qo, st') \<and> pred_option wf_query qo
    \<and> pred_option (\<lambda>q'. multibulklen q' \<le> 1024 * 1024 \<and> bulklen q' \<le> 512 * 1024 * 1024) qo"
proof -
  obtain inp' qo st' where "reads exec maxlen ns inp q st = Some (inp', qo, st')" "pred_option wf_query qo"
    using total_commands.reads_total [OF total_commands_any [OF assms(1)] assms(2)] by blast
  then show ?thesis by (auto simp: wf_query_def counts_bounded_def elim: option.pred_mono_strong)
qed

theorem reader_total_witness:
  "\<exists>inp' qo st'. reads (\<lambda>args st. Some (st @ [args], True)) 100 [2, 9] (''*'' @ ''garbage'') new_query [] = Some (inp', qo, st')
    \<and> pred_option wf_query qo"
  using reader_total [of "\<lambda>args st. Some (st @ [args], True)" new_query 100 "[2, 9]" "''*'' @ ''garbage''" "[]"] wf_new_query by auto

end
