(* ===== verification/Command.thy ===== *)
theory Command
  imports Mychat_Props Resp_Total
begin

text \<open>
  From the arguments of a request to the command (\<^verbatim>\<open>processCommand\<close>, the command table and
  \<^verbatim>\<open>authCommand\<close> in \<^verbatim>\<open>server/src/redis.c\<close>).  The commands of Redis itself are compiled out of
  the table, so the four commands of this server are all there are; in particular no client can
  begin a transaction, subscribe to a channel or authenticate.  The state is the server and whether
  the client is authenticated.  \<open>None\<close> is a memory error in a command.
\<close>

section \<open>Passwords\<close>

definition REDIS_AUTHPASS_MAX_LEN :: nat where [num_consts]: "REDIS_AUTHPASS_MAX_LEN = 512"

text \<open>A C string is what comes before the first nul character; a \<^verbatim>\<open>char\<close> is widened with its sign.\<close>

definition cstr :: "string \<Rightarrow> string" where
  "cstr s = take (strlen s) s"

definition char_int :: "char \<Rightarrow> 32 word" where
  "char_int c = signed_take_bit 7 (of_nat (of_char c))"

definition pad512 :: "string \<Rightarrow> string" where
  "pad512 s = s @ replicate (REDIS_AUTHPASS_MAX_LEN - length s) NUL"

definition time_independent_strcmp :: "string \<Rightarrow> string \<Rightarrow> 32 word" where
  "time_independent_strcmp a b = (
    let a = cstr a; b = cstr b; alen = length a; blen = length b in
    if alen > REDIS_AUTHPASS_MAX_LEN \<or> blen > REDIS_AUTHPASS_MAX_LEN then 1
    else
      let bufa = pad512 a; bufb = pad512 b;
          diff = fold (\<lambda>j diff. diff OR (char_int (bufa ! j) XOR char_int (bufb ! j))) [0..<REDIS_AUTHPASS_MAX_LEN] 0
      in diff OR (of_nat alen XOR of_nat blen))"

section \<open>The command table\<close>

datatype cmd_proc = P_chat | P_node | P_register | P_auth

record redisCommand =
  cmd_name :: string
  cmd_proc :: cmd_proc
  cmd_arity :: int
  cmd_flags :: string

definition redisCommandTable :: "redisCommand list" where
  "redisCommandTable = [
    \<lparr>cmd_name = ''chat'', cmd_proc = P_chat, cmd_arity = 4, cmd_flags = ''wm''\<rparr>,
    \<lparr>cmd_name = ''node'', cmd_proc = P_node, cmd_arity = 4, cmd_flags = ''wm''\<rparr>,
    \<lparr>cmd_name = ''register'', cmd_proc = P_register, cmd_arity = 6, cmd_flags = ''wm''\<rparr>,
    \<lparr>cmd_name = ''r'', cmd_proc = P_register, cmd_arity = 6, cmd_flags = ''wm''\<rparr>]"

text \<open>
  The server looks commands up in a dictionary of type \<^verbatim>\<open>commandTableDictType\<close> that is filled with this
  table; such a dictionary is a map (\<open>Dict_Ops\<close>), whose keys are compared without regard to case.
\<close>

definition lookupCommand :: "string \<Rightarrow> redisCommand option" where
  "lookupCommand name = find (\<lambda>c. map c_tolower name = map c_tolower (cmd_name c)) redisCommandTable"

section \<open>Commands\<close>

text \<open>The conditions of the server under which it refuses commands, and the database behind them.\<close>

record gates =
  g_oom :: bool
  g_write_error :: "string option"
  g_noreplicas :: bool
  g_roslave :: bool
  g_subscribed :: bool
  g_masterdown :: bool
  g_loading :: bool
  g_slowscript :: bool

record 'm world =
  w_gates :: gates
  w_requirepass :: "string option"
  w_can_resize :: bool
  w_addrs :: "64 word \<times> 64 word"
  w_mysql :: "'m mysql"
  w_garbage :: "bool \<times> bool"
  w_ctx :: md5_context

definition error_reply :: "string \<Rightarrow> string" where
  "error_reply s = ''-ERR '' @ map (\<lambda>c. if c = CR \<or> c = LF then CHR '' '' else c) s @ crlf"

definition authCommand :: "'m world \<Rightarrow> nat \<Rightarrow> string list \<Rightarrow> 'm server \<times> bool \<Rightarrow> 'm server \<times> bool" where
  "authCommand w c args = (\<lambda>(sv, authenticated). case w_requirepass w of
     None \<Rightarrow> (addReplyString c (error_reply ''Client sent AUTH, but no password is set'') sv, authenticated)
   | Some pass \<Rightarrow>
       if time_independent_strcmp (args ! 1) pass = 0 then (addReplyString c (''+OK'' @ crlf) sv, True)
       else (addReplyString c (error_reply ''invalid password'') sv, False))"

text \<open>The checks between looking up the command and calling it, in their order; the reply of the first that fails.\<close>

definition refuse_reply :: "gates \<Rightarrow> redisCommand \<Rightarrow> string option" where
  "refuse_reply g cmd = (
    if g_oom g \<and> CHR ''m'' \<in> set (cmd_flags cmd)
    then Some (''-OOM command not allowed when used memory > '' @ sq @ ''maxmemory'' @ sq @ ''.'' @ crlf)
    else if g_write_error g \<noteq> None \<and> CHR ''w'' \<in> set (cmd_flags cmd) then g_write_error g
    else if g_noreplicas g \<and> CHR ''w'' \<in> set (cmd_flags cmd)
    then Some (''-NOREPLICAS Not enough good slaves to write.'' @ crlf)
    else if g_roslave g \<and> CHR ''w'' \<in> set (cmd_flags cmd)
    then Some (''-READONLY You can'' @ sq @ ''t write against a read only slave.'' @ crlf)
    else if g_subscribed g
    then Some (error_reply ''only (P)SUBSCRIBE / (P)UNSUBSCRIBE / QUIT allowed in this context'')
    else if g_masterdown g \<and> CHR ''t'' \<notin> set (cmd_flags cmd)
    then Some (''-MASTERDOWN Link with MASTER is down and slave-serve-stale-data is set to '' @ sq @ ''no'' @ sq @ ''.'' @ crlf)
    else if g_loading g \<and> CHR ''l'' \<notin> set (cmd_flags cmd)
    then Some (''-LOADING Redis is loading the dataset in memory'' @ crlf)
    else if g_slowscript g \<and> cmd_proc cmd \<noteq> P_auth
    then Some (''-BUSY Redis is busy running a script. You can only call SCRIPT KILL or SHUTDOWN NOSAVE.'' @ crlf)
    else None)"

definition call :: "'m world \<Rightarrow> nat \<Rightarrow> redisCommand \<Rightarrow> string list \<Rightarrow> 'm server \<times> bool \<Rightarrow> ('m server \<times> bool) option" where
  "call w c cmd args = (\<lambda>(sv, authenticated).
    let a = (\<lambda>i. cstr (args ! i)); sv_only = map_option (\<lambda>sv. (sv, authenticated)) in
    case cmd_proc cmd of
      P_chat \<Rightarrow> sv_only (chatCommand (w_can_resize w) (w_addrs w) (w_mysql w) c (a 1) (a 2) (a 3) sv)
    | P_node \<Rightarrow> sv_only (nodeCommand (w_mysql w) c (a 1) (a 2) (a 3) sv)
    | P_register \<Rightarrow> sv_only (registerCommand (w_garbage w) (w_ctx w) (w_can_resize w) (w_mysql w) c
        (a 1) (a 2) (a 3) (a 4) (a 5) sv)
    | P_auth \<Rightarrow> Some (authCommand w c args (sv, authenticated)))"

definition processCommand :: "'m world \<Rightarrow> nat \<Rightarrow> string list \<Rightarrow> 'm server \<times> bool \<Rightarrow> (('m server \<times> bool) \<times> bool) option" where
  "processCommand w c args = (\<lambda>(sv, authenticated).
    let reply = (\<lambda>s. Some ((addReplyString c s sv, authenticated), True)) in
    if map c_tolower (cstr (args ! 0)) = ''quit''
    then Some ((addReplyString c (''+OK'' @ crlf) sv, authenticated), False)
    else case lookupCommand (args ! 0) of
        None \<Rightarrow> reply (error_reply (''unknown command '' @ sq @ cstr (args ! 0) @ sq))
      | Some cmd \<Rightarrow>
          if cmd_arity cmd > 0 \<and> cmd_arity cmd \<noteq> int (length args) \<or> int (length args) < - cmd_arity cmd
          then reply (error_reply (''wrong number of arguments for '' @ sq @ cmd_name cmd @ sq @ '' command''))
          else if w_requirepass w \<noteq> None \<and> \<not> authenticated \<and> cmd_proc cmd \<noteq> P_auth
          then reply (''-NOAUTH Authentication required.'' @ crlf)
          else case refuse_reply (w_gates w) cmd of Some s \<Rightarrow> reply s
            | None \<Rightarrow> map_option (\<lambda>st. (st, True)) (call w c cmd args (sv, authenticated)))"

section \<open>The comparison of passwords\<close>

lemma or_0: "a OR b = 0 \<longleftrightarrow> a = 0 \<and> b = (0 :: 32 word)"
  by (auto simp: bit_eq_iff bit_or_iff)

lemma xor_0: "a XOR b = 0 \<longleftrightarrow> a = (b :: 32 word)"
  by (auto simp: bit_eq_iff bit_xor_iff)

lemma fold_or_0: "fold (\<lambda>j d. d OR f j) xs (d :: 32 word) = 0 \<longleftrightarrow> d = 0 \<and> (\<forall>j \<in> set xs. f j = 0)"
  by (induction xs arbitrary: d) (auto simp: or_0)

lemma char_int_inj: "char_int a = char_int b \<longleftrightarrow> a = b"
proof
  assume "char_int a = char_int b"
  then have "take_bit 8 (char_int a) = take_bit 8 (char_int b)" by simp
  then have "take_bit 8 (of_nat (of_char a) :: 32 word) = take_bit 8 (of_nat (of_char b))"
    by (simp add: char_int_def take_bit_signed_take_bit)
  then have "unat (take_bit 8 (of_nat (of_char a) :: 32 word)) = unat (take_bit 8 (of_nat (of_char b) :: 32 word))" by simp
  moreover have "(of_char c :: nat) mod 2 ^ 32 mod 2 ^ 8 = of_char c" for c
  proof -
    have l: "(of_char c :: nat) < 256" by simp
    have "(of_char c :: nat) < 2 ^ 32" by (rule less_trans [OF l]) simp
    moreover have "(2 :: nat) ^ 8 = 256" by simp
    ultimately show ?thesis using l by (simp only: mod_less)
  qed
  moreover have "unat (take_bit 8 (of_nat n :: 32 word)) = n mod 2 ^ 32 mod 2 ^ 8" for n
    by (simp only: unsigned_take_bit_eq unat_of_nat take_bit_eq_mod [of 8 "_ :: nat"]) simp
  ultimately have "(of_char a :: nat) = of_char b" by metis
  then show "a = b" by simp
qed simp

lemma strcmp_iff:
  "time_independent_strcmp a b = 0 \<longleftrightarrow> cstr a = cstr b \<and> length (cstr a) \<le> 512"
proof (cases "length (cstr a) \<le> 512 \<and> length (cstr b) \<le> 512")
  case True
  have "(of_nat (length (cstr a)) :: 32 word) = of_nat (length (cstr b)) \<longleftrightarrow> length (cstr a) = length (cstr b)"
    using True by (auto simp: word_unat_eq_iff unat_of_nat)
  moreover have "(\<forall>j \<in> {0..<512}. pad512 (cstr a) ! j = pad512 (cstr b) ! j) \<longleftrightarrow> pad512 (cstr a) = pad512 (cstr b)"
    using True by (auto simp: list_eq_iff_nth_eq pad512_def num_consts)
  moreover have "pad512 (cstr a) = pad512 (cstr b) \<and> length (cstr a) = length (cstr b) \<longleftrightarrow> cstr a = cstr b"
    by (auto simp: pad512_def)
  ultimately show ?thesis using True
    by (simp add: time_independent_strcmp_def Let_def or_0 fold_or_0 xor_0 char_int_inj num_consts)
next
  case False
  then show ?thesis by (auto simp: time_independent_strcmp_def Let_def num_consts)
qed

lemma authCommand_accepts:
  "w_requirepass w = Some pass \<Longrightarrow>
    snd (authCommand w c args (sv, au)) \<longleftrightarrow> cstr (args ! 1) = cstr pass \<and> length (cstr pass) \<le> 512"
  by (auto simp: authCommand_def strcmp_iff)

section \<open>A server with a password\<close>

lemma lookup_not_quit: "lookupCommand name = Some cmd \<Longrightarrow> map c_tolower (cstr name) \<noteq> ''quit''"
proof
  assume l: "lookupCommand name = Some cmd" and "map c_tolower (cstr name) = ''quit''"
  then have "take (strlen name) (map c_tolower name) = ''quit''" by (simp add: cstr_def take_map)
  then have q: "hd (map c_tolower name) = CHR ''q''" by (cases "map c_tolower name"; cases "strlen name") auto
  have "\<exists>c \<in> set redisCommandTable. map c_tolower name = map c_tolower (cmd_name c)"
    using l by (auto simp: lookupCommand_def find_Some_iff)
  then show False using q by (auto simp: redisCommandTable_def c_tolower_def)
qed

lemma lookup_not_auth: "lookupCommand name = Some cmd \<Longrightarrow> cmd_proc cmd \<noteq> P_auth"
  by (auto simp: lookupCommand_def redisCommandTable_def split: if_splits)

lemma locked_step:
  assumes "w_requirepass w \<noteq> None"
  shows "\<exists>s ok. processCommand w c args (sv, False) = Some ((addReplyString c s sv, False), ok)"
  using assms lookup_not_auth [of "args ! 0"]
  by (auto simp: processCommand_def split: option.splits)

lemma replies_compose: "addReplyString c t (addReplyString c s sv) = addReplyString c (s @ t) sv"
  by (cases sv) (simp add: addReplyString_def upd_client_def comp_def if_distrib cong: if_cong)

lemma no_reply: "addReplyString c [] sv = sv"
  by (cases sv) (simp add: addReplyString_def upd_client_def)

definition locked_out :: "'m world \<Rightarrow> nat \<Rightarrow> 'm server \<Rightarrow> 'm server \<times> bool \<Rightarrow> bool" where
  "locked_out w c sv0 st \<longleftrightarrow> w_requirepass w \<noteq> None \<and> \<not> snd st \<and> (\<exists>s. fst st = addReplyString c s sv0)"

interpretation locked: total_commands "processCommand w c" "locked_out w c sv0" for w c sv0
proof unfold_locales
  fix st :: "'a server \<times> bool" and args
  assume "locked_out w c sv0 st"
  then obtain s where s: "w_requirepass w \<noteq> None" "st = (addReplyString c s sv0, False)" by (cases st) (auto simp: locked_out_def)
  then show "\<exists>st' ok. processCommand w c args st = Some (st', ok) \<and> locked_out w c sv0 st'"
    using locked_step [OF s(1), of c args "addReplyString c s sv0"] by (auto simp: locked_out_def replies_compose)
qed

text \<open>
  C35. With a password configured the server is locked for everybody: \<^verbatim>\<open>auth\<close> is not in the command
  table, so whatever bytes a new client sends, in whatever pieces and the password among them, they
  are read to their end and nothing changes but the replies to that client, which is never
  authenticated.
\<close>

theorem password_locks_everybody_out:
  assumes "w_requirepass w = Some pass"
  shows "\<exists>inp' qo s. reads (processCommand w c) maxlen ns inp new_query (sv, False)
    = Some (inp', qo, (addReplyString c s sv, False))"
proof -
  have "locked_out w c sv (sv, False)" using assms no_reply [of c sv] by (simp add: locked_out_def) metis
  then obtain inp' qo st' where "reads (processCommand w c) maxlen ns inp new_query (sv, False) = Some (inp', qo, st')"
      "locked_out w c sv st'"
    using locked.reads_total [OF wf_new_query] by blast
  then show ?thesis by (cases st') (auto simp: locked_out_def)
qed

section \<open>Bytes in, commands served\<close>

text \<open>What a stream of requests needs of the commands: in a good state, an acceptable command leads to a good state.\<close>

fun acceptable :: "(string list \<Rightarrow> 's \<Rightarrow> ('s \<times> bool) option) \<Rightarrow> (string list \<Rightarrow> 's \<Rightarrow> bool) \<Rightarrow> string list list \<Rightarrow> 's \<Rightarrow> bool" where
  "acceptable exec adm [] st = True"
| "acceptable exec adm (args # cmds) st \<longleftrightarrow> adm args st \<and> (\<forall>st'. exec args st = Some (st', True) \<longrightarrow> acceptable exec adm cmds st')"

locale executor =
  fixes exec :: "string list \<Rightarrow> 's \<Rightarrow> ('s \<times> bool) option"
    and good :: "'s \<Rightarrow> bool" and adm :: "string list \<Rightarrow> 's \<Rightarrow> bool"
  assumes exec_good: "good st \<Longrightarrow> adm args st \<Longrightarrow> \<exists>st'. exec args st = Some (st', True) \<and> good st'"
begin

lemma run_good: "good st \<Longrightarrow> acceptable exec adm cmds st \<Longrightarrow> \<exists>st'. run_commands exec cmds st = Some st' \<and> good st'"
proof (induction cmds arbitrary: st)
  case (Cons args cmds)
  then obtain st1 where "exec args st = Some (st1, True)" "good st1" using exec_good [of st args] by auto
  then show ?case using Cons by auto
qed simp

lemma stream_good:
  assumes "good st" "acceptable exec adm cmds st" "list_all valid_args cmds" "length (concat (map request cmds)) \<le> length ns" "2 ^ 30 \<le> maxlen"
  shows "\<exists>q st'. reads exec maxlen ns (concat (map request cmds)) new_query st = Some ([], Some q, st')
    \<and> run_commands exec cmds st = Some st' \<and> good st'"
proof -
  obtain st' where r: "run_commands exec cmds st = Some st'" "good st'" using run_good assms(1,2) by blast
  have "expects new_query [] cmds (concat (map request cmds))" "querybuf new_query = []" "pending new_query [] cmds = cmds"
    using assms(3) by (simp_all add: expects_def new_query_def rest_text_def pending_def)
  then show ?thesis using reads_stream [of new_query "[]" cmds _ exec st st' ns maxlen] r assms(4,5) by auto
qed

end

text \<open>The event of the chat server that a request stands for.\<close>

definition event_of :: "'m world \<Rightarrow> nat \<Rightarrow> string list \<Rightarrow> chat_event option" where
  "event_of w c args = (case lookupCommand (args ! 0) of None \<Rightarrow> None
    | Some cmd \<Rightarrow> if int (length args) \<noteq> cmd_arity cmd then None else let a = (\<lambda>i. cstr (args ! i)) in (case cmd_proc cmd of
        P_chat \<Rightarrow> Some (Chat c (a 1) (a 2) (a 3))
      | P_node \<Rightarrow> Some (Node c (a 1) (a 2) (a 3))
      | P_register \<Rightarrow> Some (Register c (w_garbage w) (w_ctx w) (a 1) (a 2) (a 3) (a 4) (a 5))
      | P_auth \<Rightarrow> None))"

definition open_world :: "'m world \<Rightarrow> bool" where
  "open_world w \<longleftrightarrow> w_requirepass w = None \<and> (\<forall>cmd. refuse_reply (w_gates w) cmd = None)"

abbreviation serve_in :: "'m world \<Rightarrow> chat_event \<Rightarrow> 'm server \<Rightarrow> 'm server option" where
  "serve_in w \<equiv> serve (w_can_resize w) (w_addrs w) (w_mysql w)"

lemma processCommand_serves:
  assumes "open_world w" "event_of w c args = Some ev"
  shows "processCommand w c args (sv, au) = map_option (\<lambda>sv. ((sv, au), True)) (serve_in w ev sv)"
proof -
  obtain cmd where l: "lookupCommand (args ! 0) = Some cmd" "int (length args) = cmd_arity cmd"
    using assms(2) by (auto simp: event_of_def split: option.splits if_splits)
  then show ?thesis using assms lookup_not_quit [OF l(1)]
    by (cases "cmd_proc cmd") (auto simp: processCommand_def open_world_def event_of_def call_def serve_def Let_def option.map_comp comp_def)
qed

definition adm_in :: "'m world \<Rightarrow> nat \<Rightarrow> string list \<Rightarrow> 'm server \<times> bool \<Rightarrow> bool" where
  "adm_in w c args st \<longleftrightarrow> open_world w \<and> (case event_of w c args of None \<Rightarrow> False | Some ev \<Rightarrow> admissible (w_mysql w) ev (fst st))"

interpretation chat: executor "processCommand w c" "\<lambda>st. reachable (w_can_resize w) (w_addrs w) (w_mysql w) (fst st)" "adm_in w c"
  for w c
proof unfold_locales
  fix st :: "'a server \<times> bool" and args
  assume r: "reachable (w_can_resize w) (w_addrs w) (w_mysql w) (fst st)" and a: "adm_in w c args st"
  obtain sv au where st: "st = (sv, au)" by fastforce
  obtain ev where ev: "open_world w" "event_of w c args = Some ev" "admissible (w_mysql w) ev sv"
    using a st by (auto simp: adm_in_def split: option.splits)
  obtain sv' where s: "serve_in w ev sv = Some sv'" using serve_ok [OF reachable_inv ev(3)] r st by fastforce
  then have "reachable (w_can_resize w) (w_addrs w) (w_mysql w) sv'" using r st ev(3) by (auto intro: reachable.event)
  then show "\<exists>st'. processCommand w c args st = Some (st', True) \<and> reachable (w_can_resize w) (w_addrs w) (w_mysql w) (fst st')"
    using processCommand_serves [OF ev(1,2), of sv au] s st by auto
qed

fun serve_all :: "'m world \<Rightarrow> chat_event list \<Rightarrow> 'm server \<Rightarrow> 'm server option" where
  "serve_all w [] sv = Some sv"
| "serve_all w (ev # evs) sv = Option.bind (serve_in w ev sv) (serve_all w evs)"

fun admissible_all :: "'m world \<Rightarrow> chat_event list \<Rightarrow> 'm server \<Rightarrow> bool" where
  "admissible_all w [] sv = True"
| "admissible_all w (ev # evs) sv \<longleftrightarrow> admissible (w_mysql w) ev sv \<and>
    (case serve_in w ev sv of None \<Rightarrow> True | Some sv' \<Rightarrow> admissible_all w evs sv')"

lemma run_is_serve:
  assumes "open_world w" "list_all2 (\<lambda>args ev. event_of w c args = Some ev) cmds evs"
  shows "run_commands (processCommand w c) cmds (sv, au) = map_option (\<lambda>sv. (sv, au)) (serve_all w evs sv)"
    and "admissible_all w evs sv \<Longrightarrow> acceptable (processCommand w c) (adm_in w c) cmds (sv, au)"
  using assms(2)
proof (induction cmds evs arbitrary: sv rule: list_all2_induct)
  case (Cons args cmds ev evs)
  { case 1
    show ?case using Cons processCommand_serves [OF assms(1) Cons.hyps(1), of sv au]
      by (cases "serve_in w ev sv") auto
  next
    case 2
    then show ?case using Cons assms(1) processCommand_serves [OF assms(1) Cons.hyps(1), of sv au]
      by (cases "serve_in w ev sv") (auto simp: adm_in_def)
  }
qed auto

text \<open>
  C33. From bytes to effects: when a client sends requests for \<^verbatim>\<open>chat\<close>, \<^verbatim>\<open>node\<close> and \<^verbatim>\<open>register\<close> commands with
  arguments of ordinary length, then, however the stream is cut into reads, the server ends in the
  state that serving these commands one after the other gives, which is reachable again, so all
  that is proved about reachable states holds in it.
\<close>

theorem byte_stream_served:
  assumes "reachable (w_can_resize w) (w_addrs w) (w_mysql w) sv" "open_world w" "list_all valid_args cmds"
    and "list_all2 (\<lambda>args ev. event_of w c args = Some ev) cmds evs" "admissible_all w evs sv"
    and "length (concat (map request cmds)) \<le> length ns" "2 ^ 30 \<le> maxlen"
  shows "\<exists>q sv'. reads (processCommand w c) maxlen ns (concat (map request cmds)) new_query (sv, au) = Some ([], Some q, (sv', au))
    \<and> serve_all w evs sv = Some sv' \<and> reachable (w_can_resize w) (w_addrs w) (w_mysql w) sv'"
proof -
  obtain q st' where r: "reads (processCommand w c) maxlen ns (concat (map request cmds)) new_query (sv, au) = Some ([], Some q, st')"
      "run_commands (processCommand w c) cmds (sv, au) = Some st'" "reachable (w_can_resize w) (w_addrs w) (w_mysql w) (fst st')"
    using chat.stream_good [of w "(sv, au)" c cmds ns maxlen] run_is_serve(2) [OF assms(2,4,5)] assms(1,3,6,7) by auto
  then show ?thesis using run_is_serve(1) [OF assms(2,4), of sv au] by auto
qed

definition ann_world :: "unit world" where
  "ann_world = \<lparr>w_gates = \<lparr>g_oom = False, g_write_error = None, g_noreplicas = False, g_roslave = False, g_subscribed = False,
      g_masterdown = False, g_loading = False, g_slowscript = False\<rparr>,
    w_requirepass = None, w_can_resize = True, w_addrs = (0, 0), w_mysql = one_user_db, w_garbage = (False, False), w_ctx = ctx0\<rparr>"

lemma chat_event_of:
  "event_of w c [''chat'', a, b, d] = Some (Chat c (cstr a) (cstr b) (cstr d))"
  by (simp add: event_of_def lookupCommand_def redisCommandTable_def numeral_eq_Suc Let_def)

theorem byte_stream_served_witness:
  "\<exists>q sv'. reads (processCommand ann_world 1) (2 ^ 30) (replicate 60 4) (concat (map request [[''chat'', ''login'', ''ann'', ''pw'']]))
      new_query (createClient 1 7 ann_server, False) = Some ([], Some q, (sv', False))
    \<and> serve True (0, 0) one_user_db (Chat 1 ''login'' ''ann'' ''pw'') (createClient 1 7 ann_server) = Some sv'"
proof -
  let ?sv = "createClient 1 7 ann_server" and ?cmds = "[[''chat'', ''login'', ''ann'', ''pw'']]"
  have w: "w_can_resize ann_world = True" "w_addrs ann_world = (0, 0)" "w_mysql ann_world = one_user_db"
    "open_world ann_world" by (simp_all add: ann_world_def open_world_def refuse_reply_def)
  have r: "reachable True (0, 0) one_user_db ?sv" by (intro reachable_connect ann_start) (simp add: start_server_def)
  have cs: "cstr ''login'' = ''login''" "cstr ''ann'' = ''ann''" "cstr ''pw'' = ''pw''" by (simp_all add: cstr_def strlen_def)
  have "admissible_all ann_world [Chat 1 ''login'' ''ann'' ''pw''] ?sv"
    using ann_addr(1) w by (simp add: admissible_def db_knows_def num_consts createClient_def start_server_def split: option.split)
  moreover have "list_all2 (\<lambda>args ev. event_of ann_world 1 args = Some ev) ?cmds [Chat 1 ''login'' ''ann'' ''pw'']"
    using chat_event_of [of ann_world 1 "''login''" "''ann''" "''pw''"] cs by simp
  moreover have "list_all valid_args ?cmds" "length (concat (map request ?cmds)) \<le> length (replicate 60 (4 :: nat))"
    by (simp_all add: valid_args_def request_def bulk_def show_nat_small)
  ultimately show ?thesis
    using byte_stream_served [of ann_world ?sv ?cmds 1 "[Chat 1 ''login'' ''ann'' ''pw'']" "replicate 60 4" "2 ^ 30" False] w r by (auto simp: bind_eq_Some_conv)
qed

theorem password_locks_everybody_out_witness:
  "\<exists>inp' qo s. reads (processCommand (ann_world\<lparr>w_requirepass := Some ''secret''\<rparr>) 1) 1000 (replicate 60 4)
      (concat (map request [[''auth'', ''secret''], [''chat'', ''login'', ''ann'', ''pw'']])) new_query (createClient 1 7 ann_server, False)
    = Some (inp', qo, (addReplyString 1 s (createClient 1 7 ann_server), False))"
  by (rule password_locks_everybody_out [of _ "''secret''"]) (simp add: ann_world_def)

end
