(* ===== verification/Spec2Isabelle.thy ===== *)
theory Spec2Isabelle
  imports Ihex_Refine Ihex_Stream Ext_Flash Net Tftp_Props Optiboot Dict_Ops Util Md5_Ref Adlist_Ref Command
begin

text \<open>
  The smart home system of the repository: hardware nodes with a network boot loader, and the
  message server that users and nodes log in to.  The server is a modified Redis: its own commands
  live beside the reading of requests, the strings, lists and hash tables of Redis.  Paths are
  relative to \<^verbatim>\<open>src/\<close>; \<^verbatim>\<open>None\<close> as a result is a memory error, a failed assertion, or a loop
  that waits for ever, so a theorem with \<^verbatim>\<open>Some\<close> in its conclusion says that none of these happens.

  \<^bold>\<open>The boot loader (\<^verbatim>\<open>hardware/Hellduino_Bootloader\<close>)\<close>

  An ATmega328P receives a program as an Intel HEX file over TFTP (a W5100 chip on the SPI bus),
  from an external flash chip on the same bus, or page by page over the serial line, and writes it
  into its own flash.  The chips are parameters: records of functions on a state of the outside world.
  \<^item> \<^verbatim>\<open>Boot_Flash\<close>: erasing, filling and writing pages with the macros of \<^verbatim>\<open>boot.h\<close>; the locale
    \<^verbatim>\<open>page_programmer\<close> states what the loaders rely on.
  \<^item> \<^verbatim>\<open>Ihex\<close>: \<^verbatim>\<open>tftp_boot/ihex.c\<close> with its two circular buffers, function by function, and
    \<^verbatim>\<open>validImage\<close> of \<^verbatim>\<open>validate.c\<close>.  \<^verbatim>\<open>Ihex_Spec\<close> is the same loader over lists, \<^verbatim>\<open>Ihex_Refine\<close> proves
    that the code implements it and returns, \<^verbatim>\<open>Ihex_File\<close> and \<^verbatim>\<open>Ihex_Stream\<close> follow whole files through
    it, cut into packages in any way: what is programmed byte for byte, and which valid files are
    refused.
  \<^item> \<^verbatim>\<open>Spi\<close>, \<^verbatim>\<open>Ext_Flash\<close>: the bus; \<^verbatim>\<open>ext_flash.c\<close>, with the loader that decides after at most 157
    packages, the limit that the code sets itself.
  \<^item> \<^verbatim>\<open>Net\<close>: \<^verbatim>\<open>net.c\<close>, the register frames and the configuration of the chip.
  \<^item> \<^verbatim>\<open>Tftp\<close>, \<^verbatim>\<open>Tftp_Props\<close>: \<^verbatim>\<open>tftp.c\<close> and \<^verbatim>\<open>tftp_main.c\<close>.  On a chip that behaves as its data
    sheet says, data blocks reach the loader, answers go into the ring, and an interrupted download is
    never started; long packets overflow the buffer, and a write request does not reset the loader.
  \<^item> \<^verbatim>\<open>Optiboot\<close>: the choice of what to start and the STK500 commands of \<^verbatim>\<open>optiboot.c\<close>; every
    command is answered, pages can be read back.

  \<^bold>\<open>The message server (\<^verbatim>\<open>server/src\<close>)\<close>

  Bytes of a connection become arguments (\<^verbatim>\<open>networking.c\<close>), arguments become a command (\<^verbatim>\<open>redis.c\<close>),
  and the command acts on sessions and on the directory of users (\<^verbatim>\<open>mychat.c\<close>, \<^verbatim>\<open>mydictuser.c\<close>).
  \<^item> \<^verbatim>\<open>Dict\<close>, \<^verbatim>\<open>Dict_Map\<close>, \<^verbatim>\<open>Dict_Ops\<close>: the hash table of \<^verbatim>\<open>dict.c\<close> with incremental rehashing; the
    invariant of its two tables; the locale \<^verbatim>\<open>dict_type\<close> is the contract of hash and comparison
    functions, interpreted on the dictionary types of \<^verbatim>\<open>redis.c\<close>; every sequence of operations answers as
    a finite map.
  \<^item> \<^verbatim>\<open>Adlist\<close>, \<^verbatim>\<open>Adlist_Ref\<close>: the linked lists of \<^verbatim>\<open>adlist.c\<close> over a store of nodes; every operation
    acts as on the sequence of nodes.  The list of clients is a HOL list in the theories below, on the
    strength of this.
  \<^item> \<^verbatim>\<open>Sds\<close>, \<^verbatim>\<open>Sds_Args\<close>: the strings of \<^verbatim>\<open>sds.c\<close> over their buffers; every sequence of operations acts
    as on strings and stays in the buffer; quoting and splitting are inverse.  The reader below works on
    the strings, on the strength of this.
  \<^item> \<^verbatim>\<open>Util\<close>, \<^verbatim>\<open>Rand\<close>, \<^verbatim>\<open>Md5\<close>, \<^verbatim>\<open>Md5_Ref\<close>: decimal numbers (\<^verbatim>\<open>util.c\<close>), the generator of \<^verbatim>\<open>rand.c\<close>, and
    \<^verbatim>\<open>md5.c\<close> proved equal to RFC 1321 and RFC 2104.
  \<^item> \<^verbatim>\<open>Myuser\<close>, \<^verbatim>\<open>Myuser_Inv\<close>: the directory of users and their nodes, the invariant of its records, and
    what each operation does under it.
  \<^item> \<^verbatim>\<open>Mychat\<close>, \<^verbatim>\<open>Myregister\<close>, \<^verbatim>\<open>Mychat_Cron\<close>: the chat, node, administration and registration commands,
    connecting and freeing of clients, and the periodic check for idle clients.  MySQL is a parameter;
    uninitialised memory is an argument.
  \<^item> \<^verbatim>\<open>Mychat_Inv\<close>, \<^verbatim>\<open>Mychat_Serve\<close>, \<^verbatim>\<open>Mychat_Reach\<close>: the invariant that ties sessions to the directory,
    kept by every command; the server as a state machine (\<^verbatim>\<open>reachable\<close>) in which connections, commands,
    disconnections, registrations and time happen in any order.
  \<^item> \<^verbatim>\<open>Mychat_Props\<close>: the properties over all reachable states, and the theorems that show where the code
    does not do what it means to.
  \<^item> \<^verbatim>\<open>Resp\<close>, \<^verbatim>\<open>Resp_Stream\<close>, \<^verbatim>\<open>Resp_Total\<close>: the request reader.  Requests are executed exactly, however the
    stream is cut; on any bytes at all the reader ends with a well-formed state (locale \<^verbatim>\<open>total_commands\<close>).
  \<^item> \<^verbatim>\<open>Command\<close>: command table, password check and dispatch.  The locale \<^verbatim>\<open>executor\<close> joins the reader to
    the state machine: a stream of bytes has exactly the effect of its commands.

  \<^verbatim>\<open>Prelude\<close> holds the shared types, collections and the index discipline of circular buffers (locale
  \<^verbatim>\<open>ring_index\<close>).

  \<^bold>\<open>Bounds and loops\<close>

  Machine integers are words where the code lets them wrap (firmware bytes and addresses, MD5, the
  random numbers, decimal parsing, the dictionary's hashes).  Lengths in the server are natural numbers;
  the dynamic strings carry the bound of 2 GB of their \<^verbatim>\<open>int\<close> fields as a hypothesis.  Loops that may wait
  for a chip or follow pointers are \<^verbatim>\<open>partial_function\<close>s with result type option, and the theorems state that
  they return; \<^verbatim>\<open>bulk_loop\<close> recurses on the number of arguments that are still expected, and the loader from
  the external flash on its packages.  "Arguments of ordinary length" are at most \<^verbatim>\<open>MAX_PRINTABLE\<close>
  characters, so that every \<^verbatim>\<open>sprintf\<close> of the commands fits its buffer.

  \<^bold>\<open>Not modelled\<close>

  \<^item> Watchdog, pin set-up, delays, trace output of the boot loader, and its variants for other chips.
  \<^item> The data types, persistence, replication, scripting and transactions of Redis: their commands are compiled out
    of the table, so no request reaches them.
  \<^item> \<^verbatim>\<open>dictScan\<close>, random keys and statistics of the dictionary; formatting with \<^verbatim>\<open>sdscatvprintf\<close>, whose
    results are written out where they are used; output buffers and the event loop, which are I/O.
  \<^item> Memory exhaustion: \<^verbatim>\<open>zmalloc\<close> ends the program.  The background thread that loads the directory is run as
    one step, so races with commands are outside.
  \<^item> The data server \<^verbatim>\<open>dserver\<close>, FastDFS, the bundled libraries, the Arduino sketches, the web pages and the
    mobile clients: operating system and platform I/O, third-party code, or languages and frameworks
    whose libraries are not in the repository.
\<close>

end
